(* ===== verification/Cat_Prelude.thy ===== *)
theory Cat_Prelude
  imports Main "HOL-Library.Word"
begin

text \<open>
  Shared vocabulary of the development: the machine types of the Rust sources, the release-mode
  arithmetic of \<open>usize\<close> values kept as naturals, the fact collections of the library, and the
  generic lemmas on words, lists and folds that the component theories use.

  The repository is built in release mode (\<open>run-uefi.sh\<close>), where Rust's \<open>+\<close>, \<open>-\<close> and
  \<open>*\<close> on machine integers wrap. A \<open>u64\<close> that is an address or a syscall argument is a
  \<open>64 word\<close>, whose operations wrap by themselves; a \<open>usize\<close> that only counts is a natural
  number, and every operation on it that can leave the range is written with
  \<open>usize_add\<close>, \<open>usize_sub\<close> or \<open>usize_mul\<close>, which reduce modulo \<open>2 ^ 64\<close>.
\<close>

unbundle bit_operations_syntax

type_synonym u8 = "8 word"
type_synonym u16 = "16 word"
type_synonym u32 = "32 word"
type_synonym u64 = "64 word"
type_synonym i64 = int

named_theorems usize_simps \<open>release-mode usize arithmetic that stays in range\<close>
named_theorems mem_simps \<open>reads after writes of the byte memory\<close>
named_theorems frame_simps \<open>state components an operation leaves alone\<close>

text \<open>A Rust panic, with its message; a fallible operation returns \<open>panic + 'a\<close>.\<close>

datatype panic = Panic string

text \<open>Sequencing of fallible steps: \<open>?\<close> and \<open>expect\<close> leave at the first error.\<close>

fun and_then :: "'e + 'a \<Rightarrow> ('a \<Rightarrow> 'e + 'b) \<Rightarrow> 'e + 'b" where
  "and_then (Inl e) f = Inl e"
| "and_then (Inr x) f = f x"

lemma and_then_Inr: "and_then m f = Inr y \<longleftrightarrow> (\<exists>x. m = Inr x \<and> f x = Inr y)"
  by (cases m) auto

lemma and_then_Inl: "and_then m f = Inl e \<longleftrightarrow> m = Inl e \<or> (\<exists>x. m = Inr x \<and> f x = Inl e)"
  by (cases m) auto

text \<open>\<open>Option::expect\<close>: the message of the panic on \<open>None\<close>.\<close>

fun expect :: "string \<Rightarrow> 'a option \<Rightarrow> panic + 'a" where
  "expect msg None = Inl (Panic msg)"
| "expect msg (Some x) = Inr x"

lemma expect_Inr: "expect msg r = Inr x \<longleftrightarrow> r = Some x"
  by (cases r) auto

text \<open>A \<open>for\<close> loop whose body may fail.\<close>

fun for_each :: "('a \<Rightarrow> 's \<Rightarrow> 'e + 's) \<Rightarrow> 'a list \<Rightarrow> 's \<Rightarrow> 'e + 's" where
  "for_each body [] s = Inr s"
| "for_each body (x # xs) s = and_then (body x s) (for_each body xs)"

lemma for_each_invariant:
  assumes "for_each body xs s = Inr s'" "P s"
    "\<And>x s s'. x \<in> set xs \<Longrightarrow> P s \<Longrightarrow> body x s = Inr s' \<Longrightarrow> P s'"
  shows "P s'"
  using assms by (induction xs arbitrary: s) (auto simp: and_then_Inr)

lemma for_each_append: "for_each f (xs @ ys) s = and_then (for_each f xs s) (for_each f ys)"
proof (induction xs arbitrary: s)
  case (Cons a xs)
  then show ?case by (cases "f a s") simp_all
qed simp

lemma for_each_fails: "xs \<noteq> [] \<Longrightarrow> (\<And>x. body x s = Inl e) \<Longrightarrow> for_each body xs s = Inl e"
  by (cases xs) auto

section \<open>Arithmetic of usize in release mode\<close>

definition usize_add :: "nat \<Rightarrow> nat \<Rightarrow> nat" where
  "usize_add a b = (a + b) mod 2 ^ 64"

definition usize_mul :: "nat \<Rightarrow> nat \<Rightarrow> nat" where
  "usize_mul a b = (a * b) mod 2 ^ 64"

definition usize_sub :: "nat \<Rightarrow> nat \<Rightarrow> nat" where
  "usize_sub a b = (a + (2 ^ 64 - b mod 2 ^ 64)) mod 2 ^ 64"

definition div_ceil :: "nat \<Rightarrow> nat \<Rightarrow> nat" where
  "div_ceil a b = (if a mod b = 0 then a div b else a div b + 1)"

text \<open>The cast \<open>u64 as i64\<close>: the two's complement reading of the word.\<close>

definition as_i64 :: "u64 \<Rightarrow> i64" where
  "as_i64 w = sint w"

lemma usize_add_small [usize_simps]: "a + b < 2 ^ 64 \<Longrightarrow> usize_add a b = a + b"
  by (simp add: usize_add_def)

lemma usize_mul_small [usize_simps]: "a * b < 2 ^ 64 \<Longrightarrow> usize_mul a b = a * b"
  by (simp add: usize_mul_def)

lemma usize_sub_small [usize_simps]:
  assumes "b \<le> a" "a < 2 ^ 64"
  shows "usize_sub a b = a - b"
proof -
  have "a + (2 ^ 64 - b mod 2 ^ 64) = 2 ^ 64 + (a - b)"
    using assms by simp
  moreover have "(2 ^ 64 + (a - b)) mod 2 ^ 64 = (a - b) mod 2 ^ 64"
    by (rule mod_add_self1)
  ultimately show ?thesis
    using assms by (simp add: usize_sub_def)
qed

lemma div_ceil_le_iff: "0 < b \<Longrightarrow> div_ceil a b \<le> k \<longleftrightarrow> a \<le> k * b"
proof -
  assume b: "0 < b"
  have eq: "a = a div b * b + a mod b" by simp
  have lt: "a mod b < b" using b by simp
  show ?thesis
  proof (cases "a mod b = 0")
    case True
    then have "a = a div b * b" using eq by simp
    then show ?thesis using True b by (simp add: div_ceil_def) (metis mult_le_cancel2)
  next
    case False
    have "a div b + 1 \<le> k \<longleftrightarrow> a div b < k" by auto
    also have "\<dots> \<longleftrightarrow> a < k * b" using b by (simp add: div_less_iff_less_mult)
    also have "\<dots> \<longleftrightarrow> a \<le> k * b"
      using False by (metis le_eq_less_or_eq mod_mult_self2_is_0)
    finally show ?thesis using False by (simp add: div_ceil_def)
  qed
qed

lemma div_ceil_upper: "0 < b \<Longrightarrow> a \<le> div_ceil a b * b"
  using div_ceil_le_iff [of b a "div_ceil a b"] by simp

lemma div_ceil_less: "0 < b \<Longrightarrow> x < a \<Longrightarrow> x div b < div_ceil a b"
  by (meson div_ceil_upper div_less_iff_less_mult less_le_trans)

lemma div_ceil_round: "0 < d \<Longrightarrow> (n + (d - 1)) div d = div_ceil n d"
proof -
  assume d: "0 < d"
  have "(n + (d - 1)) div d \<le> k \<longleftrightarrow> div_ceil n d \<le> k" for k
  proof -
    have "(n + (d - 1)) div d \<le> k \<longleftrightarrow> n + (d - 1) < Suc k * d"
      using d by (simp only: less_Suc_eq_le [symmetric] div_less_iff_less_mult)
    also have "\<dots> \<longleftrightarrow> n \<le> k * d" using d by auto
    finally show ?thesis using div_ceil_le_iff [OF d, of n k] by simp
  qed
  then show ?thesis by (meson le_antisym order_refl)
qed

section \<open>Words\<close>

lemma unat_add_small: "unat a + unat b < 2 ^ 64 \<Longrightarrow> unat (a + b :: u64) = unat a + unat b"
  by (simp add: unat_word_ariths)

lemma unat_mul_small: "unat a * unat b < 2 ^ 64 \<Longrightarrow> unat (a * b :: u64) = unat a * unat b"
  by (simp add: unat_word_ariths)

lemma unat_sub_small: "b \<le> a \<Longrightarrow> unat (a - b :: u64) = unat a - unat b"
  by (rule unat_sub)

lemma unat_of_nat_small: "n < 2 ^ 64 \<Longrightarrow> unat (of_nat n :: u64) = n"
  by (simp add: unat_of_nat take_bit_nat_eq_self)

lemma unat_lt_64: "unat (a :: u64) < 2 ^ 64"
  using unsigned_less [of a] by simp

lemma unat_add_of_nat_small:
  "unat a + n < 2 ^ 64 \<Longrightarrow> unat (a + of_nat n :: u64) = unat a + n"
  by (subst unat_add_small) (auto simp: unat_of_nat_small)

lemma bit_NOT_u64: "bit (NOT w :: u64) i \<longleftrightarrow> i < 64 \<and> \<not> bit w i"
  by (simp add: bit_simps)

lemma bit_exp_u64: "bit (2 ^ k :: u64) i \<longleftrightarrow> i = k \<and> k < 64"
  by (auto simp: bit_simps)

lemma u64_eq_iff: "(a :: u64) = b \<longleftrightarrow> (\<forall>i < 64. bit a i = bit b i)"
  by (auto intro: bit_word_eqI)

lemma not_all_ones_iff: "(w :: u64) \<noteq> NOT 0 \<longleftrightarrow> (\<exists>i < 64. \<not> bit w i)"
  by (simp add: u64_eq_iff bit_NOT_u64)

text \<open>\<open>u64::trailing_zeros\<close>: the index of the lowest set bit, 64 for the zero word.\<close>

definition trailing_zeros :: "u64 \<Rightarrow> nat" where
  "trailing_zeros w = length (takeWhile (\<lambda>i. \<not> bit w i) [0..<64])"

lemma length_takeWhile_upt_least:
  assumes "k < n" "P k" "\<forall>j<k. \<not> P j"
  shows "length (takeWhile (\<lambda>i. \<not> P i) [0..<n]) = k"
proof -
  have "[0..<n] = [0..<k] @ k # [Suc k..<n]"
    using assms(1) upt_add_eq_append [of 0 k "n - k"] by (simp add: upt_conv_Cons)
  then show ?thesis
    using assms(2,3) by (simp add: takeWhile_append)
qed

lemma trailing_zeros_least:
  assumes "bit w k" "\<forall>j<k. \<not> bit w j"
  shows "trailing_zeros w = k"
proof -
  have "k < 64" using assms(1) bit_imp_le_length [of w k] by simp
  then show ?thesis
    unfolding trailing_zeros_def using assms by (intro length_takeWhile_upt_least) auto
qed

lemma trailing_zeros_bit:
  assumes "w \<noteq> 0"
  shows "bit w (trailing_zeros w)" "trailing_zeros w < 64" "j < trailing_zeros w \<Longrightarrow> \<not> bit w j"
proof -
  obtain i where "bit w i" using assms by (auto simp: bit_eq_iff)
  then obtain k where k: "bit w k" "\<forall>j<k. \<not> bit w j"
    using exists_least_iff [of "bit w"] by blast
  then have eq: "trailing_zeros w = k" by (rule trailing_zeros_least)
  show "bit w (trailing_zeros w)" using k eq by simp
  then show "trailing_zeros w < 64" using bit_imp_le_length [of w] by fastforce
  show "j < trailing_zeros w \<Longrightarrow> \<not> bit w j" using k eq by simp
qed

text \<open>Clearing the low \<open>k\<close> bits rounds down to a multiple of \<open>2 ^ k\<close>.\<close>

lemma unat_and_not_mask: "unat (y AND NOT (mask k) :: u64) = unat y div 2 ^ k * 2 ^ k"
proof -
  have split: "y = (y AND NOT (mask k)) + (y AND mask k)"
    by (subst disjunctive_add) (auto simp: bit_simps intro!: bit_word_eqI)
  have low: "unat (y AND mask k) = unat y mod 2 ^ k"
    by (simp only: take_bit_eq_mask [symmetric] unsigned_take_bit_eq) (simp only: take_bit_eq_mod)
  have "unat (y AND NOT (mask k)) = unat (y - (y AND mask k))" using split by (metis add_diff_cancel_right')
  also have "\<dots> = unat y - unat y mod 2 ^ k"
    by (subst unat_sub_small) (simp_all add: low word_le_nat_alt)
  finally show ?thesis by (simp only: minus_mod_eq_div_mult)
qed

lemma round_up_least:
  fixes n d :: nat
  assumes "0 < d"
  shows "n \<le> (n + (d - 1)) div d * d" "(n + (d - 1)) div d * d < n + d" "d dvd (n + (d - 1)) div d * d"
proof -
  have "(n + (d - 1)) div d * d = n + (d - 1) - (n + (d - 1)) mod d" by (rule minus_mod_eq_div_mult [symmetric])
  moreover have "(n + (d - 1)) mod d < d" using assms by simp
  ultimately show "n \<le> (n + (d - 1)) div d * d" "(n + (d - 1)) div d * d < n + d" using assms by linarith+
qed simp

section \<open>Loops as folds\<close>

text \<open>
  A \<open>for\<close> loop without early exit is a \<open>fold\<close> over its range. An invariant of the body
  is an invariant of the loop.
\<close>

lemma fold_invariant_upt:
  assumes "P a s" "\<And>i s. a \<le> i \<Longrightarrow> i < b \<Longrightarrow> P i s \<Longrightarrow> P (Suc i) (f i s)" "a \<le> b"
  shows "P b (fold f [a..<b] s)"
  using assms(3,1,2)
proof (induction b rule: dec_induct)
  case base
  then show ?case by simp
next
  case (step n)
  then have "P n (fold f [a..<n] s)" by simp
  then show ?case using step by simp
qed

lemma fold_keeps:
  assumes "\<And>x s. x \<in> set xs \<Longrightarrow> g (f x s) = g s"
  shows "g (fold f xs s) = g s"
  using assms by (induction xs arbitrary: s) auto

end
