(* ===== verification/Memory.thy ===== *)
theory Memory
  imports Cat_Prelude
begin

text \<open>
  The byte memory behind the raw pointers of the kernel. An address is a \<open>u64\<close>, a cell a
  \<open>u8\<close>; a wider access reads or writes consecutive cells, least significant byte first, as
  x86-64 does. The operations are the ones the sources use: dereferences of \<open>*mut u64\<close>,
  \<open>*mut u32\<close> and \<open>*mut u8\<close> pointers, \<open>core::ptr::write_bytes\<close> and
  \<open>core::ptr::copy_nonoverlapping\<close>. The lemmas say what a read returns after a write: the
  value written at the same place, and the old value at a place the write does not touch.
\<close>

type_synonym memory = "u64 \<Rightarrow> u8"

section \<open>Ranges of addresses\<close>

definition in_range :: "u64 \<Rightarrow> nat \<Rightarrow> u64 \<Rightarrow> bool" where
  "in_range a n x \<longleftrightarrow> unat (x - a) < n"

lemma in_range_iff:
  assumes "unat a + n \<le> 2 ^ 64"
  shows "in_range a n x \<longleftrightarrow> unat a \<le> unat x \<and> unat x < unat a + n"
proof (cases "a \<le> x")
  case True
  then show ?thesis
    by (auto simp: in_range_def unat_sub_small word_le_nat_alt)
next
  case False
  then have lt: "unat x < unat a" by (simp add: word_le_nat_alt)
  have "unat (x - a) = 2 ^ 64 + unat x - unat a"
    using False by (simp add: unat_sub_if' word_le_nat_alt)
  then show ?thesis using lt assms by (simp add: in_range_def)
qed

lemma in_range_self: "i < n \<Longrightarrow> n \<le> 2 ^ 64 \<Longrightarrow> in_range a n (a + of_nat i)"
  by (simp add: in_range_def unat_of_nat_small)

lemma in_range_sub:
  assumes "in_range (a + of_nat d) l x" "d + l \<le> n" "n \<le> 2 ^ 64"
  shows "in_range a n x"
proof -
  have l: "unat (x - (a + of_nat d)) < l" using assms(1) by (simp add: in_range_def)
  have "unat (x - (a + of_nat d) + of_nat d) = unat (x - (a + of_nat d)) + d"
    using l assms by (intro unat_add_of_nat_small) linarith
  then show ?thesis using l assms(2) by (simp add: in_range_def)
qed

section \<open>Reading and writing bytes\<close>

definition load_bytes :: "memory \<Rightarrow> u64 \<Rightarrow> nat \<Rightarrow> u8 list" where
  "load_bytes m a n = map (\<lambda>i. m (a + of_nat i)) [0..<n]"

definition store_bytes :: "memory \<Rightarrow> u64 \<Rightarrow> u8 list \<Rightarrow> memory" where
  "store_bytes m a bs = (\<lambda>x. let k = unat (x - a) in if k < length bs then bs ! k else m x)"

text \<open>\<open>core::ptr::write_bytes(a, v, n)\<close>\<close>

definition write_bytes :: "memory \<Rightarrow> u64 \<Rightarrow> u8 \<Rightarrow> nat \<Rightarrow> memory" where
  "write_bytes m a v n = store_bytes m a (replicate n v)"

lemma length_load_bytes [simp]: "length (load_bytes m a n) = n"
  by (simp add: load_bytes_def)

lemma nth_load_bytes [simp]: "i < n \<Longrightarrow> load_bytes m a n ! i = m (a + of_nat i)"
  by (simp add: load_bytes_def)

lemma store_bytes_in:
  "i < length bs \<Longrightarrow> length bs \<le> 2 ^ 64 \<Longrightarrow> store_bytes m a bs (a + of_nat i) = bs ! i"
  by (simp add: store_bytes_def unat_of_nat_small)

lemma store_bytes_out [mem_simps]:
  "\<not> in_range a (length bs) x \<Longrightarrow> store_bytes m a bs x = m x"
  by (simp add: store_bytes_def in_range_def)

lemma store_bytes_Nil [simp]: "store_bytes m a [] = m"
  by (simp add: store_bytes_def)

lemma load_store_same [mem_simps]:
  "n = length bs \<Longrightarrow> n \<le> 2 ^ 64 \<Longrightarrow> load_bytes (store_bytes m a bs) a n = bs"
  by (intro nth_equalityI) (auto simp: store_bytes_in)

lemma load_bytes_cong:
  "(\<And>i. i < n \<Longrightarrow> m (a + of_nat i) = m' (a + of_nat i)) \<Longrightarrow> load_bytes m a n = load_bytes m' a n"
  by (simp add: load_bytes_def)

text \<open>Two ranges that do not wrap are disjoint when one ends before the other starts.\<close>

definition apart :: "u64 \<Rightarrow> nat \<Rightarrow> u64 \<Rightarrow> nat \<Rightarrow> bool" where
  "apart a n b k \<longleftrightarrow> unat a + n \<le> 2 ^ 64 \<and> unat b + k \<le> 2 ^ 64 \<and>
     (unat a + n \<le> unat b \<or> unat b + k \<le> unat a)"

lemma apart_sym: "apart a n b k \<longleftrightarrow> apart b k a n"
  by (auto simp: apart_def)

lemma apart_not_in_range:
  assumes "apart a n b k" "i < k"
  shows "\<not> in_range a n (b + of_nat i)"
proof -
  have "unat (b + of_nat i) = unat b + i"
    using assms by (intro unat_add_of_nat_small) (auto simp: apart_def)
  then show ?thesis
    using assms by (auto simp: apart_def in_range_iff)
qed

lemma apart_mono:
  "apart a n b k \<Longrightarrow> unat a \<le> unat a' \<Longrightarrow> unat a' + n' \<le> unat a + n \<Longrightarrow>
   unat b \<le> unat b' \<Longrightarrow> unat b' + k' \<le> unat b + k \<Longrightarrow> apart a' n' b' k'"
  by (auto simp: apart_def)

lemma load_store_apart [mem_simps]:
  "apart a (length bs) b n \<Longrightarrow> load_bytes (store_bytes m a bs) b n = load_bytes m b n"
  by (intro load_bytes_cong store_bytes_out apart_not_in_range)

section \<open>Little-endian words\<close>

fun le_word :: "u8 list \<Rightarrow> 'a::len word" where
  "le_word [] = 0"
| "le_word (b # bs) = ucast b OR push_bit 8 (le_word bs)"

fun le_bytes :: "nat \<Rightarrow> 'a::len word \<Rightarrow> u8 list" where
  "le_bytes 0 w = []"
| "le_bytes (Suc n) w = ucast w # le_bytes n (drop_bit 8 w)"

lemma length_le_bytes [simp]: "length (le_bytes n w) = n"
  by (induction n arbitrary: w) auto

lemma le_bytes_zero: "le_bytes n 0 = replicate n 0"
  by (induction n) auto

lemma le_word_le_bytes: "le_word (le_bytes n w) = take_bit (8 * n) (w :: 'a::len word)"
proof (induction n arbitrary: w)
  case 0
  then show ?case by simp
next
  case (Suc n)
  have "ucast (ucast w :: u8) OR push_bit 8 (take_bit (8 * n) (drop_bit 8 w)) = take_bit (8 + 8 * n) w"
    by (rule bit_word_eqI) (auto simp: bit_simps)
  then show ?case by (simp add: Suc)
qed

lemma le_bytes_nth: "i < n \<Longrightarrow> le_bytes n w ! i = ucast (drop_bit (8 * i) w)"
proof (induction n arbitrary: i w)
  case 0
  then show ?case by simp
next
  case (Suc n)
  then show ?case by (cases i) (auto simp: drop_bit_drop_bit add.commute)
qed

lemma bit_le_word:
  "bit (le_word bs :: 'a::len word) i \<longleftrightarrow>
     i < LENGTH('a) \<and> i div 8 < length bs \<and> bit (bs ! (i div 8)) (i mod 8)"
proof (induction bs arbitrary: i)
  case Nil
  then show ?case by simp
next
  case (Cons b bs)
  show ?case
  proof (cases "i < 8")
    case True
    then show ?thesis by (auto simp: bit_simps)
  next
    case False
    then obtain j where j: "i = 8 + j" by (metis add.commute le_Suc_ex not_less)
    have dv: "(8 + j) div 8 = Suc (j div 8)" "(8 + j) mod 8 = j mod 8" by simp_all
    have nb: "\<not> bit (ucast b :: 'a word) i"
      using False bit_imp_le_length [of b i] by (auto simp: bit_simps)
    show ?thesis
      using nb dv by (auto simp: Cons.IH bit_simps j)
  qed
qed

definition load64 :: "memory \<Rightarrow> u64 \<Rightarrow> u64" where
  "load64 m a = le_word (load_bytes m a 8)"

definition store64 :: "memory \<Rightarrow> u64 \<Rightarrow> u64 \<Rightarrow> memory" where
  "store64 m a w = store_bytes m a (le_bytes 8 w)"

definition load32 :: "memory \<Rightarrow> u64 \<Rightarrow> u32" where
  "load32 m a = le_word (load_bytes m a 4)"

definition store32 :: "memory \<Rightarrow> u64 \<Rightarrow> u32 \<Rightarrow> memory" where
  "store32 m a w = store_bytes m a (le_bytes 4 w)"

lemma take_bit_64 [simp]: "take_bit 64 (w :: u64) = w"
  by (simp add: take_bit_word_eq_self)

lemma take_bit_32 [simp]: "take_bit 32 (w :: u32) = w"
  by (simp add: take_bit_word_eq_self)

lemma load64_store64 [mem_simps, simp]: "load64 (store64 m a w) a = w"
  by (simp add: load64_def store64_def load_store_same le_word_le_bytes)

lemma load32_store32 [mem_simps, simp]: "load32 (store32 m a w) a = w"
  by (simp add: load32_def store32_def load_store_same le_word_le_bytes)

lemma load64_store64_apart [mem_simps]:
  "apart a 8 b 8 \<Longrightarrow> load64 (store64 m a w) b = load64 m b"
  by (simp add: load64_def store64_def load_store_apart)

lemma store64_out [mem_simps]: "\<not> in_range a 8 x \<Longrightarrow> store64 m a w x = m x"
  by (simp add: store64_def store_bytes_out)

lemma write_bytes_out [mem_simps]: "\<not> in_range a n x \<Longrightarrow> write_bytes m a v n x = m x"
  by (simp add: write_bytes_def store_bytes_out)

lemma write_bytes_in: "in_range a n x \<Longrightarrow> write_bytes m a v n x = v"
  by (simp add: write_bytes_def store_bytes_def in_range_def)

lemma load64_write_bytes_apart [mem_simps]:
  "apart a n b 8 \<Longrightarrow> load64 (write_bytes m a v n) b = load64 m b"
  by (simp add: load64_def write_bytes_def load_store_apart)

text \<open>A word read from cells that all hold 0xFF has every bit set.\<close>

lemma load64_all_ones:
  assumes "\<And>i. i < 8 \<Longrightarrow> m (a + of_nat i) = 0xFF"
  shows "load64 m a = NOT 0"
proof (rule bit_word_eqI)
  fix i assume i: "i < LENGTH(64)"
  have "(0xFF :: u8) = NOT 0" by simp
  then have "bit (0xFF :: u8) (i mod 8)"
    by (simp only: bit_not_iff) simp
  moreover have "i div 8 < 8" using i by simp
  ultimately show "bit (load64 m a) i = bit (NOT 0 :: u64) i"
    using i assms [of "i div 8"] by (simp add: load64_def bit_le_word bit_NOT_u64)
qed

end
