(* ===== verification/Frame_Allocator.thy ===== *)
theory Frame_Allocator
  imports Memory
begin

text \<open>
  The contract of a frame allocator: the \<open>FrameAllocator<Size4KiB>\<close> trait as the kernel and the
  bootloader use it. An allocator hands out a page-aligned frame that was available and is not
  available afterwards, or reports exhaustion exactly when nothing is available. The lemmas of
  the locale follow for every allocator: a run of allocations never hands out the same frame
  twice, and the frames of a run do not overlap. The physical memory manager (\<open>Pmm\<close>) and the
  bootloader's bump allocator (\<open>Bump_Allocator\<close>) both interpret it.
\<close>

text \<open>A run of \<open>n\<close> calls, which stops at the first \<open>None\<close>.\<close>

fun allocate_n :: "('s \<Rightarrow> u64 option \<times> 's) \<Rightarrow> nat \<Rightarrow> 's \<Rightarrow> u64 list \<times> 's" where
  "allocate_n allocate 0 s = ([], s)"
| "allocate_n allocate (Suc n) s =
     (case allocate s of
        (None, s') \<Rightarrow> ([], s')
      | (Some f, s') \<Rightarrow> let (fs, s'') = allocate_n allocate n s' in (f # fs, s''))"

lemma aligned_frames_apart:
  assumes "4096 dvd unat f" "4096 dvd unat g" "f \<noteq> g"
  shows "apart f 4096 g 4096"
proof -
  obtain i j where ij: "unat f = 4096 * i" "unat g = 4096 * j" using assms by (auto simp: dvd_def)
  have "i < 2 ^ 52" "j < 2 ^ 52" using unat_lt_64 [of f] unat_lt_64 [of g] ij by auto
  moreover have "i \<noteq> j" using assms(3) ij by (metis word_unat_eq_iff)
  ultimately show ?thesis by (auto simp: apart_def ij)
qed

locale frame_allocator =
  fixes allocate :: "'s \<Rightarrow> u64 option \<times> 's"
    and avail :: "'s \<Rightarrow> u64 set"
    and invar :: "'s \<Rightarrow> bool"
  assumes finite_avail: "invar s \<Longrightarrow> finite (avail s)"
    and avail_aligned: "invar s \<Longrightarrow> f \<in> avail s \<Longrightarrow> 4096 dvd unat f"
    and allocate_None: "invar s \<Longrightarrow> allocate s = (None, s') \<Longrightarrow> avail s = {} \<and> s' = s"
    and allocate_Some: "invar s \<Longrightarrow> allocate s = (Some f, s') \<Longrightarrow>
      f \<in> avail s \<and> avail s' = avail s - {f} \<and> invar s'"
begin

lemma allocate_cases:
  assumes "invar s"
  obtains (None) "allocate s = (None, s)" "avail s = {}"
    | (Some) f s' where "allocate s = (Some f, s')" "f \<in> avail s" "avail s' = avail s - {f}" "invar s'"
proof (cases "allocate s")
  case (Pair r s')
  show thesis
  proof (cases r)
    case None
    then have "avail s = {} \<and> s' = s" using allocate_None [OF assms] Pair by blast
    then show thesis using that(1) Pair None by blast
  next
    case (Some f)
    then have "f \<in> avail s \<and> avail s' = avail s - {f} \<and> invar s'"
      using allocate_Some [OF assms] Pair by blast
    then show thesis using that(2) Pair Some by blast
  qed
qed

lemma allocate_None_iff: "invar s \<Longrightarrow> fst (allocate s) = None \<longleftrightarrow> avail s = {}"
  by (erule allocate_cases) auto

lemma allocate_invar: "invar s \<Longrightarrow> invar (snd (allocate s))"
  by (frule allocate_cases) auto

lemma allocate_n_run:
  assumes "invar s" "allocate_n allocate n s = (fs, s')"
  shows "distinct fs \<and> set fs \<subseteq> avail s \<and> avail s' = avail s - set fs \<and> invar s' \<and>
    length fs = min n (card (avail s))"
  using assms
proof (induction n arbitrary: s fs)
  case 0
  then show ?case by simp
next
  case (Suc n)
  from Suc.prems(1) show ?case
  proof (cases rule: allocate_cases)
    case None
    then have "fs = []" "s' = s" using Suc.prems(2) by auto
    then show ?thesis using Suc.prems(1) None by simp
  next
    case (Some f t)
    obtain gs where gs: "allocate_n allocate n t = (gs, s')" "fs = f # gs"
      using Suc.prems(2) Some(1) by (auto split: prod.splits)
    have "card (avail s) = Suc (card (avail t))"
      using card.remove [OF finite_avail [OF Suc.prems(1)] Some(2)] Some(3) by simp
    then show ?thesis using Suc.IH [OF Some(4) gs(1)] Some(2,3) gs(2) by auto
  qed
qed

lemma allocate_n_apart:
  assumes "invar s" "allocate_n allocate n s = (fs, s')" "i < length fs" "j < length fs" "i \<noteq> j"
  shows "apart (fs ! i) 4096 (fs ! j) 4096"
proof (rule aligned_frames_apart)
  have run: "distinct fs" "set fs \<subseteq> avail s" using allocate_n_run [OF assms(1,2)] by auto
  then show "4096 dvd unat (fs ! i)" "4096 dvd unat (fs ! j)"
    using assms(1,3,4) nth_mem avail_aligned by (meson subset_iff)+
  show "fs ! i \<noteq> fs ! j" using run(1) assms(3-5) by (simp add: nth_eq_iff_index_eq)
qed

end

end
