(* ===== verification/Pmm.thy ===== *)
theory Pmm
  imports Frame_Allocator
begin

text \<open>
  The physical memory manager of \<open>kernel/src/pmm.rs\<close>: a bitmap with one bit per 4 KiB frame,
  kept in physical memory itself and reached through the higher-half window. The manager's
  fields are the record \<open>BitmapPmm\<close>; the bitmap words are read and written in the byte memory at
  the pointer \<open>bitmap\<close>, so that what the allocator stores and what the rest of the kernel
  stores share one memory.

  The lemmas relate every operation to the set of used frames (\<open>is_used\<close>): marking sets or
  clears exactly one frame, initialisation frees exactly the conventional memory minus the
  bitmap and frame 0, and allocation takes the lowest free frame. Initialisation fills eight times the memory of the
  bitmap; what it leaves depends on what the fill meets, and a theorem says what is lost.
\<close>

definition PAGE_SIZE :: u64 where
  "PAGE_SIZE = 4096"

record MemoryDescriptor =
  desc_type :: u32
  pad :: u32
  phys_start :: u64
  virt_start :: u64
  page_count :: u64
  attribute :: u64

text \<open>The fields of the \<open>repr(C)\<close> structure at their offsets.\<close>

definition read_descriptor :: "memory \<Rightarrow> u64 \<Rightarrow> MemoryDescriptor" where
  "read_descriptor m a = \<lparr>desc_type = load32 m a, pad = load32 m (a + 4), phys_start = load64 m (a + 8),
     virt_start = load64 m (a + 16), page_count = load64 m (a + 24), attribute = load64 m (a + 32)\<rparr>"

record BitmapPmm =
  bitmap :: u64
  total_frames :: nat
  bitmap_size_u64 :: nat
  bitmap_start_addr :: u64

definition PMM :: BitmapPmm where
  "PMM = \<lparr>bitmap = 0, total_frames = 0, bitmap_size_u64 = 0, bitmap_start_addr = 0\<rparr>"

text \<open>\<open>self.bitmap.add(idx)\<close>\<close>

definition word_ptr :: "BitmapPmm \<Rightarrow> nat \<Rightarrow> u64" where
  "word_ptr p idx = bitmap p + 8 * of_nat idx"

definition mark_used :: "BitmapPmm \<Rightarrow> nat \<Rightarrow> memory \<Rightarrow> memory" where
  "mark_used p frame_idx m =
     (let word_idx = frame_idx div 64;
          bit_idx = frame_idx mod 64
      in store64 m (word_ptr p word_idx) (load64 m (word_ptr p word_idx) OR push_bit bit_idx 1))"

definition mark_free :: "BitmapPmm \<Rightarrow> nat \<Rightarrow> memory \<Rightarrow> memory" where
  "mark_free p frame_idx m =
     (let word_idx = frame_idx div 64;
          bit_idx = frame_idx mod 64
      in store64 m (word_ptr p word_idx) (load64 m (word_ptr p word_idx) AND NOT (push_bit bit_idx 1)))"

definition mark_region_used :: "BitmapPmm \<Rightarrow> u64 \<Rightarrow> nat \<Rightarrow> memory \<Rightarrow> memory" where
  "mark_region_used p start_addr pages m =
     (let start_frame = unat (start_addr div PAGE_SIZE)
      in fold (\<lambda>i. mark_used p (usize_add start_frame i)) [0..<pages] m)"

definition mark_region_free :: "BitmapPmm \<Rightarrow> u64 \<Rightarrow> nat \<Rightarrow> memory \<Rightarrow> memory" where
  "mark_region_free p start_addr pages m =
     (let start_frame = unat (start_addr div PAGE_SIZE)
      in fold (\<lambda>i m. if usize_add start_frame i < total_frames p
                     then mark_free p (usize_add start_frame i) m else m) [0..<pages] m)"

text \<open>The first loop of \<open>init_internal\<close>: the first conventional region, not at address 0, that
  holds the bitmap; \<open>u64::MAX\<close> when there is none.\<close>

fun find_bitmap_region :: "memory \<Rightarrow> u64 \<Rightarrow> u64 \<Rightarrow> nat \<Rightarrow> nat list \<Rightarrow> u64" where
  "find_bitmap_region m mmap_addr_virt desc_size bitmap_size_bytes [] = - 1"
| "find_bitmap_region m mmap_addr_virt desc_size bitmap_size_bytes (i # is) =
     (let desc = read_descriptor m (mmap_addr_virt + of_nat i * desc_size)
      in if desc_type desc = 7 \<and> phys_start desc \<noteq> 0 \<and>
            of_nat bitmap_size_bytes \<le> page_count desc * PAGE_SIZE
         then phys_start desc
         else find_bitmap_region m mmap_addr_virt desc_size bitmap_size_bytes is)"

text \<open>One iteration of the second loop: the descriptor is read from the memory that the previous
  iterations left.\<close>

definition free_descriptor :: "BitmapPmm \<Rightarrow> u64 \<Rightarrow> u64 \<Rightarrow> nat \<Rightarrow> memory \<Rightarrow> memory" where
  "free_descriptor p mmap_addr_virt desc_size i m =
     (let desc = read_descriptor m (mmap_addr_virt + of_nat i * desc_size)
      in if desc_type desc = 7
         then mark_region_free p (phys_start desc) (unat (page_count desc)) m else m)"

text \<open>\<open>write_bytes\<close> of the standard library counts in elements of the pointer's type: with a pointer to \<open>u64\<close>
  and the count \<open>bitmap_size_bytes\<close> the fill is eight times as long as the bitmap.\<close>

definition init_internal ::
  "BitmapPmm \<Rightarrow> u64 \<Rightarrow> u64 \<Rightarrow> u64 \<Rightarrow> u64 \<Rightarrow> u64 \<Rightarrow> memory \<Rightarrow> panic + (BitmapPmm \<times> memory)" where
  "init_internal self mmap_addr_phys mmap_len desc_size hhdm_offset max_phys_addr m =
     (let mmap_addr_virt = mmap_addr_phys + hhdm_offset;
          frames = unat (max_phys_addr div PAGE_SIZE);
          size_u64 = div_ceil frames 64;
          bitmap_size_bytes = size_u64 * 8;
          bitmap_phys_addr = find_bitmap_region m mmap_addr_virt desc_size bitmap_size_bytes
                               [0..<unat mmap_len]
      in if bitmap_phys_addr = - 1 then Inl (Panic ''PMM: Critical - No RAM for Bitmap!'')
         else
           let p = self\<lparr>total_frames := frames, bitmap_size_u64 := size_u64,
                        bitmap_start_addr := bitmap_phys_addr,
                        bitmap := bitmap_phys_addr + hhdm_offset\<rparr>;
               m1 = write_bytes m (bitmap p) 0xFF (8 * bitmap_size_bytes);
               m2 = fold (free_descriptor p mmap_addr_virt desc_size) [0..<unat mmap_len] m1;
               bitmap_pages = div_ceil bitmap_size_bytes (unat PAGE_SIZE);
               m3 = mark_region_used p bitmap_phys_addr bitmap_pages m2
           in Inr (p, mark_used p 0 m3))"

fun allocate_frame_loop :: "BitmapPmm \<Rightarrow> nat list \<Rightarrow> memory \<Rightarrow> u64 option \<times> memory" where
  "allocate_frame_loop p [] m = (None, m)"
| "allocate_frame_loop p (idx # is) m =
     (let entry = load64 m (word_ptr p idx)
      in if entry \<noteq> NOT 0 then
           (let inverted = NOT entry;
                bit_idx = trailing_zeros inverted;
                frame_idx = idx * 64 + bit_idx
            in if total_frames p \<le> frame_idx then (None, m)
               else (Some (of_nat frame_idx * PAGE_SIZE), mark_used p frame_idx m))
         else allocate_frame_loop p is m)"

definition allocate_frame_internal :: "BitmapPmm \<Rightarrow> memory \<Rightarrow> u64 option \<times> memory" where
  "allocate_frame_internal p m = allocate_frame_loop p [0..<bitmap_size_u64 p] m"

section \<open>The abstraction: which frames are used\<close>

definition is_used :: "BitmapPmm \<Rightarrow> memory \<Rightarrow> nat \<Rightarrow> bool" where
  "is_used p m f \<longleftrightarrow> bit (load64 m (word_ptr p (f div 64))) (f mod 64)"

definition free_frames :: "BitmapPmm \<Rightarrow> memory \<Rightarrow> nat set" where
  "free_frames p m = {f. f < total_frames p \<and> \<not> is_used p m f}"

text \<open>The bitmap does not wrap around the address space, has one bit for each frame, and frame
  numbers are those of a 64-bit physical address.\<close>

definition pmm_wf :: "BitmapPmm \<Rightarrow> bool" where
  "pmm_wf p \<longleftrightarrow> unat (bitmap p) + 8 * bitmap_size_u64 p \<le> 2 ^ 64 \<and>
     bitmap_size_u64 p = div_ceil (total_frames p) 64 \<and> total_frames p \<le> 2 ^ 52"

text \<open>The bits of the last word that stand for no frame are set.\<close>

definition pmm_inv :: "BitmapPmm \<Rightarrow> memory \<Rightarrow> bool" where
  "pmm_inv p m \<longleftrightarrow> pmm_wf p \<and>
     (\<forall>f. total_frames p \<le> f \<and> f < 64 * bitmap_size_u64 p \<longrightarrow> is_used p m f)"

lemma total_le_bits: "pmm_wf p \<Longrightarrow> total_frames p \<le> 64 * bitmap_size_u64 p"
  using div_ceil_upper [of 64 "total_frames p"] by (simp add: pmm_wf_def)

lemma finite_free_frames [simp]: "finite (free_frames p m)"
  by (simp add: free_frames_def)

lemma unat_word_ptr:
  assumes "pmm_wf p" "i < bitmap_size_u64 p"
  shows "unat (word_ptr p i) = unat (bitmap p) + 8 * i"
proof -
  have "word_ptr p i = bitmap p + of_nat (8 * i)" by (simp add: word_ptr_def)
  then show ?thesis
    using assms by (simp only:) (intro unat_add_of_nat_small, simp add: pmm_wf_def)
qed

lemma word_ptr_apart:
  assumes "pmm_wf p" "i < bitmap_size_u64 p" "j < bitmap_size_u64 p" "i \<noteq> j"
  shows "apart (word_ptr p i) 8 (word_ptr p j) 8"
  using assms by (auto simp: apart_def unat_word_ptr pmm_wf_def)

lemma word_ptr_in_bitmap:
  assumes "pmm_wf p" "i < bitmap_size_u64 p" "in_range (word_ptr p i) 8 x"
  shows "in_range (bitmap p) (8 * bitmap_size_u64 p) x"
proof -
  have "unat (word_ptr p i) + 8 \<le> 2 ^ 64"
    using assms by (simp add: unat_word_ptr pmm_wf_def)
  then have "unat (word_ptr p i) \<le> unat x \<and> unat x < unat (word_ptr p i) + 8"
    using assms(3) by (simp add: in_range_iff)
  then show ?thesis
    using assms by (auto simp: unat_word_ptr in_range_iff pmm_wf_def)
qed

section \<open>Marking frames\<close>

lemma div64_less: "f < 64 * n \<Longrightarrow> f div 64 < (n::nat)"
  by (simp add: less_mult_imp_div_less mult.commute)

lemma same_bit_iff: "(f :: nat) = g \<longleftrightarrow> f div 64 = g div 64 \<and> f mod 64 = g mod 64"
  by (metis div_mult_mod_eq)

lemma is_used_store64:
  assumes "pmm_wf p" "f < 64 * bitmap_size_u64 p" "g < 64 * bitmap_size_u64 p"
  shows "is_used p (store64 m (word_ptr p (f div 64)) w) g \<longleftrightarrow>
     (if g div 64 = f div 64 then bit w (g mod 64) else is_used p m g)"
  using assms word_ptr_apart [of p "f div 64" "g div 64"]
  by (auto simp: is_used_def load64_store64_apart div64_less)

lemma is_used_mark_used:
  assumes "pmm_wf p" "f < 64 * bitmap_size_u64 p" "g < 64 * bitmap_size_u64 p"
  shows "is_used p (mark_used p f m) g \<longleftrightarrow> g = f \<or> is_used p m g"
proof -
  have "bit (load64 m (word_ptr p (f div 64)) OR push_bit (f mod 64) 1) (g mod 64) \<longleftrightarrow>
    is_used p m g \<or> g = f" if "g div 64 = f div 64"
    using that same_bit_iff [of g f] by (auto simp: is_used_def bit_or_iff bit_exp_u64)
  then show ?thesis
    using is_used_store64 [OF assms] same_bit_iff [of g f] by (auto simp: mark_used_def Let_def)
qed

lemma is_used_mark_free:
  assumes "pmm_wf p" "f < 64 * bitmap_size_u64 p" "g < 64 * bitmap_size_u64 p"
  shows "is_used p (mark_free p f m) g \<longleftrightarrow> g \<noteq> f \<and> is_used p m g"
proof -
  have "bit (load64 m (word_ptr p (f div 64)) AND NOT (push_bit (f mod 64) 1)) (g mod 64) \<longleftrightarrow>
    is_used p m g \<and> g \<noteq> f" if "g div 64 = f div 64"
    using that same_bit_iff [of g f]
    by (auto simp: is_used_def bit_and_iff bit_NOT_u64 bit_exp_u64)
  then show ?thesis
    using is_used_store64 [OF assms] same_bit_iff [of g f] by (auto simp: mark_free_def Let_def)
qed

text \<open>No write leaves the bitmap.\<close>

definition only_bitmap :: "BitmapPmm \<Rightarrow> memory \<Rightarrow> memory \<Rightarrow> bool" where
  "only_bitmap p m m' \<longleftrightarrow> (\<forall>x. \<not> in_range (bitmap p) (8 * bitmap_size_u64 p) x \<longrightarrow> m' x = m x)"

lemma only_bitmap_refl [simp]: "only_bitmap p m m"
  by (simp add: only_bitmap_def)

lemma only_bitmap_trans: "only_bitmap p m m' \<Longrightarrow> only_bitmap p m' m'' \<Longrightarrow> only_bitmap p m m''"
  by (simp add: only_bitmap_def)

lemma only_bitmap_store64:
  "pmm_wf p \<Longrightarrow> i < bitmap_size_u64 p \<Longrightarrow> only_bitmap p m (store64 m (word_ptr p i) w)"
  using word_ptr_in_bitmap by (auto simp: only_bitmap_def intro!: store64_out)

lemma only_bitmap_mark:
  assumes "pmm_wf p" "f < 64 * bitmap_size_u64 p"
  shows "only_bitmap p m (mark_used p f m)" "only_bitmap p m (mark_free p f m)"
  using assms by (simp_all add: mark_used_def mark_free_def Let_def only_bitmap_store64 div64_less)

text \<open>The initial fill goes beyond the bitmap: 64 bytes for each word of the bitmap.\<close>

definition only_filled :: "BitmapPmm \<Rightarrow> memory \<Rightarrow> memory \<Rightarrow> bool" where
  "only_filled p m m' \<longleftrightarrow> (\<forall>x. \<not> in_range (bitmap p) (64 * bitmap_size_u64 p) x \<longrightarrow> m' x = m x)"

lemma only_filled_trans: "only_filled p m m' \<Longrightarrow> only_bitmap p m' m'' \<Longrightarrow> only_filled p m m''"
  by (simp add: only_filled_def only_bitmap_def in_range_def)

section \<open>Regions\<close>

lemma mark_region_used_effect:
  assumes wf: "pmm_wf p"
    and fit: "unat (start div PAGE_SIZE) + pages \<le> 64 * bitmap_size_u64 p"
  shows "(\<forall>g < 64 * bitmap_size_u64 p. is_used p (mark_region_used p start pages m) g \<longleftrightarrow>
            (unat (start div PAGE_SIZE) \<le> g \<and> g < unat (start div PAGE_SIZE) + pages) \<or> is_used p m g)
       \<and> only_bitmap p m (mark_region_used p start pages m)"
proof -
  let ?s = "unat (start div PAGE_SIZE)"
  let ?P = "\<lambda>n m'. (\<forall>g < 64 * bitmap_size_u64 p. is_used p m' g \<longleftrightarrow>
              (?s \<le> g \<and> g < ?s + n) \<or> is_used p m g) \<and> only_bitmap p m m'"
  have bound: "64 * bitmap_size_u64 p < 2 ^ 64"
    using wf div_ceil_le_iff [of 64 "total_frames p" "2 ^ 46"] by (simp add: pmm_wf_def)
  have "?P pages (fold (\<lambda>i. mark_used p (usize_add ?s i)) [0..<pages] m)"
  proof (rule fold_invariant_upt [where P = ?P])
    show "?P 0 m" by auto
    fix i m' assume i: "i < pages" and IH: "?P i m'"
    have eq: "usize_add ?s i = ?s + i" using fit bound i by (simp add: usize_add_small)
    have lt: "?s + i < 64 * bitmap_size_u64 p" using fit i by simp
    show "?P (Suc i) (mark_used p (usize_add ?s i) m')"
      using IH only_bitmap_mark(1) [OF wf lt, of m']
      by (auto simp: eq is_used_mark_used [OF wf lt] intro: only_bitmap_trans)
  qed simp
  then show ?thesis unfolding mark_region_used_def Let_def .
qed

lemma mark_region_free_effect:
  assumes wf: "pmm_wf p"
    and fit: "unat (start div PAGE_SIZE) + pages < 2 ^ 64"
  shows "(\<forall>g < 64 * bitmap_size_u64 p. is_used p (mark_region_free p start pages m) g \<longleftrightarrow>
            \<not> (unat (start div PAGE_SIZE) \<le> g \<and> g < unat (start div PAGE_SIZE) + pages \<and>
               g < total_frames p) \<and> is_used p m g)
       \<and> only_bitmap p m (mark_region_free p start pages m)"
proof -
  let ?s = "unat (start div PAGE_SIZE)"
  let ?P = "\<lambda>n m'. (\<forall>g < 64 * bitmap_size_u64 p. is_used p m' g \<longleftrightarrow>
              \<not> (?s \<le> g \<and> g < ?s + n \<and> g < total_frames p) \<and> is_used p m g) \<and> only_bitmap p m m'"
  have "?P pages (fold (\<lambda>i m. if usize_add ?s i < total_frames p
                     then mark_free p (usize_add ?s i) m else m) [0..<pages] m)"
  proof (rule fold_invariant_upt [where P = ?P])
    show "?P 0 m" by auto
    fix i m' assume i: "i < pages" and IH: "?P i m'"
    have eq: "usize_add ?s i = ?s + i" using fit i by (simp add: usize_add_small)
    show "?P (Suc i) (if usize_add ?s i < total_frames p
            then mark_free p (usize_add ?s i) m' else m')"
    proof (cases "?s + i < total_frames p")
      case True
      then have lt: "?s + i < 64 * bitmap_size_u64 p" using total_le_bits [OF wf] by simp
      show ?thesis
        using IH True only_bitmap_mark(2) [OF wf lt, of m']
        by (auto simp: eq is_used_mark_free [OF wf lt] intro: only_bitmap_trans)
    next
      case False
      have "(?s \<le> g \<and> g < ?s + i \<and> g < total_frames p) \<longleftrightarrow>
        (?s \<le> g \<and> g < ?s + Suc i \<and> g < total_frames p)" for g
        using False by auto
      then show ?thesis using IH False by (simp add: eq)
    qed
  qed simp
  then show ?thesis unfolding mark_region_free_def Let_def .
qed

text \<open>Freeing never leaves the bitmap, whatever the descriptor says: frames beyond the last are skipped.\<close>

lemma only_bitmap_mark_region_free:
  assumes wf: "pmm_wf p"
  shows "only_bitmap p m (mark_region_free p start pages m)"
proof -
  have step: "only_bitmap p m' (if f < total_frames p then mark_free p f m' else m')" for f m'
    using only_bitmap_mark(2) [OF wf] total_le_bits [OF wf] by simp
  have "only_bitmap p m (fold (\<lambda>i m. if f i < total_frames p then mark_free p (f i) m else m) is m)" for f "is"
  proof (induction "is" arbitrary: m)
    case (Cons i "is")
    then show ?case using only_bitmap_trans [OF step [of m "f i"]] by simp
  qed simp
  then show ?thesis unfolding mark_region_free_def Let_def .
qed

lemma only_bitmap_free_descriptors:
  assumes "pmm_wf p"
  shows "only_bitmap p m (fold (free_descriptor p v s) is m)"
proof (induction "is" arbitrary: m)
  case (Cons i "is")
  have "only_bitmap p m (free_descriptor p v s i m)"
    using only_bitmap_mark_region_free [OF assms] by (simp add: free_descriptor_def Let_def)
  then show ?case using Cons only_bitmap_trans by auto
qed simp

section \<open>Allocation\<close>

lemma full_word_used:
  "load64 m (word_ptr p i) = NOT 0 \<Longrightarrow> f div 64 = i \<Longrightarrow> is_used p m f"
  by (simp add: is_used_def bit_NOT_u64)

lemma allocate_frame_loop_effect:
  assumes inv: "pmm_inv p m" and k: "k \<le> bitmap_size_u64 p"
    and below: "\<forall>f < 64 * k. is_used p m f"
  shows "allocate_frame_loop p [k..<bitmap_size_u64 p] m =
    (if free_frames p m = {} then (None, m)
     else (Some (of_nat (Min (free_frames p m)) * PAGE_SIZE), mark_used p (Min (free_frames p m)) m))"
  using k below
proof (induction "bitmap_size_u64 p - k" arbitrary: k)
  case 0
  then have "\<forall>f < total_frames p. is_used p m f"
    using total_le_bits [of p] inv by (auto simp: pmm_inv_def)
  then show ?case using 0 by (simp add: free_frames_def)
next
  case (Suc n)
  then have lt: "k < bitmap_size_u64 p" by simp
  let ?e = "load64 m (word_ptr p k)"
  show ?case
  proof (cases "?e = NOT 0")
    case True
    have "\<forall>f < 64 * Suc k. is_used p m f"
    proof (intro allI impI)
      fix f assume f: "f < 64 * Suc k"
      show "is_used p m f"
      proof (cases "f < 64 * k")
        case False
        then have "f div 64 = k" using f by (intro div_nat_eqI) auto
        then show ?thesis by (rule full_word_used [OF True])
      qed (use Suc.prems in simp)
    qed
    then have "allocate_frame_loop p [Suc k..<bitmap_size_u64 p] m =
      (if free_frames p m = {} then (None, m)
       else (Some (of_nat (Min (free_frames p m)) * PAGE_SIZE), mark_used p (Min (free_frames p m)) m))"
      using Suc lt by (intro Suc.hyps(1)) auto
    then show ?thesis using lt True by (simp add: upt_conv_Cons Let_def)
  next
    case False
    let ?b = "trailing_zeros (NOT ?e)"
    let ?f = "k * 64 + ?b"
    have nz: "NOT ?e \<noteq> 0" using False by (metis bit.double_compl)
    note tz = trailing_zeros_bit [OF nz]
    have b: "?b < 64" "\<not> bit ?e ?b" using tz(1,2) by (auto simp: bit_NOT_u64)
    have least: "j < ?b \<Longrightarrow> bit ?e j" for j using tz(2) tz(3) [of j] by (auto simp: bit_NOT_u64)
    have dm: "?f div 64 = k" "?f mod 64 = ?b" using b by auto
    have unused: "\<not> is_used p m ?f" using b by (simp add: is_used_def dm)
    have before: "is_used p m g" if "g < ?f" for g
    proof (cases "g < 64 * k")
      case False
      then have gk: "g div 64 = k" using that b by (intro div_nat_eqI) auto
      moreover have "g mod 64 < ?b" using that gk div_mult_mod_eq [of g 64] by linarith
      ultimately show ?thesis using least by (simp add: is_used_def)
    qed (use Suc.prems in simp)
    have bound: "?f < 64 * bitmap_size_u64 p" using lt b by auto
    have total: "?f < total_frames p" using inv bound unused by (meson pmm_inv_def not_le)
    have mem: "?f \<in> free_frames p m" using total unused by (simp add: free_frames_def)
    have "Min (free_frames p m) = ?f"
      using mem before by (intro Min_eqI) (auto simp: free_frames_def not_less [symmetric])
    then show ?thesis using lt False mem total by (auto simp: upt_conv_Cons Let_def)
  qed
qed

lemma allocate_frame_internal_effect:
  assumes "pmm_inv p m"
  shows "allocate_frame_internal p m =
    (if free_frames p m = {} then (None, m)
     else (Some (of_nat (Min (free_frames p m)) * PAGE_SIZE), mark_used p (Min (free_frames p m)) m))"
  unfolding allocate_frame_internal_def using assms by (intro allocate_frame_loop_effect) auto

lemma free_frames_mark_used:
  assumes "pmm_wf p" "f < total_frames p"
  shows "free_frames p (mark_used p f m) = free_frames p m - {f}"
  using assms total_le_bits [of p] by (auto simp: free_frames_def is_used_mark_used)

lemma pmm_inv_mark_used:
  assumes "pmm_inv p m" "f < total_frames p"
  shows "pmm_inv p (mark_used p f m)"
  using assms total_le_bits [of p] by (auto simp: pmm_inv_def is_used_mark_used)

section \<open>Initialisation\<close>

text \<open>
  What initialisation relies on: some RAM is reported; every conventional region starts on a page
  boundary, as the UEFI specification has it, and ends at or below
  \<open>max_phys_addr\<close> (which the bootloader computes as the end of the highest region); the
  higher-half window does not wrap; and the memory map itself is not stored in conventional
  memory, as the UEFI specification has it for loader data.
\<close>

definition desc_at :: "memory \<Rightarrow> u64 \<Rightarrow> u64 \<Rightarrow> nat \<Rightarrow> MemoryDescriptor" where
  "desc_at m mmap_addr_virt desc_size i = read_descriptor m (mmap_addr_virt + of_nat i * desc_size)"

definition pmm_layout :: "u64 \<Rightarrow> u64 \<Rightarrow> u64 \<Rightarrow> u64 \<Rightarrow> u64 \<Rightarrow> memory \<Rightarrow> bool" where
  "pmm_layout mmap_addr_phys mmap_len desc_size hhdm_offset max_phys_addr m \<longleftrightarrow>
     4096 \<le> unat max_phys_addr \<and> unat hhdm_offset + unat max_phys_addr \<le> 2 ^ 64 \<and>
     (\<forall>j < unat mmap_len. let d = desc_at m (mmap_addr_phys + hhdm_offset) desc_size j in
        desc_type d = 7 \<longrightarrow>
          4096 dvd unat (phys_start d) \<and>
          unat (phys_start d) + unat (page_count d) * 4096 \<le> unat max_phys_addr \<and>
          (\<forall>i < unat mmap_len. apart (mmap_addr_phys + hhdm_offset + of_nat i * desc_size) 40
             (phys_start d + hhdm_offset) (unat (page_count d) * 4096)))"

text \<open>The fill beyond the bitmap leaves the memory map alone. The code does not check it.\<close>

definition pmm_fill_ok :: "u64 \<Rightarrow> u64 \<Rightarrow> u64 \<Rightarrow> u64 \<Rightarrow> u64 \<Rightarrow> memory \<Rightarrow> bool" where
  "pmm_fill_ok mmap_addr_phys mmap_len desc_size hhdm_offset max_phys_addr m \<longleftrightarrow>
     (let n = div_ceil (unat max_phys_addr div 4096) 64;
          b = find_bitmap_region m (mmap_addr_phys + hhdm_offset) desc_size (8 * n) [0..<unat mmap_len]
      in b \<noteq> - 1 \<longrightarrow> (\<forall>i < unat mmap_len. apart (mmap_addr_phys + hhdm_offset + of_nat i * desc_size) 40 (b + hhdm_offset) (64 * n)))"

text \<open>The frames of conventional memory, by the descriptors.\<close>

definition region_frames :: "MemoryDescriptor \<Rightarrow> nat set" where
  "region_frames d = {unat (phys_start d div PAGE_SIZE) ..< unat (phys_start d div PAGE_SIZE) + unat (page_count d)}"

definition conventional_frames :: "memory \<Rightarrow> u64 \<Rightarrow> u64 \<Rightarrow> nat \<Rightarrow> nat set" where
  "conventional_frames m mmap_addr_virt desc_size n =
     (\<Union>i \<in> {i. i < n \<and> desc_type (desc_at m mmap_addr_virt desc_size i) = 7}.
        region_frames (desc_at m mmap_addr_virt desc_size i))"

text \<open>The fill stays in conventional memory, so that it overwrites nothing that is in use.\<close>

definition pmm_fill_conventional :: "u64 \<Rightarrow> u64 \<Rightarrow> u64 \<Rightarrow> u64 \<Rightarrow> u64 \<Rightarrow> memory \<Rightarrow> bool" where
  "pmm_fill_conventional mmap_addr_phys mmap_len desc_size hhdm_offset max_phys_addr m \<longleftrightarrow>
     (let n = div_ceil (unat max_phys_addr div 4096) 64;
          b = find_bitmap_region m (mmap_addr_phys + hhdm_offset) desc_size (8 * n) [0..<unat mmap_len]
      in b \<noteq> - 1 \<longrightarrow> (\<forall>i < 64 * n. (unat b + i) div 4096 \<in>
           conventional_frames m (mmap_addr_phys + hhdm_offset) desc_size (unat mmap_len)))"

definition bitmap_frames :: "BitmapPmm \<Rightarrow> nat set" where
  "bitmap_frames p = {unat (bitmap_start_addr p div PAGE_SIZE) ..<
     unat (bitmap_start_addr p div PAGE_SIZE) + div_ceil (bitmap_size_u64 p * 8) 4096}"

lemma unat_PAGE_SIZE [simp]: "unat PAGE_SIZE = 4096"
  by (simp add: PAGE_SIZE_def)

lemma unat_div_PAGE_SIZE [simp]: "unat (a div PAGE_SIZE) = unat a div 4096"
  by (simp add: unat_div)

lemma load_bytes_off:
  assumes "\<forall>i < n. m' (a + of_nat i) = m (a + of_nat i)" "k + l \<le> n"
  shows "load_bytes m' (a + of_nat k) l = load_bytes m (a + of_nat k) l"
proof (rule load_bytes_cong)
  fix i assume "i < l"
  then have "m' (a + of_nat (k + i)) = m (a + of_nat (k + i))"
    using assms by (meson add_strict_left_mono less_le_trans)
  then show "m' (a + of_nat k + of_nat i) = m (a + of_nat k + of_nat i)" by (simp add: add.assoc)
qed

lemma read_descriptor_cong:
  assumes "\<forall>i < 40. m' (a + of_nat i) = m (a + of_nat i)"
  shows "read_descriptor m' a = read_descriptor m a"
  using load_bytes_off [OF assms, of 0 4] load_bytes_off [OF assms, of 4 4]
    load_bytes_off [OF assms, of 8 8] load_bytes_off [OF assms, of 16 8]
    load_bytes_off [OF assms, of 24 8] load_bytes_off [OF assms, of 32 8]
  by (simp add: read_descriptor_def load32_def load64_def)

lemma read_descriptor_only_filled:
  assumes "only_filled p m m'" "apart a 40 (bitmap p) (64 * bitmap_size_u64 p)"
  shows "read_descriptor m' a = read_descriptor m a"
proof (rule read_descriptor_cong, intro allI impI)
  fix i :: nat assume "i < 40"
  moreover have "apart (bitmap p) (64 * bitmap_size_u64 p) a 40"
    using assms(2) by (simp add: apart_sym)
  ultimately have "\<not> in_range (bitmap p) (64 * bitmap_size_u64 p) (a + of_nat i)"
    by (intro apart_not_in_range)
  then show "m' (a + of_nat i) = m (a + of_nat i)"
    using assms(1) by (simp add: only_filled_def)
qed

lemma find_bitmap_region_Some:
  assumes "find_bitmap_region m v s n is \<noteq> - 1"
  shows "\<exists>i \<in> set is. let d = desc_at m v s i in desc_type d = 7 \<and> phys_start d \<noteq> 0 \<and>
           of_nat n \<le> page_count d * PAGE_SIZE \<and> find_bitmap_region m v s n is = phys_start d"
  using assms by (induction "is") (auto simp: Let_def desc_at_def split: if_splits)

lemma find_bitmap_region_None_iff:
  assumes "\<forall>i \<in> set is. desc_type (desc_at m v s i) = 7 \<longrightarrow> phys_start (desc_at m v s i) \<noteq> - 1"
  shows "find_bitmap_region m v s n is = - 1 \<longleftrightarrow>
    \<not> (\<exists>i \<in> set is. desc_type (desc_at m v s i) = 7 \<and> phys_start (desc_at m v s i) \<noteq> 0 \<and>
         of_nat n \<le> page_count (desc_at m v s i) * PAGE_SIZE)"
  using assms by (induction "is") (auto simp: Let_def desc_at_def)

lemma is_used_all_ones:
  assumes "pmm_wf p" "g < 64 * bitmap_size_u64 p"
  shows "is_used p (write_bytes m (bitmap p) 0xFF (64 * bitmap_size_u64 p)) g"
proof -
  let ?i = "g div 64"
  have i: "?i < bitmap_size_u64 p" using assms(2) by (rule div64_less)
  have "write_bytes m (bitmap p) 0xFF (64 * bitmap_size_u64 p) (word_ptr p ?i + of_nat j) = 0xFF"
    if "j < 8" for j
  proof (rule write_bytes_in)
    have "in_range (word_ptr p ?i) 8 (word_ptr p ?i + of_nat j)" using that by (simp add: in_range_self)
    then have "in_range (bitmap p) (8 * bitmap_size_u64 p) (word_ptr p ?i + of_nat j)"
      using assms(1) i by (intro word_ptr_in_bitmap)
    then show "in_range (bitmap p) (64 * bitmap_size_u64 p) (word_ptr p ?i + of_nat j)" by (simp add: in_range_def)
  qed
  then show ?thesis by (intro full_word_used load64_all_ones) auto
qed

lemma free_descriptor_read:
  "read_descriptor m (v + of_nat i * s) = d \<Longrightarrow> free_descriptor p v s i m =
     (if desc_type d = 7 then mark_region_free p (phys_start d) (unat (page_count d)) m else m)"
  by (simp add: free_descriptor_def)

text \<open>The second loop, over descriptors that the fill does not overlap.\<close>

lemma free_descriptors_effect:
  assumes wf: "pmm_wf p"
    and apart: "\<forall>i < n. apart (v + of_nat i * s) 40 (bitmap p) (64 * bitmap_size_u64 p)"
    and fit: "\<forall>i < n. desc_type (desc_at m v s i) = 7 \<longrightarrow>
      unat (phys_start (desc_at m v s i)) div 4096 + unat (page_count (desc_at m v s i)) < 2 ^ 64"
    and start: "only_filled p m m1"
  shows "(\<forall>g < 64 * bitmap_size_u64 p. is_used p (fold (free_descriptor p v s) [0..<n] m1) g \<longleftrightarrow>
            \<not> (g < total_frames p \<and> g \<in> conventional_frames m v s n) \<and> is_used p m1 g)
       \<and> only_filled p m (fold (free_descriptor p v s) [0..<n] m1)"
  using apart fit
proof (induction n)
  case 0
  then show ?case using start by (simp add: conventional_frames_def)
next
  case (Suc n)
  let ?m = "fold (free_descriptor p v s) [0..<n] m1"
  let ?d = "desc_at m v s n"
  have IH: "\<forall>g < 64 * bitmap_size_u64 p. is_used p ?m g \<longleftrightarrow>
       \<not> (g < total_frames p \<and> g \<in> conventional_frames m v s n) \<and> is_used p m1 g"
    and only: "only_filled p m ?m" using Suc by auto
  have d: "read_descriptor ?m (v + of_nat n * s) = ?d"
    unfolding desc_at_def using only Suc.prems(1) by (intro read_descriptor_only_filled) auto
  have conv: "g \<in> conventional_frames m v s (Suc n) \<longleftrightarrow>
      g \<in> conventional_frames m v s n \<or> (desc_type ?d = 7 \<and> g \<in> region_frames ?d)" for g
    by (auto simp: conventional_frames_def less_Suc_eq)
  show ?case
  proof (cases "desc_type ?d = 7")
    case True
    then have "unat (phys_start ?d div PAGE_SIZE) + unat (page_count ?d) < 2 ^ 64"
      using Suc.prems(2) by simp
    note eff = mark_region_free_effect [OF wf this, of ?m]
    show ?thesis
      using eff IH only conv True free_descriptor_read [OF d] by (auto simp: region_frames_def intro: only_filled_trans)
  next
    case False
    then show ?thesis using IH only conv free_descriptor_read [OF d] by simp
  qed
qed

text \<open>The region that the first loop picks holds the bitmap and ends below \<open>max_phys_addr\<close>.\<close>

lemma find_bitmap_region_fits:
  assumes layout: "pmm_layout a len s h mx m"
    and b: "b = find_bitmap_region m (a + h) s n [0..<unat len]" "b \<noteq> - 1"
    and n: "0 < n" "n < 2 ^ 64"
  shows "\<exists>i < unat len. let d = desc_at m (a + h) s i in desc_type d = 7 \<and> phys_start d = b \<and>
     b \<noteq> 0 \<and> n \<le> unat (page_count d) * 4096 \<and> unat b + unat (page_count d) * 4096 \<le> unat mx"
proof -
  obtain i where i: "i < unat len" "desc_type (desc_at m (a + h) s i) = 7"
      "phys_start (desc_at m (a + h) s i) = b" "b \<noteq> 0"
      "of_nat n \<le> page_count (desc_at m (a + h) s i) * PAGE_SIZE"
    using find_bitmap_region_Some [of m "a + h" s n "[0..<unat len]"] b by (auto simp: Let_def)
  let ?pc = "page_count (desc_at m (a + h) s i)"
  have le: "unat b + unat ?pc * 4096 \<le> unat mx"
    using layout i(1,2) unfolding i(3)[symmetric] by (simp add: pmm_layout_def Let_def)
  then have "unat (?pc * PAGE_SIZE) = unat ?pc * 4096"
    using unat_lt_64 [of mx] by (subst unat_mul_small) auto
  then have "n \<le> unat ?pc * 4096"
    using i(5) n by (simp add: word_le_nat_alt unat_of_nat_small)
  then show ?thesis using i le by (intro exI [of _ i]) (simp add: Let_def)
qed

lemma region_end_frames:
  assumes "unat b + pages * 4096 \<le> mx"
  shows "unat b div 4096 + pages \<le> mx div 4096"
proof -
  have "(unat b + pages * 4096) div 4096 \<le> mx div 4096" using assms by (rule div_le_mono)
  then show ?thesis by simp
qed

lemma conventional_frames_bound:
  assumes "pmm_layout a len s h mx m" "g \<in> conventional_frames m (a + h) s (unat len)"
  shows "g < unat mx div 4096"
proof -
  obtain i where i: "i < unat len" "desc_type (desc_at m (a + h) s i) = 7"
      "g \<in> region_frames (desc_at m (a + h) s i)"
    using assms(2) by (auto simp: conventional_frames_def)
  then have "unat (phys_start (desc_at m (a + h) s i)) + unat (page_count (desc_at m (a + h) s i)) * 4096 \<le> unat mx"
    using assms(1) by (simp add: pmm_layout_def Let_def)
  then show ?thesis
    using region_end_frames i(3) by (fastforce simp: region_frames_def)
qed

text \<open>A byte of conventional memory is apart from every descriptor of the memory map.\<close>

lemma conventional_byte_not_map:
  assumes layout: "pmm_layout a len s h mx m" and k: "k div 4096 \<in> conventional_frames m (a + h) s (unat len)" and j: "j < unat len"
  shows "k < unat mx" "unat (a + h + of_nat j * s) + 40 \<le> 2 ^ 64"
    "unat (a + h + of_nat j * s) + 40 \<le> k + unat h \<or> k + unat h < unat (a + h + of_nat j * s)"
proof -
  obtain i where i: "i < unat len" "desc_type (desc_at m (a + h) s i) = 7" "k div 4096 \<in> region_frames (desc_at m (a + h) s i)"
    using k by (auto simp: conventional_frames_def)
  let ?P = "phys_start (desc_at m (a + h) s i)" and ?c = "unat (page_count (desc_at m (a + h) s i))"
  have l: "4096 dvd unat ?P" "unat ?P + ?c * 4096 \<le> unat mx" "apart (a + h + of_nat j * s) 40 (?P + h) (?c * 4096)" "unat h + unat mx \<le> 2 ^ 64"
    using layout i(1,2) j by (auto simp: pmm_layout_def Let_def)
  have "unat ?P div 4096 \<le> k div 4096" "k div 4096 < unat ?P div 4096 + ?c" using i(3) by (simp_all add: region_frames_def)
  then have b: "unat ?P \<le> k" "k < unat ?P + ?c * 4096" using l(1) by (auto elim!: dvdE simp: div_less_iff_less_mult)
  have "unat (?P + h) = unat ?P + unat h" using b l(2,4) by (intro unat_add_small) linarith
  then show "k < unat mx" "unat (a + h + of_nat j * s) + 40 \<le> 2 ^ 64"
    "unat (a + h + of_nat j * s) + 40 \<le> k + unat h \<or> k + unat h < unat (a + h + of_nat j * s)"
    using b l(2,3) unfolding apart_def by linarith+
qed

lemma fill_conventional_ok:
  assumes layout: "pmm_layout a len s h mx m" and fill: "pmm_fill_conventional a len s h mx m"
  shows "pmm_fill_ok a len s h mx m"
proof -
  define n where "n = div_ceil (unat mx div 4096) 64"
  define b where "b = find_bitmap_region m (a + h) s (8 * n) [0..<unat len]"
  have "apart (a + h + of_nat j * s) 40 (b + h) (64 * n)" if nb: "b \<noteq> - 1" and j: "j < unat len" for j
  proof -
    let ?d = "unat (a + h + of_nat j * s)"
    have "0 < unat mx div 4096" using layout by (simp add: pmm_layout_def div_greater_zero_iff)
    then have pos: "0 < n" using div_ceil_less [of 64 0 "unat mx div 4096"] by (simp add: n_def)
    have "(unat b + i) div 4096 \<in> conventional_frames m (a + h) s (unat len)" if "i < 64 * n" for i
      using fill nb that by (simp add: pmm_fill_conventional_def Let_def n_def [symmetric] b_def [symmetric])
    note byte = conventional_byte_not_map [OF layout this j]
    have hm: "unat h + unat mx \<le> 2 ^ 64" using layout by (simp add: pmm_layout_def)
    have last: "unat b + 64 * n \<le> unat mx" using byte(1) [of "64 * n - 1"] pos by linarith
    then have "unat (b + h) = unat b + unat h" using hm pos by (intro unat_add_small) linarith
    moreover have "?d + 40 \<le> unat b + unat h \<or> unat b + unat h + 64 * n \<le> ?d"
      using byte(3) [of 0] byte(3) [of "?d - (unat b + unat h)"] pos by linarith
    ultimately show ?thesis using byte(2) [of 0] pos last hm unfolding apart_def by linarith
  qed
  then show ?thesis by (simp add: pmm_fill_ok_def Let_def n_def [symmetric] b_def [symmetric])
qed

text \<open>What the successful run computes, with its intermediate memories.\<close>

lemma init_internal_shape:
  assumes "init_internal self a len s h mx m = Inr (p, m')"
  shows "total_frames p = unat mx div 4096" "bitmap_size_u64 p = div_ceil (unat mx div 4096) 64"
    "bitmap p = bitmap_start_addr p + h" "bitmap_start_addr p \<noteq> - 1"
    "bitmap_start_addr p = find_bitmap_region m (a + h) s (8 * bitmap_size_u64 p) [0..<unat len]"
    "m' = mark_used p 0 (mark_region_used p (bitmap_start_addr p) (div_ceil (8 * bitmap_size_u64 p) 4096)
       (fold (free_descriptor p (a + h) s) [0..<unat len]
          (write_bytes m (bitmap p) 0xFF (64 * bitmap_size_u64 p))))"
  using assms by (auto simp: init_internal_def Let_def mult.commute split: if_splits)

lemma init_internal_region:
  assumes layout: "pmm_layout a len s h mx m"
    and init: "init_internal self a len s h mx m = Inr (p, m')"
  shows "pmm_wf p" "0 < bitmap_size_u64 p" "unat (bitmap p) = unat (bitmap_start_addr p) + unat h"
    "\<forall>j < unat len. apart (a + h + of_nat j * s) 40 (bitmap p) (8 * bitmap_size_u64 p)"
    "bitmap_frames p \<subseteq> conventional_frames m (a + h) s (unat len)"
    "4096 dvd unat (bitmap_start_addr p)"
    "unat (bitmap_start_addr p) div 4096 + div_ceil (8 * bitmap_size_u64 p) 4096 \<le> total_frames p"
proof -
  let ?N = "bitmap_size_u64 p" and ?b = "bitmap_start_addr p"
  note p = init_internal_shape [OF init]
  have total: "0 < unat mx div 4096" using layout by (simp add: pmm_layout_def div_greater_zero_iff)
  show Npos: "0 < ?N" using total div_ceil_less [of 64 0 "unat mx div 4096"] by (simp add: p(2))
  have "unat mx div 4096 < 2 ^ 52" using unat_lt_64 [of mx] by (simp add: div_less_iff_less_mult)
  then have Nle: "8 * ?N < 2 ^ 64"
    using div_ceil_le_iff [of 64 "unat mx div 4096" "2 ^ 46"] by (simp add: p(2))
  obtain i where i: "i < unat len" and d: "desc_type (desc_at m (a + h) s i) = 7"
      "phys_start (desc_at m (a + h) s i) = ?b"
    and fits: "8 * ?N \<le> unat (page_count (desc_at m (a + h) s i)) * 4096"
      "unat ?b + unat (page_count (desc_at m (a + h) s i)) * 4096 \<le> unat mx"
    using find_bitmap_region_fits [OF layout p(5,4)] Npos Nle by (auto simp: Let_def)
  have hm: "unat h + unat mx \<le> 2 ^ 64" using layout by (simp add: pmm_layout_def)
  show bm: "unat (bitmap p) = unat ?b + unat h"
    using fits hm Npos by (subst p(3)) (intro unat_add_small, simp)
  show "pmm_wf p"
    using bm fits hm unat_lt_64 [of mx] by (simp add: pmm_wf_def p(1,2))
  show "\<forall>j < unat len. apart (a + h + of_nat j * s) 40 (bitmap p) (8 * ?N)"
  proof (intro allI impI)
    fix j assume "j < unat len"
    then have "apart (a + h + of_nat j * s) 40 (?b + h) (unat (page_count (desc_at m (a + h) s i)) * 4096)"
      using layout i d by (auto simp: pmm_layout_def Let_def)
    then show "apart (a + h + of_nat j * s) 40 (bitmap p) (8 * ?N)"
      by (rule apart_mono) (use fits in \<open>simp_all add: p(3)\<close>)
  qed
  have pages: "div_ceil (8 * ?N) 4096 \<le> unat (page_count (desc_at m (a + h) s i))"
    using fits by (simp add: div_ceil_le_iff)
  then show "bitmap_frames p \<subseteq> conventional_frames m (a + h) s (unat len)"
    using i d by (fastforce simp: bitmap_frames_def conventional_frames_def region_frames_def mult.commute)
  show "4096 dvd unat ?b"
    using layout i d by (auto simp: pmm_layout_def Let_def)
  show "unat ?b div 4096 + div_ceil (8 * ?N) 4096 \<le> total_frames p"
    using region_end_frames [OF fits(2)] pages by (simp add: p(1))
qed

lemma init_internal_effect:
  assumes layout: "pmm_layout a len s h mx m"
    and fill: "pmm_fill_ok a len s h mx m"
    and init: "init_internal self a len s h mx m = Inr (p, m')"
  shows "pmm_inv p m'"
    and "free_frames p m' = conventional_frames m (a + h) s (unat len) - bitmap_frames p - {0}"
    and "only_filled p m m'"
proof -
  let ?N = "bitmap_size_u64 p" and ?b = "bitmap_start_addr p"
  define m1 where "m1 = write_bytes m (bitmap p) 0xFF (64 * ?N)"
  define m2 where "m2 = fold (free_descriptor p (a + h) s) [0..<unat len] m1"
  define m3 where "m3 = mark_region_used p ?b (div_ceil (8 * ?N) 4096) m2"
  note p = init_internal_shape [OF init] and reg = init_internal_region [OF layout init]
  note wf = reg(1)
  have m': "m' = mark_used p 0 m3" by (simp add: p(6) m1_def m2_def m3_def)
  have fit: "\<forall>j < unat len. desc_type (desc_at m (a + h) s j) = 7 \<longrightarrow>
      unat (phys_start (desc_at m (a + h) s j)) div 4096 + unat (page_count (desc_at m (a + h) s j)) < 2 ^ 64"
    using layout region_end_frames unat_lt_64 [of mx]
    by (fastforce simp: pmm_layout_def Let_def dest!: spec)
  have only1: "only_filled p m m1" by (simp add: only_filled_def m1_def write_bytes_out)
  have "\<forall>j < unat len. apart (a + h + of_nat j * s) 40 (bitmap p) (64 * ?N)"
    using fill p(4) unfolding pmm_fill_ok_def Let_def p(2) [symmetric] p(3) by (simp only: p(5) [symmetric]) blast
  note eff2 = free_descriptors_effect [OF wf this fit only1, folded m2_def]
  have used1: "g < 64 * ?N \<Longrightarrow> is_used p m1 g" for g
    using is_used_all_ones [OF wf] by (simp add: m1_def)
  have "unat (?b div PAGE_SIZE) + div_ceil (8 * ?N) 4096 \<le> 64 * ?N"
    using reg(7) total_le_bits [OF wf] by simp
  note eff3 = mark_region_used_effect [OF wf this, of m2, folded m3_def]
  have zero: "0 < 64 * ?N" using reg(2) by simp
  have used: "is_used p m' g \<longleftrightarrow> g = 0 \<or> g \<in> bitmap_frames p \<or>
       \<not> (g < total_frames p \<and> g \<in> conventional_frames m (a + h) s (unat len))" if "g < 64 * ?N" for g
    using that eff2 eff3 used1 [OF that]
    by (auto simp: m' is_used_mark_used [OF wf zero] bitmap_frames_def mult.commute)
  show "pmm_inv p m'"
    using wf used by (auto simp: pmm_inv_def)
  show "free_frames p m' = conventional_frames m (a + h) s (unat len) - bitmap_frames p - {0}"
  proof (rule set_eqI)
    fix g
    show "g \<in> free_frames p m' \<longleftrightarrow> g \<in> conventional_frames m (a + h) s (unat len) - bitmap_frames p - {0}"
      using used [of g] total_le_bits [OF wf] conventional_frames_bound [OF layout, of g] p(1)
      by (cases "g < total_frames p") (auto simp: free_frames_def)
  qed
  show "only_filled p m m'"
    using eff2 eff3 only_bitmap_mark(1) [OF wf zero, of m3] unfolding m' by (blast intro: only_filled_trans)
qed

text \<open>A fill that stays in conventional memory leaves all other memory alone.\<close>

lemma filled_conventional:
  assumes layout: "pmm_layout a len s h mx m" and fill: "pmm_fill_conventional a len s h mx m"
    and init: "init_internal self a len s h mx m = Inr (p, m')"
    and y: "in_range (bitmap p) (64 * bitmap_size_u64 p) (y + h)"
  shows "unat y div 4096 \<in> conventional_frames m (a + h) s (unat len)"
proof -
  note p = init_internal_shape [OF init]
  let ?b = "bitmap_start_addr p"
  define i where "i = unat (y - ?b)"
  have i: "i < 64 * bitmap_size_u64 p" "y = ?b + of_nat i" using y by (simp_all add: i_def in_range_def p(3))
  have conv: "(unat ?b + j) div 4096 \<in> conventional_frames m (a + h) s (unat len)" if "j \<le> i" for j
    using fill p(4) i(1) that unfolding pmm_fill_conventional_def Let_def p(2) [symmetric] by (simp only: p(5) [symmetric]) simp
  have "(unat ?b + i) div 4096 < unat mx div 4096" using conventional_frames_bound [OF layout conv] by blast
  then have "unat ?b + i < 2 ^ 64" using unat_lt_64 [of mx] div_le_mono [of "unat mx" "unat ?b + i" 4096] by linarith
  then have "unat y = unat ?b + i" unfolding i(2) by (intro unat_add_of_nat_small) simp
  then show ?thesis using conv [of i] by simp
qed

section \<open>The fill beyond the bitmap\<close>

lemma in_overrun:
  assumes "8 * n \<le> i" "i < 64 * n" "64 * n \<le> 2 ^ 64"
  shows "\<not> in_range b (8 * n) (b + of_nat i)" "in_range b (64 * n) (b + of_nat i)"
  using assms by (simp_all add: in_range_def unat_of_nat_small)

lemma bitmap_size_bound: "pmm_wf p \<Longrightarrow> 64 * bitmap_size_u64 p \<le> 2 ^ 64"
  using div_ceil_le_iff [of 64 "total_frames p" "2 ^ 46"] by (simp add: pmm_wf_def)

lemma load32_all_ones:
  assumes "\<And>i. i < 4 \<Longrightarrow> m (a + of_nat i) = 0xFF"
  shows "load32 m a = 0xFFFFFFFF"
proof -
  have "load_bytes m a 4 = map (\<lambda>_. 0xFF) [0..<4]" unfolding load_bytes_def using assms by (intro map_cong) auto
  then have "load_bytes m a 4 = [0xFF, 0xFF, 0xFF, 0xFF]" by (simp add: upt_rec)
  then show ?thesis by (simp add: load32_def)
qed

text \<open>No descriptor is of conventional memory when the fill has overwritten the types.\<close>

lemma free_descriptors_lost:
  assumes wf: "pmm_wf p"
    and lost: "\<forall>j \<in> set is. \<forall>i < 4. \<not> in_range (bitmap p) (8 * bitmap_size_u64 p) (v + of_nat j * s + of_nat i) \<and>
      m (v + of_nat j * s + of_nat i) = 0xFF"
  shows "fold (free_descriptor p v s) is m = m"
  using lost
proof (induction "is")
  case (Cons j "is")
  have "load32 m (v + of_nat j * s) = 0xFFFFFFFF" using Cons.prems by (intro load32_all_ones) simp
  then have "free_descriptor p v s j m = m" by (simp add: free_descriptor_def read_descriptor_def)
  then show ?case using Cons by simp
qed simp

lemma init_internal_overrun:
  assumes layout: "pmm_layout a len s h mx m" and init: "init_internal self a len s h mx m = Inr (p, m')"
  shows "\<forall>i. 8 * bitmap_size_u64 p \<le> i \<and> i < 64 * bitmap_size_u64 p \<longrightarrow> m' (bitmap p + of_nat i) = 0xFF"
    and "\<forall>j < unat len. \<forall>i < 4. in_range (bitmap p) (64 * bitmap_size_u64 p) (a + h + of_nat j * s + of_nat i) \<Longrightarrow>
      free_frames p m' = {}"
proof -
  let ?N = "bitmap_size_u64 p" and ?b = "bitmap_start_addr p"
  define m1 where "m1 = write_bytes m (bitmap p) 0xFF (64 * ?N)"
  define m2 where "m2 = fold (free_descriptor p (a + h) s) [0..<unat len] m1"
  define m3 where "m3 = mark_region_used p ?b (div_ceil (8 * ?N) 4096) m2"
  note p = init_internal_shape [OF init] and reg = init_internal_region [OF layout init]
  note wf = reg(1)
  have m': "m' = mark_used p 0 m3" by (simp add: p(6) m1_def m2_def m3_def)
  have "unat (?b div PAGE_SIZE) + div_ceil (8 * ?N) 4096 \<le> 64 * ?N"
    using reg(7) total_le_bits [OF wf] by simp
  note eff3 = mark_region_used_effect [OF wf this, of m2, folded m3_def]
  have zero: "0 < 64 * ?N" using reg(2) by simp
  have "only_bitmap p m1 m2" unfolding m2_def by (rule only_bitmap_free_descriptors [OF wf])
  then have only: "only_bitmap p m1 m'"
    using eff3 only_bitmap_mark(1) [OF wf zero, of m3] unfolding m' by (blast intro: only_bitmap_trans)
  show "\<forall>i. 8 * ?N \<le> i \<and> i < 64 * ?N \<longrightarrow> m' (bitmap p + of_nat i) = 0xFF"
    using only in_overrun [OF _ _ bitmap_size_bound [OF wf], of _ "bitmap p"]
    by (simp add: only_bitmap_def m1_def write_bytes_in)
  assume lost: "\<forall>j < unat len. \<forall>i < 4. in_range (bitmap p) (64 * ?N) (a + h + of_nat j * s + of_nat i)"
  have "\<not> in_range (bitmap p) (8 * ?N) (a + h + of_nat j * s + of_nat i)" if "j < unat len" "i < 4" for i j
    using reg(4) that apart_not_in_range [of "bitmap p" "8 * ?N" "a + h + of_nat j * s" 40 i] by (simp add: apart_sym)
  then have "m2 = m1"
    unfolding m2_def using lost by (intro free_descriptors_lost [OF wf]) (simp add: m1_def write_bytes_in)
  then have "is_used p m' g" if "g < 64 * ?N" for g
    using that eff3 is_used_all_ones [OF wf that, of m] by (simp add: m' is_used_mark_used [OF wf zero] m1_def)
  then show "free_frames p m' = {}" using total_le_bits [OF wf] by (auto simp: free_frames_def)
qed

section \<open>The allocator behind the interface\<close>

text \<open>\<open>pmm::allocate_frame\<close>: the global manager behind its lock, here the state of the call.\<close>

definition allocate_frame :: "BitmapPmm \<times> memory \<Rightarrow> u64 option \<times> (BitmapPmm \<times> memory)" where
  "allocate_frame s =
     (let (r, m') = allocate_frame_internal (fst s) (snd s) in (r, (fst s, m')))"

text \<open>\<open>KernelFrameAllocator::allocate_frame\<close>: the address wrapped into a \<open>PhysFrame\<close> by the
  \<open>x86_64\<close> crate.\<close>

definition kernel_allocate_frame ::
  "(u64 \<Rightarrow> 'frame) \<Rightarrow> BitmapPmm \<times> memory \<Rightarrow> 'frame option \<times> (BitmapPmm \<times> memory)" where
  "kernel_allocate_frame containing_address s =
     (let (r, s') = allocate_frame s in (map_option containing_address r, s'))"

definition frame_addr :: "nat \<Rightarrow> u64" where
  "frame_addr f = of_nat f * PAGE_SIZE"

definition pmm_avail :: "BitmapPmm \<times> memory \<Rightarrow> u64 set" where
  "pmm_avail s = frame_addr ` free_frames (fst s) (snd s)"

definition pmm_state_inv :: "BitmapPmm \<times> memory \<Rightarrow> bool" where
  "pmm_state_inv s \<longleftrightarrow> pmm_inv (fst s) (snd s)"

lemma unat_frame_addr: "f < 2 ^ 52 \<Longrightarrow> unat (frame_addr f) = f * 4096"
  unfolding frame_addr_def by (subst unat_mul_small) (auto simp: unat_of_nat_small)

lemma inj_frame_addr: "inj_on frame_addr {..<2 ^ 52}"
  by (rule inj_onI) (metis lessThan_iff mult_right_cancel unat_frame_addr zero_neq_numeral)

lemma free_frames_small: "pmm_inv p m \<Longrightarrow> free_frames p m \<subseteq> {..<2 ^ 52}"
  by (auto simp: free_frames_def pmm_inv_def pmm_wf_def)

lemma allocate_frame_effect:
  assumes "pmm_inv p m"
  shows "allocate_frame (p, m) =
    (if free_frames p m = {} then (None, (p, m))
     else (Some (frame_addr (Min (free_frames p m))), (p, mark_used p (Min (free_frames p m)) m)))"
  using allocate_frame_internal_effect [OF assms] by (simp add: allocate_frame_def frame_addr_def)

interpretation pmm: frame_allocator allocate_frame pmm_avail pmm_state_inv
proof
  fix s s' :: "BitmapPmm \<times> memory" and f :: u64
  obtain p m where s: "s = (p, m)" by (cases s)
  assume "pmm_state_inv s"
  then have inv: "pmm_inv p m" by (simp add: pmm_state_inv_def s)
  note eff = allocate_frame_effect [OF inv] and small = free_frames_small [OF inv]
  show "finite (pmm_avail s)" by (simp add: pmm_avail_def)
  show "f \<in> pmm_avail s \<Longrightarrow> 4096 dvd unat f"
    using small by (auto simp: pmm_avail_def s unat_frame_addr subset_iff)
  show "allocate_frame s = (None, s') \<Longrightarrow> pmm_avail s = {} \<and> s' = s"
    using eff by (auto simp: pmm_avail_def s split: if_splits)
  assume "allocate_frame s = (Some f, s')"
  then have ne: "free_frames p m \<noteq> {}" and f: "f = frame_addr (Min (free_frames p m))"
    and s': "s' = (p, mark_used p (Min (free_frames p m)) m)"
    using eff by (auto simp: s split: if_splits)
  let ?f = "Min (free_frames p m)"
  have mem: "?f \<in> free_frames p m" using ne by simp
  then have lt: "?f < total_frames p" by (simp add: free_frames_def)
  have img: "frame_addr ` (free_frames p m - {?f}) = frame_addr ` free_frames p m - {frame_addr ?f}"
    using inj_on_image_set_diff [OF inj_frame_addr, of "free_frames p m" "{?f}"] small mem by auto
  have "pmm_avail s' = pmm_avail s - {f}"
    using free_frames_mark_used [OF _ lt] inv img by (simp add: pmm_avail_def s s' f pmm_inv_def)
  then show "f \<in> pmm_avail s \<and> pmm_avail s' = pmm_avail s - {f} \<and> pmm_state_inv s'"
    using mem pmm_inv_mark_used [OF inv lt] by (auto simp: pmm_avail_def s s' f pmm_state_inv_def)
qed

section \<open>Frames and the bitmap in one memory\<close>

text \<open>A page-aligned frame outside the frames of the bitmap shares no byte with the bitmap, seen
  through the higher-half window.\<close>

lemma frame_apart_bitmap:
  assumes wf: "pmm_wf p" and al: "4096 dvd unat (bitmap_start_addr p)"
    and bm: "unat (bitmap p) = unat (bitmap_start_addr p) + unat h"
    and f: "f < total_frames p" "f \<notin> bitmap_frames p"
    and win: "unat h + total_frames p * 4096 \<le> 2 ^ 64"
  shows "apart (frame_addr f + h) 4096 (bitmap p) (8 * bitmap_size_u64 p)"
proof -
  let ?b = "unat (bitmap_start_addr p)" and ?n = "div_ceil (bitmap_size_u64 p * 8) 4096"
  have "f * 4096 + unat h + 4096 \<le> 2 ^ 64"
    using f(1) win mult_le_mono1 [of "Suc f" "total_frames p" 4096] by simp
  moreover have "unat (frame_addr f) = f * 4096"
    using f(1) wf by (intro unat_frame_addr) (simp add: pmm_wf_def)
  ultimately have fu: "unat (frame_addr f + h) = f * 4096 + unat h" "f * 4096 + unat h + 4096 \<le> 2 ^ 64"
    by (auto simp: unat_add_small)
  obtain k where k: "?b = 4096 * k" using al by (auto simp: dvd_def)
  have "f < k \<or> k + ?n \<le> f" using f(2) k by (auto simp: bitmap_frames_def)
  moreover have "8 * bitmap_size_u64 p \<le> ?n * 4096"
    using div_ceil_upper [of 4096 "bitmap_size_u64 p * 8"] by simp
  ultimately have "f * 4096 + 4096 \<le> ?b \<or> ?b + 8 * bitmap_size_u64 p \<le> f * 4096"
    using k by (auto simp: Suc_le_eq [symmetric] dest: mult_le_mono1 [where k = 4096])
  then show ?thesis using fu wf bm by (auto simp: apart_def pmm_wf_def)
qed

lemma is_used_store_apart:
  assumes "pmm_wf p" "g < 64 * bitmap_size_u64 p" "apart a n (bitmap p) (8 * bitmap_size_u64 p)"
    and "length bs \<le> n"
  shows "is_used p (store_bytes m a bs) g = is_used p m g"
proof -
  have "apart a (length bs) (word_ptr p (g div 64)) 8"
    using assms div64_less [OF assms(2)] by (auto simp: apart_def unat_word_ptr)
  then show ?thesis by (simp add: is_used_def load64_def load_store_apart)
qed

lemma free_frames_store_apart:
  assumes "pmm_wf p" "apart a n (bitmap p) (8 * bitmap_size_u64 p)" "length bs \<le> n"
  shows "free_frames p (store_bytes m a bs) = free_frames p m"
  using is_used_store_apart [OF assms(1) _ assms(2,3)] total_le_bits [OF assms(1)]
  by (auto simp: free_frames_def)

lemma allocate_n_keeps_manager:
  "allocate_n allocate_frame n s = (fs, s') \<Longrightarrow> fst s' = fst s"
  by (induction n arbitrary: s fs) (auto simp: allocate_frame_def split: option.splits prod.splits)

section \<open>A concrete machine\<close>

text \<open>A machine of 64 KiB whose memory map has one conventional region of four pages at 0x2000 and
  one page of loader data at 0x8000, which holds the map itself.\<close>

definition ex_hhdm :: u64 where
  "ex_hhdm = 0xffff800000000000"

definition ex_desc :: "u32 \<Rightarrow> u64 \<Rightarrow> u64 \<Rightarrow> u8 list" where
  "ex_desc t start pages = le_bytes 4 t @ replicate 4 0 @ le_bytes 8 start @ replicate 8 0 @
     le_bytes 8 pages @ replicate 16 0"

definition ex_mem :: memory where
  "ex_mem = store_bytes (\<lambda>_. 0) (0x8000 + ex_hhdm) (ex_desc 7 0x2000 4 @ ex_desc 2 0x8000 1)"

lemma ex_desc_0: "desc_at ex_mem (0x8000 + ex_hhdm) 48 0 =
    \<lparr>desc_type = 7, pad = 0, phys_start = 0x2000, virt_start = 0, page_count = 4, attribute = 0\<rparr>"
  by code_simp

lemma ex_desc_1: "desc_at ex_mem (0x8000 + ex_hhdm) 48 (Suc 0) =
    \<lparr>desc_type = 2, pad = 0, phys_start = 0x8000, virt_start = 0, page_count = 1, attribute = 0\<rparr>"
  by code_simp

lemma unat_2_Suc: "unat (2 :: u64) = Suc (Suc 0)"
  by simp

lemma ex_layout: "pmm_layout 0x8000 2 48 ex_hhdm 0x10000 ex_mem"
  unfolding pmm_layout_def unat_2_Suc All_less_Suc Let_def ex_desc_0 ex_desc_1
  by (simp add: ex_hhdm_def apart_def)

lemma ex_conventional:
  "conventional_frames ex_mem (0x8000 + ex_hhdm) 48 (unat (2 :: u64)) = {2, 3, 4, 5}"
proof -
  have "{i. i < Suc (Suc 0) \<and> desc_type (desc_at ex_mem (0x8000 + ex_hhdm) 48 i) = 7} = {0}"
    using ex_desc_0 ex_desc_1 by (auto simp: less_Suc_eq)
  then have "conventional_frames ex_mem (0x8000 + ex_hhdm) 48 (unat (2 :: u64)) = {2 ..< 6}"
    unfolding conventional_frames_def unat_2_Suc by (simp add: ex_desc_0 region_frames_def)
  then show ?thesis by (simp only:) (simp add: eval_nat_numeral atLeastLessThanSuc insert_commute)
qed

lemma ex_region:
  "find_bitmap_region ex_mem (0x8000 + ex_hhdm) 48 8 [0..<unat (2 :: u64)] = 0x2000"
  unfolding unat_2_Suc using ex_desc_0 by (simp add: upt_rec desc_at_def Let_def PAGE_SIZE_def)

lemma ex_fill_ok: "pmm_fill_ok 0x8000 2 48 ex_hhdm 0x10000 ex_mem"
proof -
  have n: "div_ceil (unat (0x10000 :: u64) div 4096) 64 = 1" by (simp add: div_ceil_def)
  show ?thesis
    using ex_region unfolding pmm_fill_ok_def Let_def n unat_2_Suc All_less_Suc by (simp add: ex_hhdm_def apart_def)
qed

lemma ex_init:
  obtains p m where "init_internal PMM 0x8000 2 48 ex_hhdm 0x10000 ex_mem = Inr (p, m)"
    "bitmap_start_addr p = 0x2000" "bitmap_size_u64 p = 1" "bitmap_frames p = {2}"
proof -
  obtain p m where p: "init_internal PMM 0x8000 2 48 ex_hhdm 0x10000 ex_mem = Inr (p, m)"
    using ex_region by (simp add: init_internal_def Let_def div_ceil_def)
  note sh = init_internal_shape [OF p]
  have "bitmap_size_u64 p = 1" using sh(2) by (simp add: div_ceil_def)
  moreover from this have "bitmap_start_addr p = 0x2000" using sh(5) ex_region by simp
  moreover have "{2..<3 :: nat} = {2}" by auto
  ultimately show thesis
    using that [OF p] by (simp add: bitmap_frames_def div_ceil_def)
qed

section \<open>Properties of the physical memory manager\<close>

text \<open>C4. After \<open>init_internal\<close> the free frames are exactly the frames of conventional memory
  without those of the bitmap and without frame 0, and the bits beyond the last frame are set, provided that the initial
  fill leaves the memory map alone. The fill is eight times as long as the bitmap: no byte outside these
  64 bytes for each word of the bitmap has changed.\<close>

theorem pmm_init_frees_conventional:
  assumes "pmm_layout a len s h mx m" "pmm_fill_ok a len s h mx m" "init_internal self a len s h mx m = Inr (p, m')"
  shows "free_frames p m' = conventional_frames m (a + h) s (unat len) - bitmap_frames p - {0}
    \<and> pmm_inv p m' \<and> (\<forall>x. \<not> in_range (bitmap p) (64 * bitmap_size_u64 p) x \<longrightarrow> m' x = m x)"
  using init_internal_effect [OF assms] by (simp add: only_filled_def)

theorem pmm_init_frees_conventional_witness:
  "\<exists>p m'. init_internal PMM 0x8000 2 48 ex_hhdm 0x10000 ex_mem = Inr (p, m') \<and>
     free_frames p m' = {3, 4, 5}"
proof (rule ex_init)
  fix p m' assume i: "init_internal PMM 0x8000 2 48 ex_hhdm 0x10000 ex_mem = Inr (p, m')"
    and b: "bitmap_frames p = {2}"
  have "{2, 3, 4, 5} - {2 :: nat} - {0} = {3, 4, 5}" by auto
  then show ?thesis
    using pmm_init_frees_conventional [OF ex_layout ex_fill_ok i] i b ex_conventional by auto
qed

text \<open>A machine of 128 MiB whose first conventional region is one page at 0x2000, just enough for the bitmap; the memory map is
  behind it at 0x8000, and sixteen pages of conventional memory are at 1 MiB.\<close>

definition ex_small :: memory where
  "ex_small = store_bytes (\<lambda>_. 0) (0x8000 + ex_hhdm) (ex_desc 7 0x2000 1 @ ex_desc 7 0x100000 16)"

lemma ex_small_desc:
  "desc_at ex_small (0x8000 + ex_hhdm) 48 0 =
     \<lparr>desc_type = 7, pad = 0, phys_start = 0x2000, virt_start = 0, page_count = 1, attribute = 0\<rparr>"
  "desc_at ex_small (0x8000 + ex_hhdm) 48 (Suc 0) =
     \<lparr>desc_type = 7, pad = 0, phys_start = 0x100000, virt_start = 0, page_count = 16, attribute = 0\<rparr>"
  by code_simp+

lemma ex_small_layout: "pmm_layout 0x8000 2 48 ex_hhdm 0x8000000 ex_small"
  unfolding pmm_layout_def unat_2_Suc All_less_Suc Let_def ex_small_desc
  by (simp add: ex_hhdm_def apart_def)

lemma ex_small_init:
  obtains p m where "init_internal PMM 0x8000 2 48 ex_hhdm 0x8000000 ex_small = Inr (p, m)"
    "bitmap p = 0x2000 + ex_hhdm" "bitmap_size_u64 p = 512"
proof -
  have r: "find_bitmap_region ex_small (0x8000 + ex_hhdm) 48 4096 [0..<unat (2 :: u64)] = 0x2000"
    unfolding unat_2_Suc using ex_small_desc by (simp add: upt_rec desc_at_def Let_def PAGE_SIZE_def)
  have d: "div_ceil (unat (0x8000000 div PAGE_SIZE)) 64 * 8 = 4096" by (simp add: PAGE_SIZE_def div_ceil_def)
  have nm: "(0x2000 :: u64) \<noteq> - 1" by simp
  obtain p m where p: "init_internal PMM 0x8000 2 48 ex_hhdm 0x8000000 ex_small = Inr (p, m)"
    unfolding init_internal_def Let_def d r if_not_P [OF nm] by blast
  note sh = init_internal_shape [OF p]
  have sz: "bitmap_size_u64 p = 512" using sh(2) by (simp add: div_ceil_def)
  have "bitmap_start_addr p = 0x2000" using sh(5) r by (simp add: sz)
  then show thesis using that [OF p] sh(3) sz by simp
qed

text \<open>C39. The initial fill runs over the end of the bitmap: the seven bitmap sizes of memory behind it are 0xFF after
  initialisation, whatever they held and whether or not they belong to the region that was found to hold the bitmap. If
  the type fields of the memory map lie there, no frame is free afterwards, however much conventional memory there is.\<close>

theorem pmm_init_fill_overruns:
  assumes "pmm_layout a len s h mx m" "init_internal self a len s h mx m = Inr (p, m')"
  shows "(\<forall>i. 8 * bitmap_size_u64 p \<le> i \<and> i < 64 * bitmap_size_u64 p \<longrightarrow> m' (bitmap p + of_nat i) = 0xFF) \<and>
    ((\<forall>j < unat len. \<forall>i < 4. in_range (bitmap p) (64 * bitmap_size_u64 p) (a + h + of_nat j * s + of_nat i)) \<longrightarrow>
       free_frames p m' = {})"
  using init_internal_overrun [OF assms] by blast

theorem pmm_init_fill_overruns_witness:
  "\<exists>p m'. init_internal PMM 0x8000 2 48 ex_hhdm 0x8000000 ex_small = Inr (p, m') \<and> m' (0x3000 + ex_hhdm) = 0xFF \<and>
     free_frames p m' = {} \<and> 256 \<in> conventional_frames ex_small (0x8000 + ex_hhdm) 48 (unat (2 :: u64))"
proof (rule ex_small_init)
  fix p m' assume i: "init_internal PMM 0x8000 2 48 ex_hhdm 0x8000000 ex_small = Inr (p, m')"
    and b: "bitmap p = 0x2000 + ex_hhdm" "bitmap_size_u64 p = 512"
  note o = pmm_init_fill_overruns [OF ex_small_layout i, unfolded b]
  have "0x2000 + ex_hhdm + of_nat 4096 = 0x3000 + ex_hhdm" by simp
  then have "m' (0x3000 + ex_hhdm) = 0xFF" using conjunct1 [OF o, rule_format, of 4096] by simp
  moreover have "\<forall>j < unat (2 :: u64). \<forall>i < 4. in_range (0x2000 + ex_hhdm) (64 * 512) (0x8000 + ex_hhdm + of_nat j * 48 + of_nat i)"
  proof (intro allI impI)
    fix i j :: nat assume lt: "j < unat (2 :: u64)" "i < 4"
    then have "0x6000 + j * 48 + i < 64 * 512" by simp
    moreover have "0x8000 + ex_hhdm + of_nat j * 48 + of_nat i = 0x2000 + ex_hhdm + of_nat (0x6000 + j * 48 + i)" by simp
    ultimately show "in_range (0x2000 + ex_hhdm) (64 * 512) (0x8000 + ex_hhdm + of_nat j * 48 + of_nat i)"
      using in_range_self [of "0x6000 + j * 48 + i" "64 * 512" "0x2000 + ex_hhdm"] by (simp only:) simp
  qed
  moreover have "256 \<in> conventional_frames ex_small (0x8000 + ex_hhdm) 48 (unat (2 :: u64))"
    unfolding conventional_frames_def unat_2_Suc using ex_small_desc(2)
    by (intro UN_I [of "Suc 0"]) (simp_all add: region_frames_def)
  ultimately show ?thesis using i conjunct2 [OF o] by blast
qed

text \<open>C34. Initialisation fails, with the panic of the source, exactly when no conventional region
  other than one at address 0 has room for the bitmap.\<close>

theorem pmm_init_panics_iff:
  assumes "pmm_layout a len s h mx m"
  shows "init_internal self a len s h mx m = Inl (Panic ''PMM: Critical - No RAM for Bitmap!'') \<longleftrightarrow>
    \<not> (\<exists>i < unat len. desc_type (desc_at m (a + h) s i) = 7 \<and> phys_start (desc_at m (a + h) s i) \<noteq> 0 \<and>
        of_nat (div_ceil (unat mx div 4096) 64 * 8) \<le> page_count (desc_at m (a + h) s i) * PAGE_SIZE)"
    (is "_ \<longleftrightarrow> \<not> ?fits")
proof -
  let ?n = "div_ceil (unat mx div 4096) 64 * 8"
  let ?b = "find_bitmap_region m (a + h) s ?n [0..<unat len]"
  have "phys_start (desc_at m (a + h) s i) \<noteq> - 1"
    if "i < unat len" "desc_type (desc_at m (a + h) s i) = 7" for i
  proof
    assume "phys_start (desc_at m (a + h) s i) = - 1"
    moreover have "4096 dvd unat (phys_start (desc_at m (a + h) s i))"
      using assms that by (simp add: pmm_layout_def Let_def)
    moreover have "unat (- 1 :: u64) = 2 ^ 64 - 1" by (simp add: unsigned_minus_1_eq_mask mask_eq_exp_minus_1)
    ultimately show False by simp
  qed
  then have "?b = - 1 \<longleftrightarrow> \<not> ?fits"
    using find_bitmap_region_None_iff [of "[0..<unat len]" m "a + h" s ?n] by auto
  then show ?thesis by (simp add: init_internal_def Let_def)
qed

theorem pmm_init_panics_iff_witness:
  "pmm_layout 0x8000 2 48 ex_hhdm 0x10000 ex_mem \<and>
   init_internal PMM 0x8000 2 48 ex_hhdm 0x10000 ex_mem \<noteq>
     Inl (Panic ''PMM: Critical - No RAM for Bitmap!'')"
  using pmm_init_panics_iff [OF ex_layout, of PMM] ex_layout ex_desc_0
  by (auto simp: div_ceil_def PAGE_SIZE_def intro!: exI [of _ 0])

text \<open>C18. Allocation refines the abstract allocator that takes the least free frame: it returns
  \<open>None\<close> exactly when no frame is free and then changes nothing; otherwise it returns the
  address of the lowest free frame, whose bit is the only one it changes, and keeps the
  invariant.\<close>

theorem pmm_allocate_lowest_free:
  assumes "pmm_inv p m" "allocate_frame (p, m) = (r, (p', m'))"
  shows "p' = p \<and> pmm_inv p m' \<and> only_bitmap p m m' \<and>
    (case r of
       None \<Rightarrow> free_frames p m = {} \<and> m' = m
     | Some a \<Rightarrow> \<exists>f \<in> free_frames p m. a = frame_addr f \<and> unat a = f * 4096 \<and>
         (\<forall>g \<in> free_frames p m. f \<le> g) \<and> free_frames p m' = free_frames p m - {f})"
proof (cases "free_frames p m = {}")
  case True
  then show ?thesis using assms allocate_frame_effect [OF assms(1)] by auto
next
  case False
  let ?f = "Min (free_frames p m)"
  have wf: "pmm_wf p" using assms(1) by (simp add: pmm_inv_def)
  have mem: "?f \<in> free_frames p m" using False by simp
  then have lt: "?f < total_frames p" by (simp add: free_frames_def)
  have eq: "r = Some (frame_addr ?f)" "p' = p" "m' = mark_used p ?f m"
    using False assms allocate_frame_effect [OF assms(1)] by auto
  have "unat (frame_addr ?f) = ?f * 4096"
    using free_frames_small [OF assms(1)] mem by (intro unat_frame_addr) auto
  moreover have "only_bitmap p m (mark_used p ?f m)"
    using total_le_bits [OF wf] lt by (intro only_bitmap_mark [OF wf]) simp
  ultimately show ?thesis
    using mem free_frames_mark_used [OF wf lt] pmm_inv_mark_used [OF assms(1) lt]
    by (auto simp: eq intro!: bexI [of _ ?f])
qed

text \<open>A one-word bitmap at 0x1000 for 64 frames whose only free frame is frame 1.\<close>

definition ex_pmm :: BitmapPmm where
  "ex_pmm = \<lparr>bitmap = 0x1000, total_frames = 64, bitmap_size_u64 = 1, bitmap_start_addr = 0x1000\<rparr>"

definition ex_pmm_mem :: memory where
  "ex_pmm_mem = store64 (\<lambda>_. 0) 0x1000 0xFFFFFFFFFFFFFFFD"

lemma ex_pmm_inv: "pmm_inv ex_pmm ex_pmm_mem"
  by (auto simp: pmm_inv_def pmm_wf_def ex_pmm_def div_ceil_def)

theorem pmm_allocate_lowest_free_witness:
  "\<exists>m'. allocate_frame (ex_pmm, ex_pmm_mem) = (Some 0x1000, (ex_pmm, m')) \<and>
     free_frames ex_pmm m' = free_frames ex_pmm ex_pmm_mem - {1}"
proof -
  have e: "load64 ex_pmm_mem (word_ptr ex_pmm 0) = 0xFFFFFFFFFFFFFFFD"
    by (simp add: ex_pmm_mem_def word_ptr_def ex_pmm_def)
  have total: "bitmap_size_u64 ex_pmm = 1" "total_frames ex_pmm = 64" by (simp_all add: ex_pmm_def)
  have tz: "trailing_zeros (2 :: u64) = 1" by (rule trailing_zeros_least) (auto simp: bit_numeral_rec)
  have tz': "trailing_zeros (- 18446744073709551614 :: u64) = 1"
  proof -
    have "(- 18446744073709551614 :: u64) = 2" by simp
    then show ?thesis using tz by (simp only:)
  qed
  obtain m' where a: "allocate_frame (ex_pmm, ex_pmm_mem) = (Some 0x1000, (ex_pmm, m'))"
    using e tz' by (auto simp: allocate_frame_def allocate_frame_internal_def total Let_def PAGE_SIZE_def)
  obtain f where "(0x1000 :: u64) = frame_addr f \<and> unat (0x1000 :: u64) = f * 4096 \<and>
      free_frames ex_pmm m' = free_frames ex_pmm ex_pmm_mem - {f}"
    using pmm_allocate_lowest_free [OF ex_pmm_inv a] by auto
  then show ?thesis using a by auto
qed

text \<open>C9. After initialisation, whose fill has left the memory map alone, any run of allocations hands out pairwise different, non-overlapping
  frames of conventional memory, never frame 0, as many as asked for as long as any is left; and
  whatever the kernel then stores into such a frame through the higher-half window, the set of
  free frames stays as it is: the manager's bitmap is out of reach.\<close>

theorem pmm_run_isolated:
  assumes layout: "pmm_layout a len s h mx m" and fill: "pmm_fill_ok a len s h mx m"
    and init: "init_internal self a len s h mx m = Inr (p, m1)"
    and run: "allocate_n allocate_frame n (p, m1) = (fs, (p', m2))"
  shows "distinct fs \<and> length fs = min n (card (conventional_frames m (a + h) s (unat len) - bitmap_frames p - {0})) \<and>
    (\<forall>f \<in> set fs. f \<noteq> 0 \<and> unat f div 4096 \<in> conventional_frames m (a + h) s (unat len) \<and>
       (\<forall>bs. length bs \<le> 4096 \<longrightarrow> free_frames p (store_bytes m2 (f + h) bs) = free_frames p m2))"
proof -
  note eff = init_internal_effect [OF layout fill init] and reg = init_internal_region [OF layout init]
  have inv: "pmm_state_inv (p, m1)" using eff(1) by (simp add: pmm_state_inv_def)
  note small = free_frames_small [OF eff(1)]
  have card: "card (pmm_avail (p, m1)) = card (free_frames p m1)"
    using card_image [OF inj_on_subset [OF inj_frame_addr small]] by (simp add: pmm_avail_def)
  have run': "distinct fs" "set fs \<subseteq> pmm_avail (p, m1)" "length fs = min n (card (free_frames p m1))"
    using pmm.allocate_n_run [OF inv run] card by auto
  have "unat h + total_frames p * 4096 \<le> 2 ^ 64"
    using layout div_mult_mod_eq [of "unat mx" 4096] init_internal_shape(1) [OF init]
    unfolding pmm_layout_def by linarith
  note ap = frame_apart_bitmap [OF reg(1,6,3) _ _ this]
  have "f \<noteq> 0 \<and> unat f div 4096 \<in> conventional_frames m (a + h) s (unat len) \<and>
      (\<forall>bs. length bs \<le> 4096 \<longrightarrow> free_frames p (store_bytes m2 (f + h) bs) = free_frames p m2)"
    if f: "f \<in> set fs" for f
  proof -
    obtain g where g: "f = frame_addr g" "g \<in> free_frames p m1" using f run'(2) by (auto simp: pmm_avail_def)
    have u: "unat f = g * 4096" using g small by (auto simp: unat_frame_addr)
    have "g < total_frames p" using g(2) by (simp add: free_frames_def)
    moreover have "g \<noteq> 0" "g \<in> conventional_frames m (a + h) s (unat len)" "g \<notin> bitmap_frames p"
      using g(2) unfolding eff(2) by auto
    moreover from calculation have "apart (f + h) 4096 (bitmap p) (8 * bitmap_size_u64 p)"
      unfolding g(1) by (intro ap)
    moreover have "f \<noteq> 0" using u \<open>g \<noteq> 0\<close> by (metis mult_eq_0_iff unat_0 zero_neq_numeral)
    ultimately show ?thesis
      using u free_frames_store_apart [OF reg(1)] by simp
  qed
  then show ?thesis using run'(1,3) eff(2) by simp
qed

theorem pmm_run_isolated_witness:
  "\<exists>p m1 fs m2. init_internal PMM 0x8000 2 48 ex_hhdm 0x10000 ex_mem = Inr (p, m1) \<and>
     allocate_n allocate_frame 7 (p, m1) = (fs, (p, m2)) \<and> length fs = 3 \<and> distinct fs"
proof (rule ex_init)
  fix p m1 assume i: "init_internal PMM 0x8000 2 48 ex_hhdm 0x10000 ex_mem = Inr (p, m1)"
    and b: "bitmap_frames p = {2}"
  obtain fs p' m2 where r: "allocate_n allocate_frame 7 (p, m1) = (fs, (p', m2))" by (metis surj_pair)
  have c: "card ({2, 3, 4, 5} - {2 :: nat} - {0}) = 3" by simp
  have "p' = p" using allocate_n_keeps_manager [OF r] by simp
  then show ?thesis
    using pmm_run_isolated [OF ex_layout ex_fill_ok i r] i r unfolding b ex_conventional c by auto
qed

end
