(* ===== verification/Bump_Allocator.thy ===== *)
theory Bump_Allocator
  imports Frame_Allocator
begin

text \<open>
  The bootloader's allocator for page-table frames (\<open>BumpAllocator\<close> of
  \<open>uefi_boot/src/main.rs\<close>): a pointer that moves through one pool of pages and is never
  given anything back. The conversion of the address to a \<open>PhysFrame\<close> belongs to the
  \<open>x86_64\<close> crate and is the argument \<open>containing_address\<close>; \<open>bump_take\<close> is the
  address the code passes to it.
\<close>

record BumpAllocator =
  bump_next :: u64
  bump_end :: u64

definition bump_new :: "u64 \<Rightarrow> nat \<Rightarrow> BumpAllocator" where
  "bump_new start pages =
     (let size = of_nat pages * 4096
      in \<lparr>bump_next = start, bump_end = start + size\<rparr>)"

definition bump_take :: "BumpAllocator \<Rightarrow> u64 option \<times> BumpAllocator" where
  "bump_take self =
     (if bump_end self \<le> bump_next self then (None, self)
      else (Some (bump_next self), self\<lparr>bump_next := bump_next self + 4096\<rparr>))"

definition bump_allocate_frame ::
  "(u64 \<Rightarrow> 'frame) \<Rightarrow> BumpAllocator \<Rightarrow> 'frame option \<times> BumpAllocator" where
  "bump_allocate_frame containing_address self =
     (let (addr, self') = bump_take self in (map_option containing_address addr, self'))"

definition bump_inv :: "BumpAllocator \<Rightarrow> bool" where
  "bump_inv b \<longleftrightarrow> 4096 dvd unat (bump_next b) \<and> 4096 dvd unat (bump_end b)"

definition bump_avail :: "BumpAllocator \<Rightarrow> u64 set" where
  "bump_avail b = {a. 4096 dvd unat a \<and> bump_next b \<le> a \<and> a < bump_end b}"

lemma dvd_less_step:
  assumes "(4096 :: nat) dvd x" "4096 dvd y" "x < y"
  shows "x + 4096 \<le> y"
  using assms by (auto simp: dvd_def)

lemma bump_take_next:
  assumes "bump_inv b" "bump_next b < bump_end b"
  shows "unat (bump_next b + 4096) = unat (bump_next b) + 4096"
    "unat (bump_next b) + 4096 \<le> unat (bump_end b)"
proof -
  show le: "unat (bump_next b) + 4096 \<le> unat (bump_end b)"
    using assms by (intro dvd_less_step) (auto simp: bump_inv_def word_less_nat_alt)
  then show "unat (bump_next b + 4096) = unat (bump_next b) + 4096"
    using unat_lt_64 [of "bump_end b"] by (subst unat_add_small) auto
qed

lemma bump_avail_step:
  assumes "bump_inv b" "bump_next b < bump_end b"
  shows "bump_avail (b\<lparr>bump_next := bump_next b + 4096\<rparr>) = bump_avail b - {bump_next b}"
proof (rule set_eqI)
  fix a :: u64
  have "unat (bump_next b) + 4096 \<le> unat a \<longleftrightarrow> unat (bump_next b) \<le> unat a \<and> unat a \<noteq> unat (bump_next b)"
    if "4096 dvd unat a"
    using that assms(1) dvd_less_step [of "unat (bump_next b)" "unat a"]
    by (auto simp: bump_inv_def)
  then show "a \<in> bump_avail (b\<lparr>bump_next := bump_next b + 4096\<rparr>) \<longleftrightarrow> a \<in> bump_avail b - {bump_next b}"
    by (auto simp: bump_avail_def word_le_nat_alt bump_take_next [OF assms] word_unat_eq_iff)
qed

interpretation bump: frame_allocator bump_take bump_avail bump_inv
proof
  fix s :: BumpAllocator and s' and f :: u64
  assume inv: "bump_inv s"
  show "finite (bump_avail s)" by simp
  show "f \<in> bump_avail s \<Longrightarrow> 4096 dvd unat f" by (simp add: bump_avail_def)
  show "bump_take s = (None, s') \<Longrightarrow> bump_avail s = {} \<and> s' = s"
    by (auto simp: bump_take_def bump_avail_def split: if_splits)
  assume "bump_take s = (Some f, s')"
  then have lt: "bump_next s < bump_end s" and f: "f = bump_next s"
    and s': "s' = s\<lparr>bump_next := bump_next s + 4096\<rparr>"
    by (auto simp: bump_take_def split: if_splits)
  show "f \<in> bump_avail s \<and> bump_avail s' = bump_avail s - {f} \<and> bump_inv s'"
    using inv lt bump_avail_step [OF inv lt] bump_take_next [OF inv lt]
    by (auto simp: f s' bump_avail_def bump_inv_def)
qed

lemma bump_new_inv:
  assumes "4096 dvd unat start" "unat start + pages * 4096 < 2 ^ 64"
  shows "bump_inv (bump_new start pages)" "unat (bump_end (bump_new start pages)) = unat start + pages * 4096"
proof -
  have "of_nat pages * 4096 = (of_nat (pages * 4096) :: u64)" by simp
  then show eq: "unat (bump_end (bump_new start pages)) = unat start + pages * 4096"
    using assms(2) by (simp only: bump_new_def Let_def BumpAllocator.select_convs) (rule unat_add_of_nat_small)
  show "bump_inv (bump_new start pages)"
    using assms(1) eq by (simp add: bump_inv_def) (simp add: bump_new_def Let_def)
qed

lemma card_bump_avail_new:
  assumes "4096 dvd unat start" "unat start + pages * 4096 < 2 ^ 64"
  shows "bump_avail (bump_new start pages) = (\<lambda>i. start + of_nat (4096 * i)) ` {..<pages}"
    "card (bump_avail (bump_new start pages)) = pages"
proof -
  have un: "unat (start + of_nat (4096 * i)) = unat start + 4096 * i" if "i < pages" for i
    using that assms(2) by (intro unat_add_of_nat_small) simp
  note fin = bump_new_inv(2) [OF assms]
  have nx: "bump_next (bump_new start pages) = start" by (simp add: bump_new_def Let_def)
  show img: "bump_avail (bump_new start pages) = (\<lambda>i. start + of_nat (4096 * i)) ` {..<pages}"
  proof (intro equalityI subsetI)
    fix a assume "a \<in> bump_avail (bump_new start pages)"
    then have a: "4096 dvd unat a" "unat start \<le> unat a" "unat a < unat start + pages * 4096"
      by (auto simp: bump_avail_def nx word_le_nat_alt word_less_nat_alt fin)
    then have "4096 dvd unat a - unat start" using assms(1) by (intro dvd_diff_nat)
    then obtain i where "unat a - unat start = 4096 * i" by (auto simp: dvd_def)
    then have i: "unat a = unat start + 4096 * i" "i < pages" using a by auto
    then have "a = start + of_nat (4096 * i)" using un by (simp add: word_unat_eq_iff)
    then show "a \<in> (\<lambda>i. start + of_nat (4096 * i)) ` {..<pages}" using i(2) by blast
  next
    fix a assume "a \<in> (\<lambda>i. start + of_nat (4096 * i)) ` {..<pages}"
    then obtain i where i: "a = start + of_nat (4096 * i)" "i < pages" by blast
    then show "a \<in> bump_avail (bump_new start pages)"
      using un [OF i(2)] assms(1) by (auto simp: bump_avail_def nx word_le_nat_alt word_less_nat_alt fin)
  qed
  have "inj_on (\<lambda>i. start + of_nat (4096 * i)) {..<pages}"
    by (rule inj_onI) (use un in \<open>metis add_left_imp_eq lessThan_iff mult_left_cancel zero_neq_numeral\<close>)
  then show "card (bump_avail (bump_new start pages)) = pages"
    by (simp only: img card_image card_lessThan)
qed

end
