(* ===== verification/Bounded_Queue.thy ===== *)
theory Bounded_Queue
  imports Cat_Prelude
begin

text \<open>
  The contract of a bounded FIFO queue that drops what does not fit. An operation may panic; the
  contract says it does not while the invariant holds. The client lemma relates whole runs: the
  values a run of operations pops are those of the abstract queue, a list with a capacity.
\<close>

datatype 'a queue_op = Put 'a | Get

text \<open>The abstract queue and its runs.\<close>

definition spec_put :: "nat \<Rightarrow> 'a \<Rightarrow> 'a list \<Rightarrow> 'a list" where
  "spec_put capacity x xs = (if length xs < capacity then xs @ [x] else xs)"

fun spec_run :: "nat \<Rightarrow> 'a queue_op list \<Rightarrow> 'a list \<Rightarrow> 'a option list \<times> 'a list" where
  "spec_run capacity [] xs = ([], xs)"
| "spec_run capacity (Put x # os) xs = spec_run capacity os (spec_put capacity x xs)"
| "spec_run capacity (Get # os) xs =
     (let (rs, ys) = spec_run capacity os (tl xs)
      in ((case xs of [] \<Rightarrow> None | y # _ \<Rightarrow> Some y) # rs, ys))"

text \<open>The runs of an implementation; a panic ends the run.\<close>

fun queue_run ::
  "('a \<Rightarrow> 'q \<Rightarrow> panic + 'q) \<Rightarrow> ('q \<Rightarrow> panic + ('a option \<times> 'q)) \<Rightarrow> 'a queue_op list \<Rightarrow> 'q \<Rightarrow>
   panic + ('a option list \<times> 'q)" where
  "queue_run put get [] q = Inr ([], q)"
| "queue_run put get (Put x # os) q =
     (case put x q of Inl e \<Rightarrow> Inl e | Inr q' \<Rightarrow> queue_run put get os q')"
| "queue_run put get (Get # os) q =
     (case get q of
        Inl e \<Rightarrow> Inl e
      | Inr (r, q') \<Rightarrow>
          (case queue_run put get os q' of Inl e \<Rightarrow> Inl e | Inr (rs, q'') \<Rightarrow> Inr (r # rs, q'')))"

locale bounded_queue =
  fixes put :: "'a \<Rightarrow> 'q \<Rightarrow> panic + 'q"
    and get :: "'q \<Rightarrow> panic + ('a option \<times> 'q)"
    and start :: 'q
    and capacity :: nat
    and contents :: "'q \<Rightarrow> 'a list"
    and invar :: "'q \<Rightarrow> bool"
  assumes start_invar: "invar start"
    and start_contents: "contents start = []"
    and capacity_bound: "invar q \<Longrightarrow> length (contents q) \<le> capacity"
    and put_ok: "invar q \<Longrightarrow> \<exists>q'. put x q = Inr q' \<and> invar q' \<and>
      contents q' = spec_put capacity x (contents q)"
    and get_ok: "invar q \<Longrightarrow> \<exists>q'. get q = Inr (case contents q of [] \<Rightarrow> None | y # _ \<Rightarrow> Some y, q') \<and>
      invar q' \<and> contents q' = tl (contents q)"
begin

lemma run_refines:
  assumes "invar q"
  shows "\<exists>q'. queue_run put get os q = Inr (fst (spec_run capacity os (contents q)), q') \<and>
    invar q' \<and> contents q' = snd (spec_run capacity os (contents q))"
  using assms
proof (induction os arbitrary: q)
  case Nil
  then show ?case by simp
next
  case (Cons oper os)
  show ?case
  proof (cases oper)
    case (Put x)
    obtain q' where "put x q = Inr q'" "invar q'" "contents q' = spec_put capacity x (contents q)"
      using put_ok [OF Cons.prems] by blast
    then show ?thesis using Cons.IH [of q'] Put by simp
  next
    case Get
    obtain q' where q': "get q = Inr (case contents q of [] \<Rightarrow> None | y # _ \<Rightarrow> Some y, q')"
        "invar q'" "contents q' = tl (contents q)"
      using get_ok [OF Cons.prems] by blast
    then show ?thesis using Cons.IH [OF q'(2)] Get by (auto simp: case_prod_beta)
  qed
qed

lemma run_from_start:
  "\<exists>q'. queue_run put get os start = Inr (fst (spec_run capacity os []), q') \<and> invar q' \<and>
    contents q' = snd (spec_run capacity os [])"
  using run_refines [OF start_invar] by (simp add: start_contents)

end

end
