(* ===== verification/Interrupts.thy ===== *)
theory Interrupts
  imports Bounded_Queue
begin

text \<open>
  Interrupt handling of \<open>kernel/src/interrupts.rs\<close>: the keyboard ring buffer, the tick
  counter, the interrupt vectors and the descriptor table, the timer programming, and the way the
  buffer's lock is shared between the kernel and the keyboard interrupt.

  The driver of the interrupt controller (crate \<open>pic8259\<close>) is a parameter: its state is the type
  variable \<open>'pic\<close> and its operations are arguments of the functions that call them. Reading the
  keyboard port is an input, writing the timer ports a list of outputs.
\<close>

section \<open>Vectors\<close>

definition PIC_1_OFFSET :: u8 where
  "PIC_1_OFFSET = 32"

definition PIC_2_OFFSET :: u8 where
  "PIC_2_OFFSET = PIC_1_OFFSET + 8"

datatype InterruptIndex = Timer | Keyboard

definition as_u8 :: "InterruptIndex \<Rightarrow> u8" where
  "as_u8 i = (case i of Timer \<Rightarrow> PIC_1_OFFSET | Keyboard \<Rightarrow> PIC_1_OFFSET + 1)"

definition as_usize :: "InterruptIndex \<Rightarrow> nat" where
  "as_usize i = unat (as_u8 i)"

section \<open>The keyboard buffer\<close>

definition BUFFER_SIZE :: nat where
  "BUFFER_SIZE = 64"

record KeyboardBuffer =
  buffer :: "u8 list"
  head :: nat
  tail :: nat

definition KEYBOARD_BUFFER :: KeyboardBuffer where
  "KEYBOARD_BUFFER = \<lparr>buffer = replicate BUFFER_SIZE 0, head = 0, tail = 0\<rparr>"

text \<open>Indexing the array out of range panics, as Rust's bounds check does.\<close>

definition add_scancode :: "u8 \<Rightarrow> KeyboardBuffer \<Rightarrow> panic + KeyboardBuffer" where
  "add_scancode scancode lock =
     (let next_head = (head lock + 1) mod BUFFER_SIZE
      in if next_head \<noteq> tail lock then
           (if head lock < length (buffer lock)
            then Inr (lock\<lparr>buffer := (buffer lock)[head lock := scancode], head := next_head\<rparr>)
            else Inl (Panic ''index out of bounds''))
         else Inr lock)"

definition pop_scancode :: "KeyboardBuffer \<Rightarrow> panic + (u8 option \<times> KeyboardBuffer)" where
  "pop_scancode lock =
     (if head lock = tail lock then Inr (None, lock)
      else if tail lock < length (buffer lock)
      then Inr (Some (buffer lock ! tail lock), lock\<lparr>tail := (tail lock + 1) mod BUFFER_SIZE\<rparr>)
      else Inl (Panic ''index out of bounds''))"

definition kbd_inv :: "KeyboardBuffer \<Rightarrow> bool" where
  "kbd_inv k \<longleftrightarrow> length (buffer k) = BUFFER_SIZE \<and> head k < BUFFER_SIZE \<and> tail k < BUFFER_SIZE"

definition kbd_count :: "KeyboardBuffer \<Rightarrow> nat" where
  "kbd_count k = (head k + BUFFER_SIZE - tail k) mod BUFFER_SIZE"

definition kbd_contents :: "KeyboardBuffer \<Rightarrow> u8 list" where
  "kbd_contents k = map (\<lambda>i. buffer k ! ((tail k + i) mod BUFFER_SIZE)) [0..<kbd_count k]"

text \<open>Indices stay below twice the size, where the reduction is one subtraction.\<close>

lemma mod_BUFFER_SIZE: "x < 128 \<Longrightarrow> x mod BUFFER_SIZE = (if x < 64 then x else x - 64)"
  by (simp add: BUFFER_SIZE_def mod_if)

lemma kbd_count_eq:
  "kbd_inv k \<Longrightarrow> kbd_count k = (if tail k \<le> head k then head k - tail k else head k + 64 - tail k)"
  by (auto simp: kbd_inv_def kbd_count_def mod_BUFFER_SIZE) (auto simp: BUFFER_SIZE_def mod_if)

lemma kbd_bounds: "kbd_inv k \<Longrightarrow> head k < 64 \<and> tail k < 64 \<and> length (buffer k) = 64"
  by (simp add: kbd_inv_def BUFFER_SIZE_def)

lemma kbd_count_le: "kbd_count k \<le> 63"
proof -
  have "kbd_count k < 64" by (simp add: kbd_count_def BUFFER_SIZE_def)
  then show ?thesis by simp
qed

lemma kbd_full_iff: "kbd_inv k \<Longrightarrow> (head k + 1) mod BUFFER_SIZE = tail k \<longleftrightarrow> kbd_count k = 63"
  using kbd_bounds [of k] by (auto simp: kbd_count_eq mod_BUFFER_SIZE)

lemma kbd_empty_iff: "kbd_inv k \<Longrightarrow> head k = tail k \<longleftrightarrow> kbd_count k = 0"
  using kbd_bounds [of k] by (auto simp: kbd_count_eq)

lemma kbd_slot_head: "kbd_inv k \<Longrightarrow> (tail k + kbd_count k) mod BUFFER_SIZE = head k"
  using kbd_bounds [of k] by (auto simp: kbd_count_eq mod_BUFFER_SIZE)

lemma kbd_slot_other: "kbd_inv k \<Longrightarrow> i < kbd_count k \<Longrightarrow> (tail k + i) mod BUFFER_SIZE \<noteq> head k"
  using kbd_bounds [of k] by (auto simp: kbd_count_eq mod_BUFFER_SIZE split: if_splits)

lemma add_scancode_refines:
  assumes inv: "kbd_inv k"
  shows "\<exists>k'. add_scancode x k = Inr k' \<and> kbd_inv k' \<and> kbd_contents k' = spec_put 63 x (kbd_contents k)"
proof (cases "kbd_count k = 63")
  case True
  then show ?thesis
    using inv kbd_full_iff [OF inv]
    by (auto simp: add_scancode_def spec_put_def kbd_contents_def Let_def)
next
  case False
  let ?k = "k\<lparr>buffer := (buffer k)[head k := x], head := (head k + 1) mod BUFFER_SIZE\<rparr>"
  have step: "add_scancode x k = Inr ?k"
    using inv False kbd_full_iff [OF inv] by (simp add: add_scancode_def Let_def kbd_inv_def)
  have inv': "kbd_inv ?k" using inv by (simp add: kbd_inv_def BUFFER_SIZE_def)
  have count: "kbd_count ?k = Suc (kbd_count k)"
    using kbd_bounds [OF inv] False unfolding kbd_count_eq [OF inv] kbd_count_eq [OF inv']
    by (auto simp: mod_BUFFER_SIZE)
  have old: "buffer ?k ! ((tail k + i) mod BUFFER_SIZE) = buffer k ! ((tail k + i) mod BUFFER_SIZE)"
    if "i < kbd_count k" for i
    using kbd_slot_other [OF inv that] by simp
  have new: "buffer ?k ! ((tail k + kbd_count k) mod BUFFER_SIZE) = x"
    using inv by (simp add: kbd_slot_head [OF inv] kbd_inv_def)
  have "kbd_contents ?k = kbd_contents k @ [x]"
    unfolding kbd_contents_def count using old new by simp
  then show ?thesis
    using step inv' False kbd_count_le [of k] by (simp add: spec_put_def kbd_contents_def)
qed

lemma pop_scancode_refines:
  assumes inv: "kbd_inv k"
  shows "\<exists>k'. pop_scancode k = Inr (case kbd_contents k of [] \<Rightarrow> None | y # _ \<Rightarrow> Some y, k') \<and>
    kbd_inv k' \<and> kbd_contents k' = tl (kbd_contents k)"
proof (cases "kbd_count k")
  case 0
  then show ?thesis
    using inv kbd_empty_iff [OF inv] by (simp add: pop_scancode_def kbd_contents_def)
next
  case (Suc n)
  let ?k = "k\<lparr>tail := (tail k + 1) mod BUFFER_SIZE\<rparr>"
  have step: "pop_scancode k = Inr (Some (buffer k ! tail k), ?k)"
    using inv Suc kbd_empty_iff [OF inv] by (simp add: pop_scancode_def kbd_inv_def)
  have inv': "kbd_inv ?k" using inv by (simp add: kbd_inv_def BUFFER_SIZE_def)
  have count: "kbd_count ?k = n"
    using kbd_bounds [OF inv] Suc unfolding kbd_count_eq [OF inv] kbd_count_eq [OF inv']
    by (auto simp: mod_BUFFER_SIZE split: if_splits)
  have cons: "kbd_contents k = buffer k ! tail k # kbd_contents ?k"
    unfolding kbd_contents_def Suc count using inv
    by (simp add: upt_rec [of 0 "Suc n"] map_Suc_upt [symmetric] mod_simps kbd_inv_def o_def
        del: upt_Suc map_Suc_upt)
  then show ?thesis using step inv' by simp
qed

interpretation kbd: bounded_queue add_scancode pop_scancode KEYBOARD_BUFFER 63 kbd_contents kbd_inv
proof
  show "kbd_inv KEYBOARD_BUFFER" by (simp add: kbd_inv_def KEYBOARD_BUFFER_def BUFFER_SIZE_def)
  show "kbd_contents KEYBOARD_BUFFER = []"
    by (simp add: kbd_contents_def kbd_count_def KEYBOARD_BUFFER_def)
  fix q :: KeyboardBuffer
  show "length (kbd_contents q) \<le> 63" by (simp add: kbd_contents_def kbd_count_le)
qed (use add_scancode_refines pop_scancode_refines in blast)+

section \<open>Handlers\<close>

record 'pic irq_state =
  ticks :: u64
  kbd_buffer :: KeyboardBuffer
  pics :: 'pic

definition timer_handler :: "(u8 \<Rightarrow> 'pic \<Rightarrow> 'pic) \<Rightarrow> 'pic irq_state \<Rightarrow> 'pic irq_state" where
  "timer_handler notify_end_of_interrupt s =
     s\<lparr>ticks := ticks s + 1, pics := notify_end_of_interrupt (as_u8 Timer) (pics s)\<rparr>"

definition keyboard_handler ::
  "(u8 \<Rightarrow> 'pic \<Rightarrow> 'pic) \<Rightarrow> u8 \<Rightarrow> 'pic irq_state \<Rightarrow> panic + 'pic irq_state" where
  "keyboard_handler notify_end_of_interrupt scancode s =
     (case add_scancode scancode (kbd_buffer s) of
        Inl e \<Rightarrow> Inl e
      | Inr k \<Rightarrow> Inr (s\<lparr>kbd_buffer := k, pics := notify_end_of_interrupt (as_u8 Keyboard) (pics s)\<rparr>))"

text \<open>\<open>LockedPics::initialize\<close>: the masks open IRQ 0 and IRQ 1 only.\<close>

definition pics_initialize :: "('pic \<Rightarrow> 'pic) \<Rightarrow> (u8 \<Rightarrow> u8 \<Rightarrow> 'pic \<Rightarrow> 'pic) \<Rightarrow> 'pic \<Rightarrow> 'pic" where
  "pics_initialize initialize write_masks p = write_masks 0xFC 0xFF (initialize p)"

text \<open>The port writes of \<open>init_timer\<close>, in order.\<close>

definition PIT_FREQUENCY :: u32 where
  "PIT_FREQUENCY = 1193182"

definition FREQUENCY_HZ :: u32 where
  "FREQUENCY_HZ = 1000"

definition init_timer :: "(u16 \<times> u8) list" where
  "init_timer =
     (let divisor = PIT_FREQUENCY div FREQUENCY_HZ
      in [(0x43, 0x36), (0x40, ucast (divisor AND 0xFF)), (0x40, ucast (drop_bit 8 divisor))])"

section \<open>The interrupt descriptor table\<close>

datatype handler_fn =
    breakpoint_handler | double_fault_handler | page_fault_handler | general_protection_handler
  | timer_handler_fn | keyboard_handler_fn

record idt_entry =
  handler :: handler_fn
  stack_index :: "nat option"

record InterruptDescriptorTable =
  breakpoint :: "idt_entry option"
  double_fault :: "idt_entry option"
  page_fault :: "idt_entry option"
  general_protection_fault :: "idt_entry option"
  interrupts :: "u8 \<rightharpoonup> idt_entry"

definition DOUBLE_FAULT_IST_INDEX :: nat where
  "DOUBLE_FAULT_IST_INDEX = 0"

abbreviation handler_entry :: "handler_fn \<Rightarrow> idt_entry" where
  "handler_entry f \<equiv> \<lparr>handler = f, stack_index = None\<rparr>"

definition IDT :: InterruptDescriptorTable where
  "IDT = \<lparr>breakpoint = Some (handler_entry breakpoint_handler),
     double_fault = Some \<lparr>handler = double_fault_handler, stack_index = Some DOUBLE_FAULT_IST_INDEX\<rparr>,
     page_fault = Some (handler_entry page_fault_handler),
     general_protection_fault = Some (handler_entry general_protection_handler),
     interrupts = Map.empty(as_u8 Timer \<mapsto> handler_entry timer_handler_fn,
                            as_u8 Keyboard \<mapsto> handler_entry keyboard_handler_fn)\<rparr>"

text \<open>The vector that the remapped controllers raise for an interrupt line.\<close>

definition irq_vector :: "nat \<Rightarrow> u8" where
  "irq_vector irq = (if irq < 8 then PIC_1_OFFSET + of_nat irq else PIC_2_OFFSET + of_nat (irq - 8))"

section \<open>Sequences of interrupts\<close>

datatype irq_event = Tick | Key u8

fun irq_run ::
  "(u8 \<Rightarrow> 'pic \<Rightarrow> 'pic) \<Rightarrow> irq_event list \<Rightarrow> 'pic irq_state \<Rightarrow> panic + 'pic irq_state" where
  "irq_run notify [] s = Inr s"
| "irq_run notify (Tick # es) s = irq_run notify es (timer_handler notify s)"
| "irq_run notify (Key c # es) s =
     (case keyboard_handler notify c s of Inl e \<Rightarrow> Inl e | Inr s' \<Rightarrow> irq_run notify es s')"

fun event_vector :: "irq_event \<Rightarrow> u8" where
  "event_vector Tick = as_u8 Timer"
| "event_vector (Key c) = as_u8 Keyboard"

fun event_keys :: "irq_event list \<Rightarrow> u8 list" where
  "event_keys [] = []"
| "event_keys (Tick # es) = event_keys es"
| "event_keys (Key c # es) = c # event_keys es"

fun event_ticks :: "irq_event list \<Rightarrow> nat" where
  "event_ticks [] = 0"
| "event_ticks (Tick # es) = Suc (event_ticks es)"
| "event_ticks (Key c # es) = event_ticks es"

lemma irq_run_effect:
  assumes "kbd_inv (kbd_buffer s)"
  shows "\<exists>s'. irq_run notify es s = Inr s' \<and> ticks s' = ticks s + of_nat (event_ticks es) \<and>
    pics s' = fold notify (map event_vector es) (pics s) \<and> kbd_inv (kbd_buffer s') \<and>
    kbd_contents (kbd_buffer s') = fold (spec_put 63) (event_keys es) (kbd_contents (kbd_buffer s))"
  using assms
proof (induction es arbitrary: s rule: event_keys.induct)
  case 1
  then show ?case by simp
next
  case (2 es)
  have inv: "kbd_inv (kbd_buffer (timer_handler notify s))" using 2(2) by (simp add: timer_handler_def)
  show ?case using 2(1) [OF inv] by (simp add: timer_handler_def add.assoc)
next
  case (3 c es)
  obtain k where k: "add_scancode c (kbd_buffer s) = Inr k" "kbd_inv k"
      "kbd_contents k = spec_put 63 c (kbd_contents (kbd_buffer s))"
    using add_scancode_refines [OF 3(2)] by blast
  define t where "t = s\<lparr>kbd_buffer := k, pics := notify (as_u8 Keyboard) (pics s)\<rparr>"
  have "keyboard_handler notify c s = Inr t" by (simp add: keyboard_handler_def k t_def)
  moreover have "kbd_inv (kbd_buffer t)" using k by (simp add: t_def)
  ultimately show ?case using 3(1) [of t] k by (simp add: t_def)
qed

lemma fold_spec_put: "length xs \<le> n \<Longrightarrow> fold (spec_put n) ys xs = take n (xs @ ys)"
proof (induction ys arbitrary: xs)
  case Nil
  then show ?case by simp
next
  case (Cons y ys)
  then show ?case by (cases "length xs < n") (auto simp: spec_put_def take_Cons')
qed

section \<open>The lock of the keyboard buffer\<close>

text \<open>
  \<open>pop_scancode\<close> runs in kernel code inside \<open>without_interrupts\<close>; \<open>add_scancode\<close> runs
  in the keyboard interrupt. Both take the spinlock of the buffer, on one processor. A step is one
  action of the kernel (mask interrupts and remember whether they were enabled, take the lock, the
  body with the release, unmask) or of the interrupt (delivery, which the processor does only with
  interrupts enabled and which disables them, take the lock, the body with the release, return).
  While the interrupt is active the interrupted code does not move. Taking the lock is possible
  only when nobody holds it: a state in which the holder cannot move and the other spins has no
  step.
\<close>

datatype lock_owner = Main_Holds | Irq_Holds
datatype main_pc = Outside | Masked | Holding | Released
datatype irq_pc = Irq_Idle | Irq_Entered u8 | Irq_Holding u8 | Irq_Released

record lock_machine =
  intr_flag :: bool
  was_enabled :: bool
  lock_owner :: "lock_owner option"
  mpc :: main_pc
  ipc :: irq_pc
  shared_buffer :: KeyboardBuffer

definition lock_machine_start :: lock_machine where
  "lock_machine_start = \<lparr>intr_flag = True, was_enabled = False, lock_owner = None, mpc = Outside,
     ipc = Irq_Idle, shared_buffer = KEYBOARD_BUFFER\<rparr>"

inductive lock_step :: "lock_machine \<Rightarrow> lock_machine \<Rightarrow> bool" where
  pop_mask: "mpc s = Outside \<Longrightarrow> ipc s = Irq_Idle \<Longrightarrow>
    lock_step s (s\<lparr>was_enabled := intr_flag s, intr_flag := False, mpc := Masked\<rparr>)"
| pop_lock: "mpc s = Masked \<Longrightarrow> ipc s = Irq_Idle \<Longrightarrow> lock_owner s = None \<Longrightarrow>
    lock_step s (s\<lparr>lock_owner := Some Main_Holds, mpc := Holding\<rparr>)"
| pop_body: "mpc s = Holding \<Longrightarrow> ipc s = Irq_Idle \<Longrightarrow> pop_scancode (shared_buffer s) = Inr (r, k) \<Longrightarrow>
    lock_step s (s\<lparr>shared_buffer := k, lock_owner := None, mpc := Released\<rparr>)"
| pop_unmask: "mpc s = Released \<Longrightarrow> ipc s = Irq_Idle \<Longrightarrow>
    lock_step s (s\<lparr>intr_flag := was_enabled s, mpc := Outside\<rparr>)"
| irq_enter: "intr_flag s \<Longrightarrow> ipc s = Irq_Idle \<Longrightarrow>
    lock_step s (s\<lparr>intr_flag := False, ipc := Irq_Entered c\<rparr>)"
| irq_lock: "ipc s = Irq_Entered c \<Longrightarrow> lock_owner s = None \<Longrightarrow>
    lock_step s (s\<lparr>lock_owner := Some Irq_Holds, ipc := Irq_Holding c\<rparr>)"
| irq_body: "ipc s = Irq_Holding c \<Longrightarrow> add_scancode c (shared_buffer s) = Inr k \<Longrightarrow>
    lock_step s (s\<lparr>shared_buffer := k, lock_owner := None, ipc := Irq_Released\<rparr>)"
| irq_return: "ipc s = Irq_Released \<Longrightarrow>
    lock_step s (s\<lparr>intr_flag := True, ipc := Irq_Idle\<rparr>)"

inductive lock_reachable :: "lock_machine \<Rightarrow> bool" where
  lock_start: "lock_reachable lock_machine_start"
| lock_next: "lock_reachable s \<Longrightarrow> lock_step s t \<Longrightarrow> lock_reachable t"

definition lock_inv :: "lock_machine \<Rightarrow> bool" where
  "lock_inv s \<longleftrightarrow> (lock_owner s = Some Main_Holds \<longleftrightarrow> mpc s = Holding) \<and>
     (lock_owner s = Some Irq_Holds \<longleftrightarrow> (\<exists>c. ipc s = Irq_Holding c)) \<and>
     (mpc s \<noteq> Outside \<longrightarrow> \<not> intr_flag s \<and> ipc s = Irq_Idle) \<and>
     (ipc s \<noteq> Irq_Idle \<longrightarrow> \<not> intr_flag s \<and> mpc s = Outside) \<and>
     kbd_inv (shared_buffer s)"

lemma pop_scancode_inv: "pop_scancode k = Inr (r, k') \<Longrightarrow> kbd_inv k \<Longrightarrow> kbd_inv k'"
  using pop_scancode_refines [of k] by auto

lemma add_scancode_inv: "add_scancode c k = Inr k' \<Longrightarrow> kbd_inv k \<Longrightarrow> kbd_inv k'"
  using add_scancode_refines [of k c] by auto

lemma lock_step_inv: "lock_step s t \<Longrightarrow> lock_inv s \<Longrightarrow> lock_inv t"
  by (induction rule: lock_step.induct)
    (auto simp: lock_inv_def dest: pop_scancode_inv add_scancode_inv)

lemma lock_reachable_inv: "lock_reachable s \<Longrightarrow> lock_inv s"
proof (induction rule: lock_reachable.induct)
  case lock_start
  then show ?case using kbd.start_invar by (simp add: lock_inv_def lock_machine_start_def)
next
  case (lock_next s t)
  then show ?case by (blast intro: lock_step_inv)
qed

section \<open>Properties of the interrupt code\<close>

text \<open>C8. The keyboard buffer is a FIFO queue of 63 scancodes: for every sequence of
  \<open>add_scancode\<close> and \<open>pop_scancode\<close> calls from the empty buffer, no call panics and the
  values popped are those of the abstract bounded queue, which drops a scancode when 63 are
  pending.\<close>

theorem keyboard_buffer_fifo:
  "\<exists>k. queue_run add_scancode pop_scancode os KEYBOARD_BUFFER = Inr (fst (spec_run 63 os []), k) \<and>
     kbd_inv k \<and> kbd_contents k = snd (spec_run 63 os [])"
  by (rule kbd.run_from_start)

text \<open>For every sequence of timer and keyboard interrupts from the initial state, the handlers
  do not panic, the tick counter advances once per timer interrupt (modulo \<open>2 ^ 64\<close>), every
  interrupt is acknowledged once, in order and with its own vector, and the buffer holds the first
  63 scancodes.\<close>

theorem interrupts_handled:
  "\<exists>s'. irq_run notify es \<lparr>ticks = t, kbd_buffer = KEYBOARD_BUFFER, pics = p\<rparr> = Inr s' \<and>
     ticks s' = t + of_nat (event_ticks es) \<and> pics s' = fold notify (map event_vector es) p \<and>
     kbd_contents (kbd_buffer s') = take 63 (event_keys es)"
  using irq_run_effect [of "\<lparr>ticks = t, kbd_buffer = KEYBOARD_BUFFER, pics = p\<rparr>" notify es]
  by (auto simp: kbd.start_invar kbd.start_contents fold_spec_put)

text \<open>C35. An interrupt line is left open by the masks that \<open>LockedPics::initialize\<close> writes exactly
  when the descriptor table has a handler for its vector: no line without a handler can fire, and
  no handler is unreachable.\<close>

theorem unmasked_lines_have_handlers:
  assumes "irq < 16"
  shows "let (m1, m2) = pics_initialize initialize (\<lambda>m1 m2 p. (m1, m2)) p
    in \<not> bit (if irq < 8 then m1 else m2) (irq mod 8) \<longleftrightarrow> interrupts IDT (irq_vector irq) \<noteq> None"
proof -
  have "list_all (\<lambda>irq. \<not> bit (if irq < 8 then 0xFC else 0xFF :: u8) (irq mod 8) \<longleftrightarrow>
      interrupts IDT (irq_vector irq) \<noteq> None) [0..<16]"
    by code_simp
  then have "\<not> bit (if irq < 8 then 0xFC else 0xFF :: u8) (irq mod 8) \<longleftrightarrow>
      interrupts IDT (irq_vector irq) \<noteq> None"
    using assms unfolding list_all_iff by (elim bspec) simp
  then show ?thesis by (simp only: pics_initialize_def Let_def prod.case)
qed

theorem unmasked_lines_have_handlers_witness:
  "interrupts IDT (irq_vector 1) \<noteq> None \<and> interrupts IDT (irq_vector 12) = None"
  using unmasked_lines_have_handlers [of 1 "\<lambda>p. p" "(0, 0)"]
    unmasked_lines_have_handlers [of 12 "\<lambda>p. p" "(0, 0)"]
  by (simp add: pics_initialize_def bit_numeral_rec)

text \<open>The three port writes of \<open>init_timer\<close> select channel 0 in mode 3 with a two-byte
  divisor, and the two bytes put together give the divisor 1193, whose frequency is 1000 Hz to
  within one hertz.\<close>

theorem init_timer_divisor:
  "\<exists>lo hi. init_timer = [(0x43, 0x36), (0x40, lo), (0x40, hi)] \<and>
     unat hi * 256 + unat lo = 1193 \<and> unat PIT_FREQUENCY div (unat hi * 256 + unat lo) = 1000"
  by (simp add: init_timer_def PIT_FREQUENCY_def FREQUENCY_HZ_def)

text \<open>C28. The keyboard buffer's lock cannot deadlock: in every reachable state of kernel code and
  keyboard interrupt on one processor, the interrupt never finds the lock held by the code it
  interrupted, the two never hold it together, and whoever is inside its section can take its next
  step.\<close>

theorem keyboard_lock_no_deadlock:
  assumes "lock_reachable s"
  shows "(\<forall>c. ipc s = Irq_Entered c \<longrightarrow> lock_owner s = None) \<and>
    \<not> (mpc s = Holding \<and> (\<exists>c. ipc s = Irq_Holding c)) \<and>
    (mpc s \<noteq> Outside \<or> ipc s \<noteq> Irq_Idle \<longrightarrow> (\<exists>t. lock_step s t))"
proof -
  have inv: "lock_inv s" using assms by (rule lock_reachable_inv)
  have free: "lock_owner s = None" if "ipc s = Irq_Entered c \<or> mpc s = Masked" for c
  proof (cases "lock_owner s")
    case (Some a)
    then show ?thesis using inv that by (cases a) (auto simp: lock_inv_def)
  qed
  have kbd: "kbd_inv (shared_buffer s)" using inv by (simp add: lock_inv_def)
  have main: "\<exists>t. lock_step s t" if "mpc s \<noteq> Outside"
  proof -
    have idle: "ipc s = Irq_Idle" using inv that by (simp add: lock_inv_def)
    obtain r k where "pop_scancode (shared_buffer s) = Inr (r, k)"
      using pop_scancode_refines [OF kbd] by blast
    then show ?thesis
      using that idle free by (cases "mpc s") (auto intro: lock_step.intros)
  qed
  have irq: "\<exists>t. lock_step s t" if "ipc s \<noteq> Irq_Idle"
  proof (cases "ipc s")
    case (Irq_Holding c)
    obtain k where "add_scancode c (shared_buffer s) = Inr k" using add_scancode_refines [OF kbd] by blast
    then show ?thesis using Irq_Holding by (auto intro: lock_step.intros)
  qed (use that free in \<open>auto intro: lock_step.intros\<close>)
  have "\<not> (mpc s = Holding \<and> (\<exists>c. ipc s = Irq_Holding c))" using inv by (auto simp: lock_inv_def)
  then show ?thesis using free main irq by blast
qed

theorem keyboard_lock_no_deadlock_witness:
  "\<exists>s. lock_reachable s \<and> ipc s = Irq_Entered 28 \<and> lock_owner s = None"
proof -
  let ?s = "lock_machine_start\<lparr>intr_flag := False, ipc := Irq_Entered 28\<rparr>"
  have "lock_step lock_machine_start ?s"
    by (rule lock_step.irq_enter) (simp_all add: lock_machine_start_def)
  then have "lock_reachable ?s" by (rule lock_reachable.lock_next [OF lock_reachable.lock_start])
  then show ?thesis using keyboard_lock_no_deadlock [of ?s] by (intro exI [of _ ?s]) simp
qed

end
