(* ===== verification/X86_Machine.thy ===== *)
theory X86_Machine
  imports Memory
begin

text \<open>
  The part of the x86-64 processor that the kernel's assembly uses: the general registers, the
  byte memory as the stack, the segment registers, the flags, the model-specific registers behind
  \<open>syscall\<close> and \<open>sysret\<close>, and the instructions of the two assembly blocks
  (\<open>syscall_entry\<close> and \<open>enter_userspace\<close>), as the processor manuals define them. A program
  is a list of instructions without jumps, executed in order.
\<close>

datatype reg =
  RAX | RBX | RCX | RDX | RSI | RDI | RBP | RSP | R8 | R9 | R10 | R11 | R12 | R13 | R14 | R15

text \<open>The symbols that the assembly addresses relative to \<open>rip\<close>; the linker places them.\<close>

datatype asm_sym = TEMP_RSP | KERNEL_SYSCALL_STACK_TOP

record msrs =
  efer :: u64
  star_sysret :: u16
  star_syscall :: u16
  lstar :: u64
  sfmask :: u64

record cpu =
  regs :: "reg \<Rightarrow> u64"
  mem :: memory
  rip :: u64
  rflags :: u64
  cs :: u16
  ss :: u16
  ds :: u16
  es :: u16

datatype instr =
    Mov_Sym_Reg asm_sym reg
  | Lea_Reg_Sym reg asm_sym
  | Mov_Reg_Mem reg reg u64
  | Mov_Reg_Reg reg reg
  | Push_Sym asm_sym
  | Push reg
  | Push_Mem reg u64
  | Push_Val u64
  | Pop reg
  | Add_Imm reg u64
  | Xor_Self reg
  | Mov_Ds_Es u64
  | Call_Handler
  | Sysretq
  | Iretq

abbreviation set_reg :: "reg \<Rightarrow> u64 \<Rightarrow> cpu \<Rightarrow> cpu" where
  "set_reg r v c \<equiv> c\<lparr>regs := (regs c)(r := v)\<rparr>"

definition push :: "u64 \<Rightarrow> cpu \<Rightarrow> cpu" where
  "push v c = (let sp = regs c RSP - 8
     in c\<lparr>regs := (regs c)(RSP := sp), mem := store64 (mem c) sp v\<rparr>)"

definition pop_val :: "cpu \<Rightarrow> u64 \<times> cpu" where
  "pop_val c = (load64 (mem c) (regs c RSP), set_reg RSP (regs c RSP + 8) c)"

text \<open>\<open>sysretq\<close> takes the code selector from the upper part of STAR plus 16 and the stack
  selector plus 8, both with privilege level 3.\<close>

definition sysret_cs :: "msrs \<Rightarrow> u16" where
  "sysret_cs k = (star_sysret k + 16) OR 3"

definition sysret_ss :: "msrs \<Rightarrow> u16" where
  "sysret_ss k = (star_sysret k + 8) OR 3"

definition syscall_instr :: "msrs \<Rightarrow> cpu \<Rightarrow> cpu" where
  "syscall_instr k c = c\<lparr>regs := (regs c)(RCX := rip c, R11 := rflags c), rip := lstar k,
     rflags := rflags c AND NOT (sfmask k), cs := star_syscall k AND NOT 3, ss := star_syscall k + 8\<rparr>"

text \<open>One instruction. \<open>addr\<close> places the symbols; \<open>handler\<close> is the effect of the called
  function from its first instruction, with the return address on top of the stack, to its
  \<open>ret\<close>.\<close>

fun exec1 :: "(asm_sym \<Rightarrow> u64) \<Rightarrow> msrs \<Rightarrow> (cpu \<Rightarrow> cpu) \<Rightarrow> u64 \<Rightarrow> instr \<Rightarrow> cpu \<Rightarrow> cpu" where
  "exec1 addr k handler ret (Mov_Sym_Reg s r) c = c\<lparr>mem := store64 (mem c) (addr s) (regs c r)\<rparr>"
| "exec1 addr k handler ret (Lea_Reg_Sym r s) c = set_reg r (addr s) c"
| "exec1 addr k handler ret (Mov_Reg_Mem r b off) c = set_reg r (load64 (mem c) (regs c b + off)) c"
| "exec1 addr k handler ret (Mov_Reg_Reg r r') c = set_reg r (regs c r') c"
| "exec1 addr k handler ret (Push_Sym s) c = push (load64 (mem c) (addr s)) c"
| "exec1 addr k handler ret (Push r) c = push (regs c r) c"
| "exec1 addr k handler ret (Push_Mem b off) c = push (load64 (mem c) (regs c b + off)) c"
| "exec1 addr k handler ret (Push_Val v) c = push v c"
| "exec1 addr k handler ret (Pop r) c = (let (v, c') = pop_val c in set_reg r v c')"
| "exec1 addr k handler ret (Add_Imm r v) c = set_reg r (regs c r + v) c"
| "exec1 addr k handler ret (Xor_Self r) c = set_reg r 0 c"
| "exec1 addr k handler ret (Mov_Ds_Es v) c = c\<lparr>regs := (regs c)(RAX := (regs c RAX AND NOT 0xFFFF) OR (v AND 0xFFFF)),
     ds := ucast v, es := ucast v\<rparr>"
| "exec1 addr k handler ret Call_Handler c = snd (pop_val (handler (push ret c)))"
| "exec1 addr k handler ret Sysretq c = c\<lparr>rip := regs c RCX, rflags := regs c R11,
     cs := sysret_cs k, ss := sysret_ss k\<rparr>"
| "exec1 addr k handler ret Iretq c =
     (let (v_rip, c1) = pop_val c; (v_cs, c2) = pop_val c1; (v_rflags, c3) = pop_val c2;
          (v_rsp, c4) = pop_val c3; (v_ss, c5) = pop_val c4
      in set_reg RSP v_rsp (c5\<lparr>rip := v_rip, cs := ucast v_cs, rflags := v_rflags, ss := ucast v_ss\<rparr>))"

fun exec :: "(asm_sym \<Rightarrow> u64) \<Rightarrow> msrs \<Rightarrow> (cpu \<Rightarrow> cpu) \<Rightarrow> u64 \<Rightarrow> instr list \<Rightarrow> cpu \<Rightarrow> cpu" where
  "exec addr k handler ret [] c = c"
| "exec addr k handler ret (i # is) c = exec addr k handler ret is (exec1 addr k handler ret i c)"

lemma exec_append: "exec a k h r (xs @ ys) c = exec a k h r ys (exec a k h r xs c)"
  by (induction xs arbitrary: c) auto

section \<open>Stack contents\<close>

fun stack_has :: "memory \<Rightarrow> u64 \<Rightarrow> u64 list \<Rightarrow> bool" where
  "stack_has m sp [] = True"
| "stack_has m sp (v # vs) = (load64 m sp = v \<and> stack_has m (sp + 8) vs)"

text \<open>A stack with room: the \<open>n\<close> words from \<open>sp\<close> upwards do not wrap.\<close>

definition stack_room :: "u64 \<Rightarrow> nat \<Rightarrow> bool" where
  "stack_room sp n \<longleftrightarrow> unat sp + 8 * n \<le> 2 ^ 64"

lemma stack_room_Suc:
  assumes "stack_room sp (Suc n)" "0 < n"
  shows "stack_room (sp + 8) n" "unat (sp + 8) = unat sp + 8"
proof -
  have "unat sp + unat (8 :: u64) < 2 ^ 64" using assms by (simp add: stack_room_def)
  then show "unat (sp + 8) = unat sp + 8" by (subst unat_add_small) simp_all
  then show "stack_room (sp + 8) n" using assms(1) by (simp add: stack_room_def)
qed

lemma stack_has_cong:
  assumes "stack_has m sp vs" "stack_room sp (length vs)"
    and "\<And>a. in_range sp (8 * length vs) a \<Longrightarrow> m' a = m a"
  shows "stack_has m' sp vs"
  using assms
proof (induction vs arbitrary: sp)
  case Nil
  then show ?case by simp
next
  case (Cons v vs)
  have n: "8 * Suc (length vs) \<le> 2 ^ 64" using Cons.prems(2) by (simp add: stack_room_def)
  have "load64 m' sp = load64 m sp"
    unfolding load64_def using Cons.prems(3) n
    by (intro arg_cong [where f = le_word] load_bytes_cong) (simp add: in_range_def unat_of_nat_small)
  moreover have "stack_has m' (sp + 8) vs"
  proof (cases "vs = []")
    case False
    then have s: "stack_room (sp + 8) (length vs)" "unat (sp + 8) = unat sp + 8"
      using stack_room_Suc [of sp "length vs"] Cons.prems(2) by auto
    have "in_range sp (8 * length (v # vs)) a" if "in_range (sp + 8) (8 * length vs) a" for a
      using that s Cons.prems(2) by (auto simp: in_range_iff stack_room_def)
    then show ?thesis using Cons s by (intro Cons.IH) auto
  qed simp
  ultimately show ?case using Cons.prems(1) by simp
qed

lemma stack_has_store_below:
  assumes "stack_has m sp vs" "stack_room sp (length vs)" "8 \<le> unat sp"
  shows "stack_has (store64 m (sp - 8) w) sp vs"
proof (rule stack_has_cong [OF assms(1,2)])
  fix a assume a: "in_range sp (8 * length vs) a"
  have "unat (sp - 8) = unat sp - 8" using assms(3) by (simp add: unat_sub_small word_le_nat_alt)
  then have "\<not> in_range (sp - 8) 8 a"
    using a assms(2,3) unat_lt_64 [of sp] by (auto simp: in_range_iff stack_room_def)
  then show "store64 m (sp - 8) w a = m a" by (rule store64_out)
qed

lemma stack_has_push:
  assumes "stack_has m sp vs" "stack_room sp (length vs)" "8 \<le> unat sp"
  shows "stack_has (store64 m (sp - 8) w) (sp - 8) (w # vs)"
  using stack_has_store_below [OF assms] by simp

lemma stack_room_down: "8 \<le> unat sp \<Longrightarrow> stack_room sp n \<Longrightarrow> stack_room (sp - 8) (Suc n)"
  by (simp add: stack_room_def unat_sub_small word_le_nat_alt)

lemma stack_has_append:
  "stack_has m sp (xs @ ys) \<longleftrightarrow> stack_has m sp xs \<and> stack_has m (sp + 8 * of_nat (length xs)) ys"
  by (induction xs arbitrary: sp) (auto simp: algebra_simps)

lemma stack_has_nth:
  "stack_has m sp vs \<Longrightarrow> i < length vs \<Longrightarrow> load64 m (sp + 8 * of_nat i) = vs ! i"
proof (induction vs arbitrary: sp i)
  case (Cons v vs)
  show ?case
  proof (cases i)
    case (Suc j)
    have "sp + 8 * of_nat i = sp + 8 + 8 * (of_nat j :: u64)" by (simp add: Suc algebra_simps)
    then show ?thesis using Cons.IH [of "sp + 8" j] Cons.prems by (simp add: Suc add.assoc)
  qed (use Cons.prems in simp)
qed simp

section \<open>Runs of pushes and pops\<close>

lemma exec_pushes:
  assumes "RSP \<notin> set rs" "stack_has (mem c) (regs c RSP) vs" "stack_room (regs c RSP) (length vs)"
    and "8 * length rs \<le> unat (regs c RSP)"
  shows "let c' = exec a k h r (map Push rs) c in
    regs c' = (regs c)(RSP := regs c RSP - 8 * of_nat (length rs)) \<and>
    stack_has (mem c') (regs c' RSP) (rev (map (regs c) rs) @ vs) \<and>
    stack_room (regs c' RSP) (length rs + length vs) \<and>
    (\<forall>x. unat (regs c RSP) \<le> unat x \<or> unat x < unat (regs c RSP) - 8 * length rs \<longrightarrow> mem c' x = mem c x)"
  using assms
proof (induction rs arbitrary: c vs)
  case Nil
  then show ?case by simp
next
  case (Cons x rs)
  let ?sp = "regs c RSP" and ?c = "push (regs c x) c"
  have ge: "8 \<le> unat ?sp" using Cons.prems(4) by simp
  have un: "unat (?sp - 8) = unat ?sp - 8" using ge by (simp add: unat_sub_small word_le_nat_alt)
  have regs': "regs ?c = (regs c)(RSP := ?sp - 8)" and mem': "mem ?c = store64 (mem c) (?sp - 8) (regs c x)"
    by (simp_all add: push_def Let_def)
  have st: "stack_has (mem ?c) (regs ?c RSP) (regs c x # vs)"
    unfolding mem' regs' fun_upd_same using Cons.prems(2,3) ge by (intro stack_has_push)
  have room: "stack_room (regs ?c RSP) (length (regs c x # vs))"
    using stack_room_down [OF ge Cons.prems(3)] by (simp add: regs')
  have out: "mem ?c y = mem c y" if "unat ?sp \<le> unat y \<or> unat y < unat ?sp - 8" for y
    unfolding mem' using that un ge unat_lt_64 [of ?sp] by (intro store64_out) (auto simp: in_range_iff)
  have sel: "map (regs ?c) rs = map (regs c) rs" using Cons.prems(1) by (auto simp: regs')
  have len: "8 * length rs \<le> unat (regs ?c RSP)" using Cons.prems(4) un by (simp add: regs')
  have nr: "RSP \<notin> set rs" using Cons.prems(1) by simp
  let ?c' = "exec a k h r (map Push rs) ?c"
  have IH: "regs ?c' = (regs ?c)(RSP := regs ?c RSP - 8 * of_nat (length rs))"
      "stack_has (mem ?c') (regs ?c' RSP) (rev (map (regs c) rs) @ regs c x # vs)"
      "stack_room (regs ?c' RSP) (length rs + length (regs c x # vs))"
      "\<forall>y. unat (regs ?c RSP) \<le> unat y \<or> unat y < unat (regs ?c RSP) - 8 * length rs \<longrightarrow> mem ?c' y = mem ?c y"
    using Cons.IH [OF nr st room len, unfolded Let_def sel] by blast+
  have step: "exec a k h r (map Push (x # rs)) c = ?c'" by simp
  have "regs ?c' = (regs c)(RSP := ?sp - 8 * of_nat (length (x # rs)))"
    unfolding IH(1) regs' by (simp add: algebra_simps)
  moreover have "mem ?c' y = mem c y" if "unat ?sp \<le> unat y \<or> unat y < unat ?sp - 8 * length (x # rs)" for y
  proof -
    have "mem ?c y = mem c y" by (rule out) (use that in auto)
    then show ?thesis using that IH(4) un by (auto simp: regs')
  qed
  moreover have "rev (map (regs c) (x # rs)) @ vs = rev (map (regs c) rs) @ regs c x # vs"
      "length (x # rs) + length vs = length rs + length (regs c x # vs)" by simp_all
  ultimately show ?case
    unfolding step Let_def using IH(2,3) by metis
qed

lemma exec_pops:
  assumes "RSP \<notin> set rs" "distinct rs" "stack_has (mem c) (regs c RSP) (vs @ ws)" "length vs = length rs"
  shows "let c' = exec a k h r (map Pop rs) c in
    (\<forall>q. regs c' q = (case map_of (zip rs vs) q of Some v \<Rightarrow> v
             | None \<Rightarrow> if q = RSP then regs c RSP + 8 * of_nat (length rs) else regs c q)) \<and>
    mem c' = mem c \<and> stack_has (mem c) (regs c RSP + 8 * of_nat (length rs)) ws"
  using assms
proof (induction rs arbitrary: c vs)
  case Nil
  then show ?case by (simp add: Let_def)
next
  case (Cons x rs)
  then obtain v vs' where vs: "vs = v # vs'" "length vs' = length rs" by (cases vs) auto
  let ?c = "set_reg x v (set_reg RSP (regs c RSP + 8) c)"
  have "exec1 a k h r (Pop x) c = ?c"
    using Cons.prems(3) by (simp add: pop_val_def vs(1))
  then have step: "exec a k h r (map Pop (x # rs)) c = exec a k h r (map Pop rs) ?c"
    by (simp only: list.map exec.simps)
  have x: "x \<noteq> RSP" "x \<notin> set rs" using Cons.prems by auto
  have st: "stack_has (mem ?c) (regs ?c RSP) (vs' @ ws)"
    using Cons.prems(3) x by (simp add: vs(1))
  let ?c' = "exec a k h r (map Pop rs) ?c"
  have IH: "\<forall>q. regs ?c' q = (case map_of (zip rs vs') q of Some v \<Rightarrow> v
             | None \<Rightarrow> if q = RSP then regs ?c RSP + 8 * of_nat (length rs) else regs ?c q)"
      "mem ?c' = mem c" "stack_has (mem c) (regs ?c RSP + 8 * of_nat (length rs)) ws"
    using Cons.IH [OF _ _ st vs(2)] Cons.prems(1,2) by (simp_all add: Let_def)
  have no: "map_of (zip rs vs') x = None"
    using x vs(2) by (auto simp: map_of_eq_None_iff dest: set_zip_leftD)
  have sp: "regs ?c RSP + 8 * of_nat (length rs) = regs c RSP + 8 * of_nat (length (x # rs))"
    using x by (simp add: algebra_simps)
  have "regs ?c' q = (case map_of (zip (x # rs) vs) q of Some v \<Rightarrow> v
             | None \<Rightarrow> if q = RSP then regs c RSP + 8 * of_nat (length (x # rs)) else regs c q)" for q
    unfolding spec [OF IH(1), of q] sp using x no by (auto simp: vs(1) split: option.splits)
  then show ?case using IH(2,3) unfolding step Let_def sp by blast
qed

end
