(* ===== verification/Syscall_Entry.thy ===== *)
theory Syscall_Entry
  imports X86_Machine
begin

text \<open>
  The system call path of \<open>kernel/src/syscalls.rs\<close> below the Rust handler: the model-specific
  registers and the kernel stack that \<open>init\<close> sets up, and the assembly of
  \<open>syscall_entry\<close>, instruction by instruction. The handler is the parameter \<open>handler\<close>; what
  the assembly relies on is the System V calling convention (\<open>sysv_callee\<close>). The theorems
  show that the user program gets back every register but RAX, that the handler sees the six
  arguments and the number in the order of its Rust signature, and how the stack is aligned at
  the call.
\<close>

definition syscall_entry :: "instr list" where
  "syscall_entry =
    [Mov_Sym_Reg TEMP_RSP RSP,
     Lea_Reg_Sym RSP KERNEL_SYSCALL_STACK_TOP,
     Mov_Reg_Mem RSP RSP 0,
     Push_Sym TEMP_RSP,
     Push RCX, Push R11,
     Push RDI, Push RSI, Push RDX, Push R10, Push R8, Push R9,
     Push RBX, Push RBP, Push R12, Push R13, Push R14, Push R15,
     Mov_Reg_Reg RDI RAX,
     Mov_Reg_Mem RSI RSP 88,
     Mov_Reg_Mem RDX RSP 80,
     Mov_Reg_Mem RCX RSP 72,
     Mov_Reg_Mem R8 RSP 64,
     Mov_Reg_Mem R9 RSP 56,
     Push_Mem RSP 48,
     Call_Handler,
     Add_Imm RSP 8,
     Pop R15, Pop R14, Pop R13, Pop R12, Pop RBP, Pop RBX,
     Pop R9, Pop R8, Pop R10, Pop RDX, Pop RSI, Pop RDI,
     Pop R11, Pop RCX, Pop RSP,
     Sysretq]"

text \<open>The state in which the Rust handler starts: the instructions of \<open>syscall_entry\<close> before the call have run,
  and the call has pushed its return address.\<close>

definition handler_state :: "(asm_sym \<Rightarrow> u64) \<Rightarrow> msrs \<Rightarrow> (cpu \<Rightarrow> cpu) \<Rightarrow> u64 \<Rightarrow> cpu \<Rightarrow> cpu" where
  "handler_state addr k h ret c = push ret (exec addr k h ret (takeWhile (\<lambda>i. i \<noteq> Call_Handler) syscall_entry) c)"

text \<open>\<open>init_syscall_stack\<close>: the top is 8 bytes below the end of the 16 KiB array.\<close>

definition init_syscall_stack :: "(asm_sym \<Rightarrow> u64) \<Rightarrow> u64 \<Rightarrow> memory \<Rightarrow> memory" where
  "init_syscall_stack addr stack_ptr m =
     store64 m (addr KERNEL_SYSCALL_STACK_TOP) (stack_ptr + 16384 - 8)"

text \<open>The state that \<open>syscalls::init\<close> writes: the loader's \<open>HHDM_OFFSET\<close>, the stack top
  and the model-specific registers. The bits of EFER and RFLAGS are those of the processor
  manuals: SCE is bit 0, TF bit 8, IF bit 9. \<open>VirtAddr::new\<close> of the \<open>x86_64\<close> crate is the
  parameter \<open>virt_addr_new\<close>; \<open>None\<close> is its panic.\<close>

record syscall_env =
  HHDM_OFFSET :: u64
  env_mem :: memory
  env_msrs :: msrs

definition syscalls_init ::
  "(u64 \<Rightarrow> u64 option) \<Rightarrow> (asm_sym \<Rightarrow> u64) \<Rightarrow> u64 \<Rightarrow> u64 \<Rightarrow> u64 \<Rightarrow> syscall_env \<Rightarrow> panic + syscall_env" where
  "syscalls_init virt_addr_new addr stack_ptr entry hhdm_offset s =
     (let s1 = s\<lparr>HHDM_OFFSET := hhdm_offset,
                 env_mem := init_syscall_stack addr stack_ptr (env_mem s)\<rparr>;
          k = env_msrs s;
          sysret_base = 0x10 OR 3;
          syscall_base = 0x08
      in case virt_addr_new entry of
           None \<Rightarrow> Inl (Panic ''VirtAddr::new'')
         | Some v \<Rightarrow> Inr (s1\<lparr>env_msrs := k\<lparr>efer := efer k OR 1, star_sysret := sysret_base,
             star_syscall := syscall_base, lstar := v, sfmask := 0x200 OR 0x100\<rparr>\<rparr>))"

section \<open>The calling convention\<close>

definition callee_saved :: "reg list" where
  "callee_saved = [RBX, RBP, RSP, R12, R13, R14, R15]"

text \<open>The called function gives back the callee-saved registers and does not write the caller's
  frame: the bytes above its return address and its stack argument, up to the stack's top.\<close>

definition sysv_callee :: "u64 \<Rightarrow> (cpu \<Rightarrow> cpu) \<Rightarrow> bool" where
  "sysv_callee tos h \<longleftrightarrow> (\<forall>c. (\<forall>r \<in> set callee_saved. regs (h c) r = regs c r) \<and>
     (\<forall>a. unat (regs c RSP) + 16 \<le> unat a \<and> unat a < unat tos \<longrightarrow> mem (h c) a = mem c a))"

text \<open>The kernel stack has room for the frame, and the two symbols lie outside it.\<close>

definition entry_stack_ok :: "(asm_sym \<Rightarrow> u64) \<Rightarrow> memory \<Rightarrow> bool" where
  "entry_stack_ok addr m \<longleftrightarrow>
     136 \<le> unat (load64 m (addr KERNEL_SYSCALL_STACK_TOP)) \<and>
     apart (addr TEMP_RSP) 8 (addr KERNEL_SYSCALL_STACK_TOP) 8"

definition saved_regs :: "reg list" where
  "saved_regs = [RCX, R11, RDI, RSI, RDX, R10, R8, R9, RBX, RBP, R12, R13, R14, R15]"

lemma syscall_entry_parts:
  "syscall_entry = [Mov_Sym_Reg TEMP_RSP RSP, Lea_Reg_Sym RSP KERNEL_SYSCALL_STACK_TOP, Mov_Reg_Mem RSP RSP 0,
       Push_Sym TEMP_RSP] @ map Push saved_regs @
     [Mov_Reg_Reg RDI RAX, Mov_Reg_Mem RSI RSP 88, Mov_Reg_Mem RDX RSP 80, Mov_Reg_Mem RCX RSP 72,
       Mov_Reg_Mem R8 RSP 64, Mov_Reg_Mem R9 RSP 56, Push_Mem RSP 48] @ [Call_Handler, Add_Imm RSP 8] @
     map Pop (rev saved_regs) @ [Pop RSP, Sysretq]"
  by (simp add: syscall_entry_def saved_regs_def)

section \<open>The three phases\<close>

lemma entry_prologue:
  fixes k h ret
  assumes ok: "entry_stack_ok addr (mem c)"
  defines "tos \<equiv> load64 (mem c) (addr KERNEL_SYSCALL_STACK_TOP)"
  defines "c1 \<equiv> exec addr k h ret ([Mov_Sym_Reg TEMP_RSP RSP, Lea_Reg_Sym RSP KERNEL_SYSCALL_STACK_TOP,
       Mov_Reg_Mem RSP RSP 0, Push_Sym TEMP_RSP] @ map Push saved_regs) c"
  shows "regs c1 = (regs c)(RSP := tos - 120)"
    and "stack_has (mem c1) (tos - 120) (rev (map (regs c) saved_regs) @ [regs c RSP])"
proof -
  let ?m = "store64 (mem c) (addr TEMP_RSP) (regs c RSP)"
  let ?c = "push (load64 ?m (addr TEMP_RSP)) (set_reg RSP tos (c\<lparr>mem := ?m\<rparr>))"
  have tos: "136 \<le> unat tos" using ok by (simp add: entry_stack_ok_def tos_def)
  have "load64 ?m (addr KERNEL_SYSCALL_STACK_TOP) = tos"
    using ok by (simp add: entry_stack_ok_def tos_def load64_store64_apart)
  then have pre: "exec addr k h ret [Mov_Sym_Reg TEMP_RSP RSP, Lea_Reg_Sym RSP KERNEL_SYSCALL_STACK_TOP,
      Mov_Reg_Mem RSP RSP 0, Push_Sym TEMP_RSP] c = ?c" by simp
  have rc: "regs ?c = (regs c)(RSP := tos - 8)" by (simp add: push_def Let_def)
  have un: "unat (tos - 8) = unat tos - 8" using tos by (simp add: unat_sub_small word_le_nat_alt)
  have st: "stack_has (mem ?c) (regs ?c RSP) [regs c RSP]" by (simp add: push_def Let_def)
  have room: "stack_room (regs ?c RSP) (length [regs c RSP])"
    using un tos unat_lt_64 [of tos] unfolding rc by (simp add: stack_room_def)
  have len: "8 * length saved_regs \<le> unat (regs ?c RSP)" using un tos unfolding rc by (simp add: saved_regs_def)
  have no: "RSP \<notin> set saved_regs" by (simp add: saved_regs_def)
  have sel: "map (regs ?c) saved_regs = map (regs c) saved_regs" unfolding rc by (simp add: saved_regs_def)
  have c1: "c1 = exec addr k h ret (map Push saved_regs) ?c"
    unfolding c1_def exec_append pre ..
  note run = exec_pushes [OF no st room len, of addr k h ret, folded c1, unfolded Let_def sel]
  have "8 * of_nat (length saved_regs) = (112 :: u64)" by (simp add: saved_regs_def)
  then have r: "regs c1 = (regs c)(RSP := tos - 120)" using run unfolding rc by simp
  then show "regs c1 = (regs c)(RSP := tos - 120)" .
  show "stack_has (mem c1) (tos - 120) (rev (map (regs c) saved_regs) @ [regs c RSP])"
    using run r by simp
qed

text \<open>Between prologue and epilogue: arguments, call, cleanup. \<open>entry_call c\<close> is the state in which
  the handler starts.\<close>

definition entry_call :: "u64 \<Rightarrow> cpu \<Rightarrow> cpu" where
  "entry_call ret c = push ret (push (load64 (mem c) (regs c RSP + 48))
     (c\<lparr>regs := (regs c)(RDI := regs c RAX, RSI := load64 (mem c) (regs c RSP + 88),
        RDX := load64 (mem c) (regs c RSP + 80), RCX := load64 (mem c) (regs c RSP + 72),
        R8 := load64 (mem c) (regs c RSP + 64), R9 := load64 (mem c) (regs c RSP + 56))\<rparr>))"

lemma entry_call_exec:
  "exec addr k h ret ([Mov_Reg_Reg RDI RAX, Mov_Reg_Mem RSI RSP 88, Mov_Reg_Mem RDX RSP 80,
     Mov_Reg_Mem RCX RSP 72, Mov_Reg_Mem R8 RSP 64, Mov_Reg_Mem R9 RSP 56, Push_Mem RSP 48] @
     [Call_Handler, Add_Imm RSP 8]) c =
   set_reg RSP (regs (h (entry_call ret c)) RSP + 16) (h (entry_call ret c))"
  by (simp add: entry_call_def pop_val_def add.commute)

lemma entry_call_stack:
  assumes st: "stack_has (mem c) (regs c RSP) vs" "stack_room (regs c RSP) (length vs)" "16 \<le> unat (regs c RSP)"
    and tos: "unat (regs c RSP) + 8 * length vs \<le> unat tos"
    and h: "sysv_callee tos h"
  shows "regs (entry_call ret c) RSP = regs c RSP - 16"
    and "stack_has (mem (entry_call ret c)) (regs c RSP) vs"
    and "stack_has (mem (h (entry_call ret c))) (regs c RSP) vs"
    and "regs (h (entry_call ret c)) RSP + 16 = regs c RSP"
proof -
  let ?sp = "regs c RSP"
  have un: "unat (?sp - 8) = unat ?sp - 8" "unat (?sp - 16) = unat ?sp - 16"
    using st(3) by (auto simp: unat_sub_small word_le_nat_alt)
  define a6 where "a6 = load64 (mem c) (?sp + 48)"
  have "stack_has (store64 (mem c) (?sp - 8) a6) (?sp - 8) (a6 # vs)"
    using st by (intro stack_has_push) auto
  moreover have "stack_room (?sp - 8) (length (a6 # vs))"
    using stack_room_down [of ?sp "length vs"] st by simp
  moreover have "8 \<le> unat (?sp - 8)" using un st(3) by simp
  ultimately have "stack_has (store64 (store64 (mem c) (?sp - 8) a6) (?sp - 8 - 8) ret) (?sp - 8) (a6 # vs)"
    by (rule stack_has_store_below)
  then show 2: "stack_has (mem (entry_call ret c)) ?sp vs"
    by (simp add: entry_call_def push_def Let_def a6_def)
  show 1: "regs (entry_call ret c) RSP = ?sp - 16"
    by (simp add: entry_call_def push_def Let_def)
  show "stack_has (mem (h (entry_call ret c))) ?sp vs"
  proof (rule stack_has_cong [OF 2 st(2)])
    fix a assume "in_range ?sp (8 * length vs) a"
    then have "unat ?sp \<le> unat a" "unat a < unat tos"
      using st(2) tos by (auto simp: in_range_iff stack_room_def)
    then show "mem (h (entry_call ret c)) a = mem (entry_call ret c) a"
      using h un st(3) by (simp add: sysv_callee_def 1)
  qed
  show "regs (h (entry_call ret c)) RSP + 16 = ?sp"
    using h 1 by (simp add: sysv_callee_def callee_saved_def)
qed

lemma map_of_saved:
  "map_of (zip (rev saved_regs) (rev (map f saved_regs))) q = (if q \<in> set saved_regs then Some (f q) else None)"
proof -
  have "zip (rev saved_regs) (rev (map f saved_regs)) = map (\<lambda>r. (r, f r)) (rev saved_regs)"
    by (simp add: saved_regs_def)
  then show ?thesis by (simp add: map_of_map_restrict restrict_map_def)
qed

lemma entry_epilogue:
  fixes addr k h ret
  assumes st: "stack_has (mem c) (regs c RSP) (rev (map f saved_regs) @ [usp])"
  defines "c' \<equiv> exec addr k h ret (map Pop (rev saved_regs) @ [Pop RSP, Sysretq]) c"
  shows "regs c' q = (if q = RSP then usp else if q \<in> set saved_regs then f q else regs c q)"
    and "rip c' = f RCX" "rflags c' = f R11" "cs c' = sysret_cs k" "ss c' = sysret_ss k" "mem c' = mem c"
proof -
  let ?d = "exec addr k h ret (map Pop (rev saved_regs)) c"
  have no: "RSP \<notin> set (rev saved_regs)" "distinct (rev saved_regs)"
      "length (rev (map f saved_regs)) = length (rev saved_regs)"
    by (simp_all add: saved_regs_def)
  note run = exec_pops [OF no(1,2) st no(3), of addr k h ret, unfolded Let_def map_of_saved]
  have usp: "load64 (mem ?d) (regs ?d RSP) = usp" using run no(1) by simp
  have rd: "regs ?d q = (if q \<in> set saved_regs then f q else regs c q)" if "q \<noteq> RSP" for q
    using run that by simp
  have c': "c' = exec addr k h ret [Pop RSP, Sysretq] ?d" by (simp only: c'_def exec_append)
  have "RCX \<in> set saved_regs" "R11 \<in> set saved_regs" by (simp_all add: saved_regs_def)
  then show "regs c' q = (if q = RSP then usp else if q \<in> set saved_regs then f q else regs c q)"
    "rip c' = f RCX" "rflags c' = f R11" "cs c' = sysret_cs k" "ss c' = sysret_ss k" "mem c' = mem c"
    using usp rd run by (simp_all add: c' pop_val_def)
qed

section \<open>The whole path\<close>

lemma handler_state_eq:
  "handler_state addr k h ret c = entry_call ret (exec addr k h ret
     ([Mov_Sym_Reg TEMP_RSP RSP, Lea_Reg_Sym RSP KERNEL_SYSCALL_STACK_TOP, Mov_Reg_Mem RSP RSP 0,
       Push_Sym TEMP_RSP] @ map Push saved_regs) c)"
proof -
  have "takeWhile (\<lambda>i. i \<noteq> Call_Handler) syscall_entry =
      ([Mov_Sym_Reg TEMP_RSP RSP, Lea_Reg_Sym RSP KERNEL_SYSCALL_STACK_TOP, Mov_Reg_Mem RSP RSP 0,
        Push_Sym TEMP_RSP] @ map Push saved_regs) @
      [Mov_Reg_Reg RDI RAX, Mov_Reg_Mem RSI RSP 88, Mov_Reg_Mem RDX RSP 80, Mov_Reg_Mem RCX RSP 72,
        Mov_Reg_Mem R8 RSP 64, Mov_Reg_Mem R9 RSP 56, Push_Mem RSP 48]"
    by (simp add: syscall_entry_def saved_regs_def)
  moreover have "push ret (exec addr k h ret [Mov_Reg_Reg RDI RAX, Mov_Reg_Mem RSI RSP 88, Mov_Reg_Mem RDX RSP 80,
      Mov_Reg_Mem RCX RSP 72, Mov_Reg_Mem R8 RSP 64, Mov_Reg_Mem R9 RSP 56, Push_Mem RSP 48] d) = entry_call ret d" for d
    by (simp add: entry_call_def)
  ultimately show ?thesis by (simp only: handler_state_def exec_append)
qed

lemma length_frame: "length (rev (map f saved_regs) @ [u]) = 15"
  by (simp add: saved_regs_def)

lemma syscall_entry_run:
  fixes k ret
  assumes ok: "entry_stack_ok addr (mem c)"
    and h: "sysv_callee (load64 (mem c) (addr KERNEL_SYSCALL_STACK_TOP)) h"
  defines "c' \<equiv> exec addr k h ret syscall_entry c"
  shows "q \<noteq> RAX \<Longrightarrow> regs c' q = regs c q"
    and "regs c' RAX = regs (h (handler_state addr k h ret c)) RAX"
    and "rip c' = regs c RCX" "rflags c' = regs c R11" "cs c' = sysret_cs k" "ss c' = sysret_ss k"
    and "mem c' = mem (h (handler_state addr k h ret c))"
    and "stack_has (mem (handler_state addr k h ret c)) (regs (handler_state addr k h ret c) RSP + 16)
           (rev (map (regs c) saved_regs) @ [regs c RSP])"
    and "regs (handler_state addr k h ret c) RSP = load64 (mem c) (addr KERNEL_SYSCALL_STACK_TOP) - 136"
proof -
  define tos where "tos = load64 (mem c) (addr KERNEL_SYSCALL_STACK_TOP)"
  define c1 where "c1 = exec addr k h ret ([Mov_Sym_Reg TEMP_RSP RSP, Lea_Reg_Sym RSP KERNEL_SYSCALL_STACK_TOP,
     Mov_Reg_Mem RSP RSP 0, Push_Sym TEMP_RSP] @ map Push saved_regs) c"
  let ?vs = "rev (map (regs c) saved_regs) @ [regs c RSP]"
  let ?hs = "entry_call ret c1"
  have hs: "handler_state addr k h ret c = ?hs" by (simp only: handler_state_eq c1_def)
  note pro = entry_prologue [OF ok, of k h ret, folded tos_def c1_def]
  have tos: "136 \<le> unat tos" using ok by (simp add: entry_stack_ok_def tos_def)
  have un: "unat (tos - 120) = unat tos - 120" using tos by (simp add: unat_sub_small word_le_nat_alt)
  have sp: "regs c1 RSP = tos - 120" using pro(1) by simp
  have st: "stack_has (mem c1) (regs c1 RSP) ?vs" using pro(2) by (simp add: sp)
  have room: "stack_room (regs c1 RSP) (length ?vs)"
    unfolding length_frame sp stack_room_def using un tos unat_lt_64 [of tos] by simp
  have "16 \<le> unat (regs c1 RSP)" "unat (regs c1 RSP) + 8 * length ?vs \<le> unat tos"
    unfolding length_frame sp using un tos by simp_all
  note mid = entry_call_stack [OF st room this h [folded tos_def], of ret]
  define c2 where "c2 = set_reg RSP (regs (h ?hs) RSP + 16) (h ?hs)"
  have st2: "stack_has (mem c2) (regs c2 RSP) ?vs" using mid(3,4) by (simp add: c2_def)
  have c': "c' = exec addr k h ret (map Pop (rev saved_regs) @ [Pop RSP, Sysretq]) c2"
    unfolding c'_def c2_def c1_def syscall_entry_parts
    by (simp only: exec_append entry_call_exec [unfolded exec_append])
  note epi = entry_epilogue [OF st2, of addr k h ret, folded c']
  show "q \<noteq> RAX \<Longrightarrow> regs c' q = regs c q"
    by (cases q) (simp_all add: epi(1) saved_regs_def)
  show "regs c' RAX = regs (h (handler_state addr k h ret c)) RAX"
    by (simp add: epi(1) saved_regs_def hs c2_def)
  show "rip c' = regs c RCX" "rflags c' = regs c R11" "cs c' = sysret_cs k" "ss c' = sysret_ss k"
    "mem c' = mem (h (handler_state addr k h ret c))"
    by (simp_all add: epi hs c2_def)
  show "stack_has (mem (handler_state addr k h ret c)) (regs (handler_state addr k h ret c) RSP + 16) ?vs"
    using mid(1,2) by (simp add: hs)
  show "regs (handler_state addr k h ret c) RSP = tos - 136" using mid(1) by (simp add: hs sp)
qed

section \<open>Properties of the system call path\<close>

text \<open>C6. A system call gives the user program back its own state: from \<open>syscall\<close> through
  \<open>syscall_entry\<close> to \<open>sysretq\<close>, for every handler that keeps the calling convention, the
  program continues after the call with its flags, its stack pointer and all general registers but
  RAX, RCX and R11 unchanged; RAX holds the handler's result.\<close>

theorem syscall_preserves_user_state:
  assumes "entry_stack_ok addr (mem u)"
    and "sysv_callee (load64 (mem u) (addr KERNEL_SYSCALL_STACK_TOP)) h"
    and "c' = exec addr k h ret syscall_entry (syscall_instr k u)"
  shows "(\<forall>r. r \<notin> {RAX, RCX, R11} \<longrightarrow> regs c' r = regs u r) \<and> rip c' = rip u \<and> rflags c' = rflags u \<and>
    regs c' RAX = regs (h (handler_state addr k h ret (syscall_instr k u))) RAX \<and>
    cs c' = sysret_cs k \<and> ss c' = sysret_ss k"
proof -
  have "entry_stack_ok addr (mem (syscall_instr k u))"
    "sysv_callee (load64 (mem (syscall_instr k u)) (addr KERNEL_SYSCALL_STACK_TOP)) h"
    using assms(1,2) by (simp_all add: syscall_instr_def)
  note run = syscall_entry_run [OF this, where k = k and ret = ret, folded assms(3)]
  show ?thesis using run(2-6) by (auto simp: run(1)) (auto simp: syscall_instr_def)
qed

text \<open>A machine whose handler stores 42 in RAX and whose kernel stack ends at 0x9000.\<close>

definition ex_addr :: "asm_sym \<Rightarrow> u64" where
  "ex_addr s = (case s of TEMP_RSP \<Rightarrow> 0x100 | KERNEL_SYSCALL_STACK_TOP \<Rightarrow> 0x108)"

definition ex_user :: cpu where
  "ex_user = \<lparr>regs = (\<lambda>r. if r = R12 then 7 else 1), mem = store64 (\<lambda>_. 0) 0x108 0x9000, rip = 0x401000,
     rflags = 0x202, cs = 0x23, ss = 0x1B, ds = 0x1B, es = 0x1B\<rparr>"

definition ex_msrs :: msrs where
  "ex_msrs = \<lparr>efer = 1, star_sysret = 0x13, star_syscall = 8, lstar = 0x1000, sfmask = 0x300\<rparr>"

lemma ex_entry_ok: "entry_stack_ok ex_addr (mem ex_user)"
  by (simp add: entry_stack_ok_def ex_addr_def ex_user_def apart_def)

lemma ex_handler_ok: "sysv_callee tos (set_reg RAX 42)"
  by (simp add: sysv_callee_def callee_saved_def)

theorem syscall_preserves_user_state_witness:
  "let c' = exec ex_addr ex_msrs (set_reg RAX 42) 0x2000 syscall_entry (syscall_instr ex_msrs ex_user)
   in regs c' R12 = 7 \<and> regs c' RAX = 42 \<and> rip c' = 0x401000 \<and> cs c' = 0x23"
  using syscall_preserves_user_state [OF ex_entry_ok ex_handler_ok refl, of ex_msrs "0x2000"]
  by (simp add: Let_def) (simp add: ex_user_def sysret_cs_def ex_msrs_def)

text \<open>C25. The handler is entered with the arguments of its Rust signature: the number (the user's
  RAX) in RDI, the six arguments (the user's RDI, RSI, RDX, R10, R8, R9) in RSI, RDX, RCX, R8, R9
  and in the first stack slot above the return address, when the instructions of \<open>syscall_entry\<close> up to the call have run.\<close>

theorem syscall_handler_arguments:
  assumes "entry_stack_ok addr (mem u)"
    and "sysv_callee (load64 (mem u) (addr KERNEL_SYSCALL_STACK_TOP)) h"
    and "hs = push ret (exec addr k h ret (takeWhile (\<lambda>i. i \<noteq> Call_Handler) syscall_entry) (syscall_instr k u))"
  shows "regs hs RDI = regs u RAX \<and> regs hs RSI = regs u RDI \<and> regs hs RDX = regs u RSI \<and>
    regs hs RCX = regs u RDX \<and> regs hs R8 = regs u R10 \<and> regs hs R9 = regs u R8 \<and>
    load64 (mem hs) (regs hs RSP + 8) = regs u R9 \<and> load64 (mem hs) (regs hs RSP) = ret"
proof -
  let ?c = "syscall_instr k u"
  have ok: "entry_stack_ok addr (mem ?c)"
    using assms(1) by (simp add: syscall_instr_def)
  define c1 where "c1 = exec addr k h ret ([Mov_Sym_Reg TEMP_RSP RSP, Lea_Reg_Sym RSP KERNEL_SYSCALL_STACK_TOP,
     Mov_Reg_Mem RSP RSP 0, Push_Sym TEMP_RSP] @ map Push saved_regs) ?c"
  note pro = entry_prologue [OF ok, of k h ret, folded c1_def]
  have st: "stack_has (mem c1) (regs c1 RSP) (rev (map (regs ?c) saved_regs) @ [regs ?c RSP])"
    using pro by simp
  have off: "load64 (mem c1) (regs c1 RSP + 8 * of_nat i) =
      (rev (map (regs ?c) saved_regs) @ [regs ?c RSP]) ! i" if "i < 15" for i
    using stack_has_nth [OF st] that by (simp only: length_frame)
  have ld: "load64 (mem c1) (regs c1 RSP + 48) = regs ?c R9" "load64 (mem c1) (regs c1 RSP + 56) = regs ?c R8"
      "load64 (mem c1) (regs c1 RSP + 64) = regs ?c R10" "load64 (mem c1) (regs c1 RSP + 72) = regs ?c RDX"
      "load64 (mem c1) (regs c1 RSP + 80) = regs ?c RSI" "load64 (mem c1) (regs c1 RSP + 88) = regs ?c RDI"
    using off [of 6] off [of 7] off [of 8] off [of 9] off [of 10] off [of 11]
    by (simp_all add: saved_regs_def)
  have hs: "hs = entry_call ret c1" by (simp only: assms(3) handler_state_def [symmetric] handler_state_eq c1_def)
  have "136 \<le> unat (load64 (mem ?c) (addr KERNEL_SYSCALL_STACK_TOP))" using ok by (simp add: entry_stack_ok_def)
  then have ap: "apart (regs c1 RSP - 16) 8 (regs c1 RSP - 8) 8"
    using unat_lt_64 [of "load64 (mem ?c) (addr KERNEL_SYSCALL_STACK_TOP)"]
    by (auto simp: pro(1) apart_def unat_sub_small word_le_nat_alt)
  have "regs ?c r = regs u r" if "r \<noteq> RCX" "r \<noteq> R11" for r using that by (simp add: syscall_instr_def)
  then show ?thesis
    using ld pro(1) ap by (simp add: hs entry_call_def push_def Let_def load64_store64_apart)
qed

theorem syscall_handler_arguments_witness:
  "regs (push 0x2000 (exec ex_addr ex_msrs (set_reg RAX 42) 0x2000 (takeWhile (\<lambda>i. i \<noteq> Call_Handler) syscall_entry)
     (syscall_instr ex_msrs ex_user))) RDI = 1"
  using syscall_handler_arguments [OF ex_entry_ok ex_handler_ok refl, of "0x2000" ex_msrs]
  by (simp add: ex_user_def)

text \<open>C38. With the stack that \<open>init_syscall_stack\<close> sets up over a 16-byte aligned array, the stack
  pointer is a multiple of 16 when the handler starts. The System V convention wants it to be 8
  modulo 16 there (a multiple of 16 before the call): the handler runs on a misaligned stack.\<close>

theorem syscall_handler_stack_misaligned:
  assumes "16 dvd unat stack_ptr" "unat stack_ptr + 16384 < 2 ^ 64"
    and "mem u = init_syscall_stack addr stack_ptr m"
    and "apart (addr TEMP_RSP) 8 (addr KERNEL_SYSCALL_STACK_TOP) 8"
    and "sysv_callee (stack_ptr + 16384 - 8) h"
    and "hs = push ret (exec addr k h ret (takeWhile (\<lambda>i. i \<noteq> Call_Handler) syscall_entry) (syscall_instr k u))"
  shows "unat (regs hs RSP) mod 16 = 0"
proof -
  let ?c = "syscall_instr k u"
  have tos: "load64 (mem ?c) (addr KERNEL_SYSCALL_STACK_TOP) = stack_ptr + 16384 - 8"
    using assms(3) by (simp add: syscall_instr_def init_syscall_stack_def)
  have un: "unat (stack_ptr + 16384) = unat stack_ptr + 16384"
    using assms(2) by (subst unat_add_small) auto
  have "unat (stack_ptr + 16384 - 8) = unat (stack_ptr + 16384) - 8"
    by (subst unat_sub_small) (auto simp: word_le_nat_alt un)
  then have "entry_stack_ok addr (mem ?c)"
    using assms(4) un unfolding entry_stack_ok_def tos by simp
  moreover have "sysv_callee (load64 (mem ?c) (addr KERNEL_SYSCALL_STACK_TOP)) h"
    using assms(5) tos by simp
  ultimately have "regs hs RSP = stack_ptr + 16384 - 8 - 136"
    unfolding assms(6) handler_state_def [symmetric] tos [symmetric] by (rule syscall_entry_run(9))
  also have "\<dots> = stack_ptr + 16240" by simp
  finally have "unat (regs hs RSP) = unat stack_ptr + 16240"
    using assms(2) by (simp only:) (subst unat_add_small, auto)
  then show ?thesis using assms(1) by (auto simp: dvd_def)
qed

theorem syscall_handler_stack_misaligned_witness:
  "let u = ex_user\<lparr>mem := init_syscall_stack ex_addr 0x10000 (\<lambda>_. 0)\<rparr>
   in unat (regs (push 0x2000 (exec ex_addr ex_msrs (set_reg RAX 42) 0x2000 (takeWhile (\<lambda>i. i \<noteq> Call_Handler) syscall_entry)
        (syscall_instr ex_msrs u))) RSP) mod 16 = 0"
proof -
  let ?u = "ex_user\<lparr>mem := init_syscall_stack ex_addr 0x10000 (\<lambda>_. 0)\<rparr>"
  have "mem ?u = init_syscall_stack ex_addr 0x10000 (\<lambda>_. 0)" by simp
  moreover have "apart (ex_addr TEMP_RSP) 8 (ex_addr KERNEL_SYSCALL_STACK_TOP) 8"
    by (simp add: ex_addr_def apart_def)
  ultimately show ?thesis
    unfolding Let_def
    by (rule syscall_handler_stack_misaligned [OF _ _ _ _ ex_handler_ok refl, rotated 2]) simp_all
qed

end
