(* ===== verification/Gdt.thy ===== *)
theory Gdt
  imports Syscall_Entry
begin

text \<open>
  The segment descriptors and the task state segment of \<open>kernel/src/gdt.rs\<close>, and the jump to
  user mode, \<open>enter_userspace\<close> of \<open>kernel/src/elf_loader.rs\<close>. The table type, its
  \<open>append\<close> and the constructor of selectors belong to the \<open>x86_64\<close> crate and are parameters;
  \<open>gdt_append_ok\<close> and \<open>selector_new_ok\<close> state what its documentation says of them. The
  properties tie the three places together in which the selectors of user mode are written: the
  descriptor table, the constants of \<open>enter_userspace\<close> and the STAR register of
  \<open>syscalls::init\<close>.
\<close>

datatype Descriptor =
  kernel_code_segment | kernel_data_segment | user_data_segment | user_code_segment | tss_segment

record Selectors =
  code_selector :: u16
  data_selector :: u16
  user_data_selector :: u16
  user_code_selector :: u16
  tss_selector :: u16

definition GDT :: "(Descriptor \<Rightarrow> 'gdt \<Rightarrow> u16 \<times> 'gdt) \<Rightarrow> 'gdt \<Rightarrow> 'gdt \<times> Selectors" where
  "GDT gdt_append new =
     (let (code, g1) = gdt_append kernel_code_segment new;
          (data, g2) = gdt_append kernel_data_segment g1;
          (user_data, g3) = gdt_append user_data_segment g2;
          (user_code, g4) = gdt_append user_code_segment g3;
          (tss, g5) = gdt_append tss_segment g4
      in (g5, \<lparr>code_selector = code, data_selector = data, user_data_selector = user_data,
               user_code_selector = user_code, tss_selector = tss\<rparr>))"

text \<open>The stacks of the task state segment: RSP0 and the double-fault stack, each the end of a
  static array of 20 KiB.\<close>

record TaskStateSegment =
  privilege_stack_table_0 :: u64
  interrupt_stack_table_0 :: u64

definition STACK_SIZE :: u64 where
  "STACK_SIZE = 4096 * 5"

definition TSS :: "u64 \<Rightarrow> u64 \<Rightarrow> TaskStateSegment" where
  "TSS rsp0_stack double_fault_stack =
     \<lparr>privilege_stack_table_0 = rsp0_stack + STACK_SIZE,
      interrupt_stack_table_0 = double_fault_stack + STACK_SIZE\<rparr>"

definition get_user_code_selector :: "(u16 \<Rightarrow> u16 \<Rightarrow> u16) \<Rightarrow> u16" where
  "get_user_code_selector selector_new = selector_new 4 3"

definition get_user_data_selector :: "(u16 \<Rightarrow> u16 \<Rightarrow> u16) \<Rightarrow> u16" where
  "get_user_data_selector selector_new = selector_new 3 3"

text \<open>\<open>gdt::init\<close>: the segment registers after the reload, and the task register.\<close>

definition gdt_init :: "Selectors \<Rightarrow> cpu \<Rightarrow> cpu \<times> u16" where
  "gdt_init sel c = (c\<lparr>cs := code_selector sel, ss := data_selector sel, ds := data_selector sel,
     es := data_selector sel\<rparr>, tss_selector sel)"

section \<open>What the crate documents\<close>

fun dpl :: "Descriptor \<Rightarrow> u16" where
  "dpl kernel_code_segment = 0"
| "dpl kernel_data_segment = 0"
| "dpl user_data_segment = 3"
| "dpl user_code_segment = 3"
| "dpl tss_segment = 0"

fun entries :: "Descriptor \<Rightarrow> nat" where
  "entries tss_segment = 2"
| "entries _ = 1"

text \<open>\<open>append\<close> returns the selector of the next free entry, with the descriptor's privilege level
  as the requested one; a system segment takes two entries, any other one. A new table holds the
  null descriptor only. \<open>SegmentSelector::new(index, rpl)\<close> is \<open>index << 3 | rpl\<close>.\<close>

definition gdt_append_ok :: "(Descriptor \<Rightarrow> 'gdt \<Rightarrow> u16 \<times> 'gdt) \<Rightarrow> 'gdt \<Rightarrow> ('gdt \<Rightarrow> nat) \<Rightarrow> bool" where
  "gdt_append_ok gdt_append new len \<longleftrightarrow> len new = 1 \<and>
     (\<forall>d g. fst (gdt_append d g) = push_bit 3 (of_nat (len g)) OR dpl d \<and>
            len (snd (gdt_append d g)) = len g + entries d)"

definition selector_new_ok :: "(u16 \<Rightarrow> u16 \<Rightarrow> u16) \<Rightarrow> bool" where
  "selector_new_ok selector_new \<longleftrightarrow> (\<forall>i r. selector_new i r = push_bit 3 i OR r)"

section \<open>Entering user mode\<close>

definition USER_DATA_SEL :: u64 where
  "USER_DATA_SEL = 0x1B"

definition USER_CODE_SEL :: u64 where
  "USER_CODE_SEL = 0x23"

definition RFLAGS_USER :: u64 where
  "RFLAGS_USER = 0x202"

text \<open>The operands are the values the compiler places in registers; all five are pushed before any
  register is overwritten.\<close>

definition enter_userspace :: "u64 \<Rightarrow> u64 \<Rightarrow> instr list" where
  "enter_userspace entry stack =
     [Push_Val USER_DATA_SEL, Push_Val stack, Push_Val RFLAGS_USER, Push_Val USER_CODE_SEL, Push_Val entry,
      Mov_Ds_Es USER_DATA_SEL,
      Xor_Self RAX, Xor_Self RBX, Xor_Self RCX, Xor_Self RDX, Xor_Self RSI, Xor_Self RDI, Xor_Self RBP,
      Xor_Self R8, Xor_Self R9, Xor_Self R10, Xor_Self R11, Xor_Self R12, Xor_Self R13, Xor_Self R14,
      Xor_Self R15,
      Iretq]"

lemma GDT_selectors:
  assumes "gdt_append_ok gdt_append new len"
  shows "snd (GDT gdt_append new) = \<lparr>code_selector = 0x08, data_selector = 0x10, user_data_selector = 0x1B,
    user_code_selector = 0x23, tss_selector = 0x28\<rparr>"
  using assms by (simp add: GDT_def gdt_append_ok_def case_prod_beta Let_def)

lemma syscalls_init_selectors:
  assumes "syscalls_init virt_addr_new addr stack_ptr entry hhdm s = Inr s'"
  shows "sysret_cs (env_msrs s') = 0x23" "sysret_ss (env_msrs s') = 0x1B"
    "star_syscall (env_msrs s') = 0x08"
  using assms by (auto simp: syscalls_init_def Let_def sysret_cs_def sysret_ss_def split: option.splits)

lemma push_val_stack:
  assumes "stack_has (mem c) (regs c RSP) vs" "stack_room (regs c RSP) (length vs)" "8 \<le> unat (regs c RSP)"
  shows "stack_has (mem (push v c)) (regs (push v c) RSP) (v # vs)"
    "stack_room (regs (push v c) RSP) (length (v # vs))"
    "regs (push v c) = (regs c)(RSP := regs c RSP - 8)"
    "unat (regs (push v c) RSP) = unat (regs c RSP) - 8"
proof -
  show r: "regs (push v c) = (regs c)(RSP := regs c RSP - 8)" by (simp add: push_def Let_def)
  show "stack_has (mem (push v c)) (regs (push v c) RSP) (v # vs)"
    using stack_has_push [OF assms] by (simp add: push_def Let_def)
  show "stack_room (regs (push v c) RSP) (length (v # vs))"
    using stack_room_down [OF assms(3,2)] by (simp add: r)
  show "unat (regs (push v c) RSP) = unat (regs c RSP) - 8"
    using assms(3) by (simp add: r unat_sub_small word_le_nat_alt)
qed

lemma user_mode_entered:
  assumes "40 \<le> unat (regs c RSP)"
    and "c' = exec addr k h ret (enter_userspace entry stack) c"
  shows "rip c' = entry \<and> regs c' RSP = stack \<and> rflags c' = 0x202 \<and>
    cs c' = 0x23 \<and> ss c' = 0x1B \<and> ds c' = 0x1B \<and> es c' = 0x1B \<and> cs c' AND 3 = 3 \<and> bit (rflags c') 9 \<and>
    (\<forall>r. r \<noteq> RSP \<longrightarrow> regs c' r = 0)"
proof -
  let ?p1 = "push USER_DATA_SEL c" let ?p2 = "push stack ?p1" let ?p3 = "push RFLAGS_USER ?p2"
  let ?p4 = "push USER_CODE_SEL ?p3" let ?p5 = "push entry ?p4"
  have s0: "stack_has (mem c) (regs c RSP) []" "stack_room (regs c RSP) (length ([] :: u64 list))" "8 \<le> unat (regs c RSP)"
    using assms(1) unat_lt_64 [of "regs c RSP"] by (auto simp: stack_room_def)
  note s1 = push_val_stack [OF s0, of USER_DATA_SEL]
  have "8 \<le> unat (regs ?p1 RSP)" using s1(4) assms(1) by simp
  note s2 = push_val_stack [OF s1(1,2) this, of stack]
  have "8 \<le> unat (regs ?p2 RSP)" using s1(4) s2(4) assms(1) by simp
  note s3 = push_val_stack [OF s2(1,2) this, of RFLAGS_USER]
  have "8 \<le> unat (regs ?p3 RSP)" using s1(4) s2(4) s3(4) assms(1) by simp
  note s4 = push_val_stack [OF s3(1,2) this, of USER_CODE_SEL]
  have "8 \<le> unat (regs ?p4 RSP)" using s1(4) s2(4) s3(4) s4(4) assms(1) by simp
  note s5 = push_val_stack [OF s4(1,2) this, of entry]
  have run: "c' = exec addr k h ret (drop 5 (enter_userspace entry stack)) ?p5"
    by (simp add: assms(2) enter_userspace_def)
  have sels: "ucast USER_CODE_SEL = (0x23 :: u16)" "ucast USER_DATA_SEL = (0x1B :: u16)" "RFLAGS_USER = 0x202"
    by (simp_all add: USER_CODE_SEL_def USER_DATA_SEL_def RFLAGS_USER_def)
  have "regs c' r = 0" if "r \<noteq> RSP" for r
    using that by (cases r) (simp_all add: run enter_userspace_def pop_val_def)
  moreover have "rip c' = entry \<and> regs c' RSP = stack \<and> rflags c' = 0x202 \<and> cs c' = 0x23 \<and> ss c' = 0x1B \<and>
      ds c' = 0x1B \<and> es c' = 0x1B"
    using s5(1) sels by (simp add: run enter_userspace_def pop_val_def)
  moreover have "bit (0x202 :: u64) 9" by (simp add: bit_numeral_rec)
  ultimately show ?thesis by simp
qed

section \<open>Properties\<close>

text \<open>C26. The selectors of user mode agree wherever they are written: the descriptor table gives user
  data 0x1B and user code 0x23, which are the constants of \<open>enter_userspace\<close>, the values of
  \<open>get_user_code_selector\<close> and \<open>get_user_data_selector\<close>, and the selectors \<open>sysret\<close> loads
  from the STAR register; the kernel selectors of \<open>syscall\<close> are those of the table too.\<close>

theorem user_selectors_agree:
  assumes "gdt_append_ok gdt_append new len" "selector_new_ok selector_new"
    and "syscalls_init virt_addr_new addr stack_ptr entry hhdm s = Inr s'"
    and "sel = snd (GDT gdt_append new)"
  shows "user_code_selector sel = sysret_cs (env_msrs s') \<and> user_data_selector sel = sysret_ss (env_msrs s') \<and>
    user_code_selector sel = ucast USER_CODE_SEL \<and> user_data_selector sel = ucast USER_DATA_SEL \<and>
    user_code_selector sel = get_user_code_selector selector_new \<and>
    user_data_selector sel = get_user_data_selector selector_new \<and>
    cs (syscall_instr (env_msrs s') u) = code_selector sel \<and>
    ss (syscall_instr (env_msrs s') u) = data_selector sel"
  using GDT_selectors [OF assms(1)] syscalls_init_selectors [OF assms(3)] assms(2)
  by (simp add: assms(4) USER_CODE_SEL_def USER_DATA_SEL_def get_user_code_selector_def
      get_user_data_selector_def selector_new_ok_def syscall_instr_def)

text \<open>A table kept as its number of entries.\<close>

definition ex_append :: "Descriptor \<Rightarrow> nat \<Rightarrow> u16 \<times> nat" where
  "ex_append d n = (push_bit 3 (of_nat n) OR dpl d, n + entries d)"

theorem user_selectors_agree_witness:
  "let sel = snd (GDT ex_append 1);
       s = \<lparr>HHDM_OFFSET = 0, env_mem = (\<lambda>_. 0), env_msrs = ex_msrs\<rparr>
   in \<exists>s'. syscalls_init Some ex_addr 0x10000 0x1000 0xffff800000000000 s = Inr s' \<and>
        user_code_selector sel = sysret_cs (env_msrs s')"
proof -
  let ?s = "\<lparr>HHDM_OFFSET = 0, env_mem = (\<lambda>_. 0), env_msrs = ex_msrs\<rparr>"
  have a: "gdt_append_ok ex_append 1 (\<lambda>n. n)" by (simp add: gdt_append_ok_def ex_append_def)
  have n: "selector_new_ok (\<lambda>i r. push_bit 3 i OR r)" by (simp add: selector_new_ok_def)
  obtain s' where s': "syscalls_init Some ex_addr 0x10000 0x1000 0xffff800000000000 ?s = Inr s'"
    by (simp add: syscalls_init_def Let_def)
  show ?thesis using user_selectors_agree [OF a n s' refl] s' by (auto simp: Let_def)
qed

text \<open>C27. \<open>enter_userspace\<close> reaches user mode with exactly the requested state: execution continues at
  the entry point on the user stack, in ring 3 with interrupts enabled, with the user selectors in
  CS, SS, DS and ES, and with every general register but the stack pointer cleared.\<close>

theorem enter_userspace_state:
  assumes "40 \<le> unat (regs c RSP)"
    and "c' = exec addr k h ret (enter_userspace entry stack) c"
  shows "rip c' = entry \<and> regs c' RSP = stack \<and> rflags c' = 0x202 \<and>
    cs c' = 0x23 \<and> ss c' = 0x1B \<and> ds c' = 0x1B \<and> es c' = 0x1B \<and> cs c' AND 3 = 3 \<and> bit (rflags c') 9 \<and>
    (\<forall>r. r \<noteq> RSP \<longrightarrow> regs c' r = 0)"
  using user_mode_entered [OF assms] .

theorem enter_userspace_state_witness:
  "let c' = exec ex_addr ex_msrs (\<lambda>c. c) 0 (enter_userspace 0x401000 0x7FFFFFFEFF00)
              (ex_user\<lparr>regs := (\<lambda>_. 0x5000)\<rparr>)
   in rip c' = 0x401000 \<and> regs c' RSP = 0x7FFFFFFEFF00 \<and> cs c' = 0x23 \<and> regs c' RBX = 0"
  using enter_userspace_state [of "ex_user\<lparr>regs := (\<lambda>_. 0x5000)\<rparr>", OF _ refl] by (simp add: Let_def)

end
