(* ===== verification/Helpers.thy ===== *)
theory Helpers
  imports Cat_Prelude
begin

text \<open>
  The arithmetic helpers of \<open>shared/src/helpers.rs\<close>: the canonical-address test and rounding
  up to an alignment.
\<close>

definition is_canonical :: "u64 \<Rightarrow> bool" where
  "is_canonical addr =
     (let sign = drop_bit 47 addr AND 1
      in if sign = 0 then drop_bit 48 addr = 0 else drop_bit 48 addr = 0xffff)"

definition align_up :: "u64 \<Rightarrow> u64 \<Rightarrow> u64" where
  "align_up x align = (x + align - 1) AND NOT (align - 1)"

lemma sign_bit_iff: "drop_bit 47 (a :: u64) AND 1 = 0 \<longleftrightarrow> \<not> bit a 47"
proof -
  have "bit (drop_bit 47 a AND 1) i \<longleftrightarrow> i = 0 \<and> bit a 47" for i by (auto simp: bit_simps)
  then show ?thesis by (metis bit_eq_iff bit_0_eq bot_apply bot_bool_def)
qed

lemma upper_bits_clear: "drop_bit 48 (a :: u64) = 0 \<longleftrightarrow> (\<forall>i \<in> {48..<64}. \<not> bit a i)"
proof
  assume z: "drop_bit 48 a = 0"
  show "\<forall>i \<in> {48..<64}. \<not> bit a i"
  proof
    fix i :: nat assume "i \<in> {48..<64}"
    then have "bit (drop_bit 48 a) (i - 48) = bit a i" by (simp add: bit_simps)
    then show "\<not> bit a i" using z by simp
  qed
next
  assume "\<forall>i \<in> {48..<64}. \<not> bit a i"
  then have "\<not> bit a (48 + n)" for n
    using bit_imp_le_length [of a "48 + n"] by (cases "n < 16") auto
  then show "drop_bit 48 a = 0" by (intro bit_word_eqI) (simp add: bit_simps)
qed

lemma upper_bits_set: "drop_bit 48 (a :: u64) = 0xffff \<longleftrightarrow> (\<forall>i \<in> {48..<64}. bit a i)"
proof -
  have m: "(0xffff :: u64) = mask 16" by (simp add: mask_eq_exp_minus_1)
  have "drop_bit 48 a = mask 16 \<longleftrightarrow> (\<forall>i < 64. bit (drop_bit 48 a) i = bit (mask 16 :: u64) i)"
    by (rule u64_eq_iff)
  also have "\<dots> \<longleftrightarrow> (\<forall>i \<in> {48..<64}. bit a i)"
  proof
    assume l: "\<forall>i < 64. bit (drop_bit 48 a) i = bit (mask 16 :: u64) i"
    show "\<forall>i \<in> {48..<64}. bit a i"
    proof
      fix i :: nat assume i: "i \<in> {48..<64}"
      then have "i - 48 < 16" "i - 48 < 64" by auto
      then show "bit a i" using spec [OF l, of "i - 48"] i by (simp add: bit_simps)
    qed
  next
    assume "\<forall>i \<in> {48..<64}. bit a i"
    then show "\<forall>i < 64. bit (drop_bit 48 a) i = bit (mask 16 :: u64) i"
      using bit_imp_le_length [of a] by (fastforce simp: bit_simps)
  qed
  finally show ?thesis by (simp only: m)
qed

lemma is_canonical_bits: "is_canonical a \<longleftrightarrow> (\<forall>i \<in> {47..<64}. bit a i = bit a 47)"
proof -
  have "{47..<64} = insert 47 {48..<64 :: nat}" by auto
  then show ?thesis
    using sign_bit_iff [of a] upper_bits_clear [of a] upper_bits_set [of a]
    by (auto simp: is_canonical_def Let_def)
qed

text \<open>C40. \<open>is_canonical\<close> holds exactly when the address is the sign extension of its low 48 bits:
  bits 47 to 63 are all equal.\<close>

theorem is_canonical_iff_sign_extended: "is_canonical a \<longleftrightarrow> signed_take_bit 47 a = a"
proof -
  have "signed_take_bit 47 a = a \<longleftrightarrow> (\<forall>i < 64. bit (signed_take_bit 47 a) i = bit a i)" by (rule u64_eq_iff)
  also have "\<dots> \<longleftrightarrow> (\<forall>i < 64. bit a (min i 47) = bit a i)" by (simp add: bit_signed_take_bit_iff min.commute)
  also have "\<dots> \<longleftrightarrow> (\<forall>i \<in> {47..<64}. bit a i = bit a 47)"
  proof
    assume l: "\<forall>i < 64. bit a (min i 47) = bit a i"
    show "\<forall>i \<in> {47..<64}. bit a i = bit a 47"
    proof
      fix i :: nat assume "i \<in> {47..<64}"
      then show "bit a i = bit a 47" using l [rule_format, of i] by (simp add: min_absorb2)
    qed
  next
    assume r: "\<forall>i \<in> {47..<64}. bit a i = bit a 47"
    have "bit a (min i 47) = bit a i" if "i < 64" for i
      using bspec [OF r, of i] that by (cases "i \<le> 47") (simp_all add: min_absorb1 min_absorb2)
    then show "\<forall>i < 64. bit a (min i 47) = bit a i" by blast
  qed
  finally show ?thesis by (simp add: is_canonical_bits)
qed

text \<open>For a power of two \<open>2 ^ k\<close> and no overflow, \<open>align_up\<close> returns the least multiple of
  the alignment that is not below its argument.\<close>

theorem align_up_least_multiple:
  assumes "k < 64" "unat x + 2 ^ k \<le> 2 ^ 64"
  shows "2 ^ k dvd unat (align_up x (2 ^ k)) \<and> unat x \<le> unat (align_up x (2 ^ k)) \<and>
    (\<forall>m. 2 ^ k dvd m \<and> unat x \<le> m \<longrightarrow> unat (align_up x (2 ^ k)) \<le> m)"
proof -
  have m: "(2 ^ k - 1 :: u64) = mask k" by (simp add: mask_eq_exp_minus_1)
  have p: "unat (2 ^ k :: u64) = 2 ^ k"
    using assms(1) unat_of_nat_small [of "2 ^ k"] power_strict_increasing [of k 64 "2 :: nat"] by simp
  then have "(1 :: u64) \<le> 2 ^ k" by (simp add: word_le_nat_alt)
  then have um: "unat (mask k :: u64) = 2 ^ k - 1"
    by (simp only: m [symmetric] unat_sub_small p) simp
  have "align_up x (2 ^ k) = (x + mask k) AND NOT (mask k)"
    unfolding align_up_def m [symmetric] by (simp only: add_diff_eq)
  moreover have "unat (x + mask k) = unat x + (2 ^ k - 1)"
    using assms(2) um by (subst unat_add_small) (auto simp: less_eq_Suc_le)
  ultimately have eq: "unat (align_up x (2 ^ k)) = (unat x + (2 ^ k - 1)) div 2 ^ k * 2 ^ k"
    by (simp only: unat_and_not_mask)
  have "unat (align_up x (2 ^ k)) \<le> n" if n: "2 ^ k dvd n" "unat x \<le> n" for n
  proof -
    obtain q where q: "n = 2 ^ k * q" using n(1) by (auto simp: dvd_def)
    have "(unat x + (2 ^ k - 1)) div 2 ^ k * 2 ^ k < Suc q * 2 ^ k"
      using round_up_least(2) [of "2 ^ k" "unat x"] n(2) q by (simp add: mult.commute [of q])
    then have "(unat x + (2 ^ k - 1)) div 2 ^ k < Suc q" by (simp only: mult_less_cancel2)
    then show ?thesis by (simp add: eq q)
  qed
  then show ?thesis
    using round_up_least [of "2 ^ k" "unat x"] by (simp add: eq)
qed

theorem align_up_least_multiple_witness:
  "2 ^ 12 dvd unat (align_up 0x1001 (2 ^ 12)) \<and> 0x1001 \<le> unat (align_up 0x1001 (2 ^ 12))"
  using align_up_least_multiple [of 12 "0x1001"] by simp

end
