(* ===== verification/Screen.thy ===== *)
theory Screen
  imports Cat_Prelude
begin

text \<open>
  The framebuffer text writer, \<open>kernel/src/screen.rs\<close>, over the frame buffer description of
  \<open>shared/src/framebuffer.rs\<close>. The frame buffer is the array of 32-bit pixels that starts at
  \<open>buffer_base\<close>: pixel \<open>i\<close> is what the code addresses as \<open>buffer.add(i)\<close>. An operation
  takes the writer and the pixels and returns both; a write outside the visible buffer is a write to
  an index of \<open>stride * height\<close> or more. The glyph table of the \<open>font8x8\<close> crate is the
  parameter \<open>font\<close>, from a scalar value to the eight row bytes of its glyph.
\<close>

section \<open>Data\<close>

datatype PixelFormat = RGB | BGR | U8

record FrameBufferInfo =
  buffer_base :: u64
  buffer_size :: nat
  fb_width :: nat
  fb_height :: nat
  stride :: nat
  format :: PixelFormat

definition FONT_WIDTH :: nat where "FONT_WIDTH = 8"
definition FONT_HEIGHT :: nat where "FONT_HEIGHT = 8"

record FrameBufferWriter =
  info :: FrameBufferInfo
  x_pos :: nat
  y_pos :: nat
  scale :: nat
  text_color :: u32
  bg_color :: u32

type_synonym pixels = "nat \<Rightarrow> u32"
type_synonym screen = "FrameBufferWriter \<times> pixels"
type_synonym font = "nat \<Rightarrow> u8 list option"

abbreviation width :: "FrameBufferWriter \<Rightarrow> nat" where
  "width w \<equiv> fb_width (info w)"

abbreviation height :: "FrameBufferWriter \<Rightarrow> nat" where
  "height w \<equiv> fb_height (info w)"

abbreviation pitch :: "FrameBufferWriter \<Rightarrow> nat" where
  "pitch w \<equiv> stride (info w)"

section \<open>Operations\<close>

definition convert_color :: "FrameBufferWriter \<Rightarrow> u32 \<Rightarrow> u32" where
  "convert_color w color =
     (let r = drop_bit 16 color AND 0xff;
          g = drop_bit 8 color AND 0xff;
          b = color AND 0xff
      in case format (info w) of
           RGB \<Rightarrow> (push_bit 16 b OR push_bit 8 g) OR r
         | BGR \<Rightarrow> color
         | _ \<Rightarrow> color)"

definition writer_set_scale :: "nat \<Rightarrow> FrameBufferWriter \<Rightarrow> FrameBufferWriter" where
  "writer_set_scale s w = w\<lparr>scale := s\<rparr>"

definition writer_set_text_color :: "u32 \<Rightarrow> FrameBufferWriter \<Rightarrow> FrameBufferWriter" where
  "writer_set_text_color color w = w\<lparr>text_color := convert_color w color\<rparr>"

definition writer_set_background_color :: "u32 \<Rightarrow> FrameBufferWriter \<Rightarrow> FrameBufferWriter" where
  "writer_set_background_color color w = w\<lparr>bg_color := convert_color w color\<rparr>"

definition clear :: "u32 \<Rightarrow> screen \<Rightarrow> screen" where
  "clear color s =
     (let (w, fb) = s;
          fb' = fold (\<lambda>y fb.
                  let row_start = usize_mul y (pitch w)
                  in fold (\<lambda>x fb. fb(row_start + x := convert_color w color)) [0..<width w] fb)
                [0..<height w] fb
      in (w\<lparr>x_pos := 0, y_pos := 0\<rparr>, fb'))"

text \<open>\<open>ptr::copy\<close> is a memmove: the source is read as it was before the call.\<close>

definition copy_pixels :: "nat \<Rightarrow> nat \<Rightarrow> nat \<Rightarrow> pixels \<Rightarrow> pixels" where
  "copy_pixels src dst n fb = (\<lambda>i. if dst \<le> i \<and> i < dst + n then fb (src + (i - dst)) else fb i)"

definition scroll_up :: "screen \<Rightarrow> screen" where
  "scroll_up s =
     (let (w, fb) = s;
          scaled_height = usize_mul FONT_HEIGHT (scale w);
          copy_lines = usize_sub (height w) scaled_height;
          copy_len = usize_mul copy_lines (pitch w);
          fb = copy_pixels (usize_mul (pitch w) scaled_height) 0 copy_len fb;
          fill_len = usize_mul scaled_height (pitch w);
          fb = fold (\<lambda>i fb. fb(copy_len + i := bg_color w)) [0..<fill_len] fb
      in (w, fb))"

definition new_line :: "screen \<Rightarrow> screen" where
  "new_line s =
     (let (w, fb) = s;
          scaled_height = usize_mul FONT_HEIGHT (scale w);
          w = w\<lparr>x_pos := 0, y_pos := usize_add (y_pos w) scaled_height\<rparr>
      in if usize_add (y_pos w) scaled_height > height w
         then let (w, fb) = scroll_up (w, fb)
              in (w\<lparr>y_pos := usize_sub (y_pos w) scaled_height\<rparr>, fb)
         else (w, fb))"

definition draw_dot ::
  "FrameBufferWriter \<Rightarrow> u32 \<Rightarrow> nat \<Rightarrow> nat \<Rightarrow> nat \<Rightarrow> nat \<Rightarrow> nat \<Rightarrow> nat \<Rightarrow> pixels \<Rightarrow> pixels" where
  "draw_dot w pixel_color x y row_idx col_idx sy sx fb =
     (let dx = usize_add (usize_add x (usize_mul col_idx (scale w))) sx;
          dy = usize_add (usize_add y (usize_mul row_idx (scale w))) sy
      in if dx < width w \<and> dy < height w
         then fb(usize_add (usize_mul dy (pitch w)) dx := pixel_color) else fb)"

definition draw_char :: "font \<Rightarrow> nat \<Rightarrow> nat \<Rightarrow> nat \<Rightarrow> screen \<Rightarrow> screen" where
  "draw_char font x y c s =
     (let (w, fb) = s
      in case font c of
           None \<Rightarrow> (w, fb)
         | Some bitmap \<Rightarrow>
             (w, fold (\<lambda>row_idx fb.
                   fold (\<lambda>col_idx fb.
                     let bit_is_set = (bitmap ! row_idx) AND push_bit col_idx 1 \<noteq> 0;
                         pixel_color = (if bit_is_set then text_color w else bg_color w)
                     in fold (\<lambda>sy fb.
                          fold (\<lambda>sx fb. draw_dot w pixel_color x y row_idx col_idx sy sx fb)
                            [0..<scale w] fb)
                          [0..<scale w] fb)
                   [0..<8] fb)
                 [0..<length bitmap] fb))"

fun fill_rows :: "FrameBufferWriter \<Rightarrow> nat list \<Rightarrow> pixels \<Rightarrow> pixels" where
  "fill_rows w [] fb = fb"
| "fill_rows w (y_offset # ys) fb =
     (let dy = usize_add (y_pos w) y_offset
      in if dy \<ge> height w then fb
         else let row_start = usize_mul dy (pitch w)
              in fill_rows w ys (fold (\<lambda>x fb. fb(row_start + x := bg_color w)) [x_pos w..<width w] fb))"

definition fill_remainder :: "screen \<Rightarrow> screen" where
  "fill_remainder s =
     (let (w, fb) = s;
          scaled_height = usize_mul FONT_HEIGHT (scale w);
          fb = (if x_pos w < width w then fill_rows w [0..<scaled_height] fb else fb)
      in new_line (w, fb))"

definition write_byte :: "font \<Rightarrow> u8 \<Rightarrow> screen \<Rightarrow> screen" where
  "write_byte font byte s =
     (let scaled_width = usize_mul FONT_WIDTH (scale (fst s))
      in if byte = 10 then fill_remainder s
         else let s = (if usize_add (x_pos (fst s)) scaled_width > width (fst s) then new_line s else s);
                  (w, fb) = draw_char font (x_pos (fst s)) (y_pos (fst s)) (unat byte) s
              in (w\<lparr>x_pos := usize_add (x_pos w) scaled_width\<rparr>, fb))"

text \<open>A Rust string is the list of its scalar values; \<open>c as u8\<close> keeps the low eight bits.\<close>

definition write_str :: "font \<Rightarrow> u32 list \<Rightarrow> screen \<Rightarrow> screen" where
  "write_str font chars s = fold (\<lambda>c. write_byte font (ucast c)) chars s"

definition init_writer :: "FrameBufferInfo \<Rightarrow> FrameBufferWriter" where
  "init_writer i =
     \<lparr>info = i, x_pos = 0, y_pos = 0, scale = 2, text_color = 0xffffff, bg_color = 0x0000ff\<rparr>"

section \<open>The global writer\<close>

text \<open>
  \<open>WRITER\<close> is \<open>Mutex<Option<FrameBufferWriter>>\<close>; the helper functions do nothing before
  \<open>init\<close>.
\<close>

record display =
  writer :: "FrameBufferWriter option"
  pixels :: pixels

definition with_writer :: "(screen \<Rightarrow> screen) \<Rightarrow> display \<Rightarrow> display" where
  "with_writer f d =
     (case writer d of
        None \<Rightarrow> d
      | Some w \<Rightarrow> (let (w', fb') = f (w, pixels d) in d\<lparr>writer := Some w', pixels := fb'\<rparr>))"

definition screen_init :: "FrameBufferInfo \<Rightarrow> display \<Rightarrow> display" where
  "screen_init i d = d\<lparr>writer := Some (init_writer i)\<rparr>"

definition set_text_color :: "u32 \<Rightarrow> display \<Rightarrow> display" where
  "set_text_color color = with_writer (apfst (writer_set_text_color color))"

definition set_background_color :: "u32 \<Rightarrow> display \<Rightarrow> display" where
  "set_background_color color = with_writer (apfst (writer_set_background_color color))"

definition set_scale :: "nat \<Rightarrow> display \<Rightarrow> display" where
  "set_scale s = with_writer (apfst (writer_set_scale s))"

definition clear_screen :: "u32 \<Rightarrow> display \<Rightarrow> display" where
  "clear_screen color = with_writer (clear color)"

definition reset_style :: "display \<Rightarrow> display" where
  "reset_style = with_writer (apfst (writer_set_background_color 0x0000ff \<circ> writer_set_scale 2 \<circ>
     writer_set_text_color 0xffffff))"

definition print_char :: "font \<Rightarrow> u32 \<Rightarrow> display \<Rightarrow> display" where
  "print_char font c = with_writer (write_byte font (ucast c))"

definition screen_print :: "font \<Rightarrow> u32 list \<Rightarrow> display \<Rightarrow> display" where
  "screen_print font chars = with_writer (write_str font chars)"

section \<open>What each operation does to one pixel\<close>

text \<open>
  Every loop of the writer paints: at one index, each iteration either leaves the pixel alone or
  writes the one colour that belongs there.
\<close>

lemma fold_paint:
  assumes "\<And>i fb. i \<in> set is \<Longrightarrow> f i fb j = (if hit i then v else fb j)"
  shows "fold f is fb j = (if \<exists>i \<in> set is. hit i then v else (fb j :: 'a))"
  using assms by (induction "is" arbitrary: fb) auto

definition dims_ok :: "FrameBufferInfo \<Rightarrow> bool" where
  "dims_ok i \<longleftrightarrow> fb_width i \<le> stride i \<and> 0 < stride i \<and> stride i * fb_height i < 2 ^ 62 \<and>
     fb_height i < 2 ^ 62 \<and> stride i < 2 ^ 62"

text \<open>The cursor bounds. The scale must fit the screen: see \<open>scroll_up\<close>'s subtraction.\<close>

definition writer_ok :: "FrameBufferWriter \<Rightarrow> bool" where
  "writer_ok w \<longleftrightarrow> dims_ok (info w) \<and> 0 < scale w \<and> 8 * scale w \<le> width w \<and> 8 * scale w \<le> height w \<and>
     x_pos w \<le> width w \<and> y_pos w \<le> height w"

lemmas writer_defs = writer_ok_def dims_ok_def FONT_WIDTH_def FONT_HEIGHT_def

lemma scaled_size [simp]: "writer_ok w \<Longrightarrow> usize_mul 8 (scale w) = 8 * scale w"
  by (rule usize_mul_small) (simp add: writer_defs)

lemma pixel_bound: "dims_ok i \<Longrightarrow> y < fb_height i \<Longrightarrow> x < stride i \<Longrightarrow> y * stride i + x < stride i * fb_height i"
proof -
  assume "dims_ok i" "y < fb_height i" "x < stride i"
  then have "y * stride i + x < Suc y * stride i" by simp
  also have "\<dots> \<le> fb_height i * stride i" using \<open>y < fb_height i\<close> by (intro mult_le_mono1) simp
  finally show ?thesis by (simp add: mult.commute)
qed

lemma row_bound: "dims_ok i \<Longrightarrow> y \<le> fb_height i \<Longrightarrow> y * stride i < 2 ^ 62"
  using le_less_trans [OF mult_le_mono2 [of y "fb_height i" "stride i"], of "2 ^ 62"]
  unfolding dims_ok_def by (metis mult.commute)

lemma usize_row [simp]:
  "dims_ok i \<Longrightarrow> y \<le> fb_height i \<Longrightarrow> usize_mul y (stride i) = y * stride i"
  "dims_ok i \<Longrightarrow> y \<le> fb_height i \<Longrightarrow> usize_mul (stride i) y = stride i * y"
  using row_bound [of i y] by (simp_all add: usize_mul_def mult.commute)

lemma usize_pixel [simp]:
  "dims_ok i \<Longrightarrow> y < fb_height i \<Longrightarrow> x < stride i \<Longrightarrow> usize_add (y * stride i) x = y * stride i + x"
  using pixel_bound [of i y x] by (simp add: usize_add_small dims_ok_def)

lemma pixel_index:
  "0 < st \<Longrightarrow> x < st \<Longrightarrow> y * st + x = j \<longleftrightarrow> y = j div st \<and> x = j mod (st :: nat)"
  by auto

lemma scroll_up_fst [simp]: "fst (scroll_up (w, fb)) = w"
  by (simp add: scroll_up_def Let_def)

lemma scroll_up_pixels:
  assumes "writer_ok w"
  shows "snd (scroll_up (w, fb)) i =
    (if i < (height w - 8 * scale w) * pitch w then fb (i + 8 * scale w * pitch w)
     else if i < height w * pitch w then bg_color w else fb i)"
proof -
  have d: "dims_ok (info w)" and h: "8 * scale w \<le> height w" using assms by (auto simp: writer_ok_def)
  define a where "a = (height w - 8 * scale w) * pitch w"
  define b where "b = 8 * scale w * pitch w"
  have ab: "a + b = height w * pitch w"
    using h by (simp add: a_def b_def flip: add_mult_distrib)
  have sub: "usize_sub (height w) (8 * scale w) = height w - 8 * scale w"
    using h d by (intro usize_sub_small) (auto simp: dims_ok_def)
  have "snd (scroll_up (w, fb)) i =
      fold (\<lambda>k fb. fb(a + k := bg_color w)) [0..<b] (copy_pixels b 0 a fb) i"
    using assms d h sub by (simp add: scroll_up_def Let_def FONT_HEIGHT_def a_def b_def mult.commute)
  also have "\<dots> = (if \<exists>k \<in> {0..<b}. a + k = i then bg_color w else copy_pixels b 0 a fb i)"
    by (subst fold_paint [where hit = "\<lambda>k. a + k = i" and v = "bg_color w"]) auto
  also have "(\<exists>k \<in> {0..<b}. a + k = i) \<longleftrightarrow> a \<le> i \<and> i < a + b"
    by (auto intro: bexI [of _ "i - a"])
  finally show ?thesis using ab by (auto simp: copy_pixels_def a_def b_def add.commute)
qed

lemma bit_is_set_iff: "(b :: u8) AND push_bit n 1 \<noteq> 0 \<longleftrightarrow> bit b n"
  by (simp add: bit_iff_and_push_bit_not_eq_0)

text \<open>The cell of a glyph drawn at \<open>(x, y)\<close>, and the colour of a pixel inside it.\<close>

definition in_cell :: "FrameBufferWriter \<Rightarrow> nat \<Rightarrow> nat \<Rightarrow> nat \<Rightarrow> nat \<Rightarrow> bool" where
  "in_cell w x y px py \<longleftrightarrow> x \<le> px \<and> px < x + 8 * scale w \<and> y \<le> py \<and> py < y + 8 * scale w"

definition glyph_bit :: "nat \<Rightarrow> u8 list \<Rightarrow> nat \<Rightarrow> nat \<Rightarrow> bool" where
  "glyph_bit sc bitmap dx dy = bit (bitmap ! (dy div sc)) (dx div sc)"

lemma draw_dot_pixel:
  assumes ok: "writer_ok w" and b: "x \<le> width w" "y \<le> height w" "c < 8" "r < 8" "sx < scale w" "sy < scale w"
  shows "draw_dot w v x y r c sy sx fb j =
    (if x + c * scale w + sx = j mod pitch w \<and> y + r * scale w + sy = j div pitch w \<and>
        j mod pitch w < width w \<and> j div pitch w < height w then v else fb j)"
proof -
  have d: "dims_ok (info w)" "width w \<le> pitch w" "0 < pitch w" using ok by (auto simp: writer_ok_def dims_ok_def)
  have lim: "width w < 2 ^ 62" "height w < 2 ^ 62" "8 * scale w < 2 ^ 62" using ok by (auto simp: writer_defs)
  have "c * scale w \<le> 8 * scale w" "r * scale w \<le> 8 * scale w" using b by (auto intro: mult_le_mono1)
  then have m: "c * scale w < 2 ^ 62" "r * scale w < 2 ^ 62" using lim by linarith+
  then have "x + c * scale w < 2 ^ 63" "y + r * scale w < 2 ^ 63"
    "x + c * scale w + sx < 2 ^ 64" "y + r * scale w + sy < 2 ^ 64" using b lim by simp_all
  then have a: "usize_add (usize_add x (usize_mul c (scale w))) sx = x + c * scale w + sx"
    "usize_add (usize_add y (usize_mul r (scale w))) sy = y + r * scale w + sy"
    using m by (simp_all add: usize_add_def usize_mul_def)
  show ?thesis
  proof (cases "x + c * scale w + sx < width w \<and> y + r * scale w + sy < height w")
    case True
    then have "draw_dot w v x y r c sy sx fb =
        fb((y + r * scale w + sy) * pitch w + (x + c * scale w + sx) := v)"
      using d by (simp add: draw_dot_def Let_def a)
    then show ?thesis using True d pixel_index [of "pitch w" "x + c * scale w + sx" _ j] by auto
  next
    case False
    then show ?thesis by (auto simp: draw_dot_def Let_def a)
  qed
qed

lemma cell_coord:
  assumes "0 < s"
  shows "(\<exists>c < n. \<exists>k < s. x + c * s + k = (p :: nat) \<and> P c) \<longleftrightarrow> x \<le> p \<and> p < x + n * s \<and> P ((p - x) div s)"
proof
  assume "\<exists>c < n. \<exists>k < s. x + c * s + k = p \<and> P c"
  then obtain c k where c: "c < n" "k < s" "x + c * s + k = p" "P c" by blast
  then have "p - x = c * s + k" by simp
  then have "(p - x) div s = c" using c by simp
  moreover have "Suc c * s \<le> n * s" using c by (intro mult_le_mono1) simp
  ultimately show "x \<le> p \<and> p < x + n * s \<and> P ((p - x) div s)" using c by auto
next
  assume r: "x \<le> p \<and> p < x + n * s \<and> P ((p - x) div s)"
  then have "(p - x) div s < n" by (simp add: assms div_less_iff_less_mult less_diff_conv2)
  moreover have "x + (p - x) div s * s + (p - x) mod s = p" using r by simp
  ultimately show "\<exists>c < n. \<exists>k < s. x + c * s + k = p \<and> P c"
    using r assms by (meson mod_less_divisor)
qed

lemma draw_char_fst [simp]: "fst (draw_char font x y c (w, fb)) = w"
  by (simp add: draw_char_def split: option.split)

lemma draw_char_none: "font c = None \<Longrightarrow> draw_char font x y c (w, fb) = (w, fb)"
  by (simp add: draw_char_def)

lemma draw_char_pixels:
  assumes ok: "writer_ok w" and g: "font c = Some bitmap" "length bitmap = 8"
    and xy: "x \<le> width w" "y \<le> height w"
  shows "snd (draw_char font x y c (w, fb)) j =
    (if in_cell w x y (j mod pitch w) (j div pitch w) \<and> j mod pitch w < width w \<and> j div pitch w < height w
     then (if glyph_bit (scale w) bitmap (j mod pitch w - x) (j div pitch w - y) then text_color w else bg_color w)
     else fb j)"
proof -
  define px py where "px = j mod pitch w" and "py = j div pitch w"
  define v where "v = (if glyph_bit (scale w) bitmap (px - x) (py - y) then text_color w else bg_color w)"
  define at where "at r c sy sx \<longleftrightarrow> x + c * scale w + sx = px \<and> y + r * scale w + sy = py \<and>
    px < width w \<and> py < height w" for r c sy sx
  have s: "0 < scale w" using ok by (simp add: writer_ok_def)
  have colour: "(if bit (bitmap ! r) cl then text_color w else bg_color w) = v" if "at r cl sy sx" "sx < scale w" "sy < scale w" for r cl sy sx
  proof -
    have "px - x = cl * scale w + sx" "py - y = r * scale w + sy" using that by (auto simp: at_def)
    then show ?thesis using that s by (simp add: v_def glyph_bit_def)
  qed
  have dot: "draw_dot w (if bit (bitmap ! r) cl then text_color w else bg_color w) x y r cl sy sx fb j =
      (if at r cl sy sx then v else fb j)" if "r < 8" "cl < 8" "sx < scale w" "sy < scale w" for r cl sy sx fb
    using draw_dot_pixel [OF ok xy that(2,1,3,4), of _ fb j] colour [of r cl sy sx] that
    by (auto simp: at_def px_def py_def)
  have "snd (draw_char font x y c (w, fb)) j =
      (if \<exists>r \<in> set [0..<8]. \<exists>cl \<in> set [0..<8]. \<exists>sy \<in> set [0..<scale w]. \<exists>sx \<in> set [0..<scale w]. at r cl sy sx then v else fb j)"
    unfolding draw_char_def Let_def prod.case g(1) option.case snd_conv g(2) bit_is_set_iff
    by (intro fold_paint) (simp add: dot)
  also have "(\<exists>r \<in> set [0..<8]. \<exists>cl \<in> set [0..<8]. \<exists>sy \<in> set [0..<scale w]. \<exists>sx \<in> set [0..<scale w]. at r cl sy sx) \<longleftrightarrow>
     ((\<exists>cl < 8. \<exists>sx < scale w. x + cl * scale w + sx = px \<and> True) \<and>
      (\<exists>r < 8. \<exists>sy < scale w. y + r * scale w + sy = py \<and> True) \<and> px < width w \<and> py < height w)"
    by (simp only: at_def Bex_def set_upt atLeastLessThan_iff le0 simp_thms) blast
  also have "\<dots> \<longleftrightarrow> in_cell w x y px py \<and> px < width w \<and> py < height w"
    unfolding cell_coord [OF s] by (auto simp: in_cell_def)
  finally show ?thesis by (simp add: v_def px_def py_def)
qed

lemma fill_row_pixels:
  assumes "dims_ok (info w)" "dy < height w"
  shows "fold (\<lambda>x fb. fb(dy * pitch w + x := v)) [a..<width w] fb j =
    (if a \<le> j mod pitch w \<and> j mod pitch w < width w \<and> dy = j div pitch w then v else fb j)"
proof -
  have d: "width w \<le> pitch w" "0 < pitch w" using assms(1) by (auto simp: dims_ok_def)
  have "fold (\<lambda>x fb. fb(dy * pitch w + x := v)) [a..<width w] fb j =
      (if \<exists>x \<in> set [a..<width w]. x = j mod pitch w \<and> dy = j div pitch w then v else fb j)"
    using d by (intro fold_paint) (auto simp: pixel_index [of "pitch w" _ dy j])
  then show ?thesis by auto
qed

lemma fill_rows_pixels:
  assumes "dims_ok (info w)" "y_pos w \<le> height w" "b < 2 ^ 62"
  shows "fill_rows w [a..<b] fb j =
    (if x_pos w \<le> j mod pitch w \<and> j mod pitch w < width w \<and> y_pos w + a \<le> j div pitch w \<and>
        j div pitch w < y_pos w + b \<and> j div pitch w < height w then bg_color w else fb j)"
  using assms(3)
proof (induction "b - a" arbitrary: a fb)
  case 0
  then show ?case by auto
next
  case (Suc n)
  then have ab: "a < b" by simp
  have dy: "usize_add (y_pos w) a = y_pos w + a"
    using assms Suc.prems ab by (intro usize_add_small) (simp add: dims_ok_def)
  show ?case
  proof (cases "height w \<le> y_pos w + a")
    case True
    then show ?thesis using ab by (auto simp: upt_conv_Cons dy Let_def)
  next
    case False
    then have "fill_rows w [a..<b] fb =
        fill_rows w [Suc a..<b] (fold (\<lambda>x fb. fb((y_pos w + a) * pitch w + x := bg_color w)) [x_pos w..<width w] fb)"
      using ab assms(1) by (simp add: upt_conv_Cons dy Let_def)
    then show ?thesis
      using Suc False ab assms(1) by (auto simp: fill_row_pixels)
  qed
qed

lemma clear_pixels:
  assumes "dims_ok (info w)"
  shows "snd (clear color (w, fb)) j =
    (if j mod pitch w < width w \<and> j div pitch w < height w then convert_color w color else fb j)"
proof -
  have "snd (clear color (w, fb)) j =
      (if \<exists>y \<in> set [0..<height w]. j mod pitch w < width w \<and> y = j div pitch w then convert_color w color else fb j)"
    using assms unfolding clear_def Let_def prod.case snd_conv
    by (intro fold_paint) (simp add: fill_row_pixels)
  then show ?thesis by auto
qed

lemma new_line_fst:
  assumes "writer_ok w"
  shows "fst (new_line (w, fb)) = w\<lparr>x_pos := 0, y_pos :=
    (if y_pos w + 2 * (8 * scale w) > height w then y_pos w else y_pos w + 8 * scale w)\<rparr>"
proof -
  have lim: "y_pos w < 2 ^ 62" "8 * scale w < 2 ^ 62" using assms by (auto simp: writer_defs)
  then have "usize_add (y_pos w) (8 * scale w) = y_pos w + 8 * scale w"
    "usize_add (y_pos w + 8 * scale w) (8 * scale w) = y_pos w + 2 * (8 * scale w)"
    "usize_sub (y_pos w + 8 * scale w) (8 * scale w) = y_pos w"
    by (simp_all add: usize_add_def usize_sub_small)
  then show ?thesis
    using assms by (simp add: new_line_def Let_def FONT_HEIGHT_def scroll_up_def)
qed

lemma new_line_snd:
  assumes "writer_ok w"
  shows "snd (new_line (w, fb)) =
    (if y_pos w + 2 * (8 * scale w) > height w then snd (scroll_up (w, fb)) else fb)"
proof -
  have lim: "y_pos w < 2 ^ 62" "8 * scale w < 2 ^ 62" using assms by (auto simp: writer_defs)
  then have "usize_add (y_pos w) (8 * scale w) = y_pos w + 8 * scale w"
    "usize_add (y_pos w + 8 * scale w) (8 * scale w) = y_pos w + 2 * (8 * scale w)"
    by (simp_all add: usize_add_def)
  then show ?thesis
    using assms by (simp add: new_line_def Let_def FONT_HEIGHT_def scroll_up_def)
qed

lemma fill_remainder_split:
  assumes "writer_ok w"
  shows "fst (fill_remainder (w, fb)) = fst (new_line (w, fb))"
    "snd (fill_remainder (w, fb)) =
     snd (new_line (w, if x_pos w < width w then fill_rows w [0..<8 * scale w] fb else fb))"
  using assms by (auto simp: fill_remainder_def Let_def FONT_HEIGHT_def new_line_fst)

definition wrap_line :: "screen \<Rightarrow> screen" where
  "wrap_line s = (if x_pos (fst s) + 8 * scale (fst s) > width (fst s) then new_line s else s)"

lemma write_byte_split:
  assumes "writer_ok (fst s)"
  shows "write_byte font byte s =
    (if byte = 10 then fill_remainder s
     else (let s' = wrap_line s
           in apfst (\<lambda>w. w\<lparr>x_pos := usize_add (x_pos w) (8 * scale (fst s))\<rparr>)
                (draw_char font (x_pos (fst s')) (y_pos (fst s')) (unat byte) s')))"
proof -
  have "usize_add (x_pos (fst s)) (8 * scale (fst s)) = x_pos (fst s) + 8 * scale (fst s)"
    using assms by (intro usize_add_small) (simp add: writer_defs)
  then show ?thesis
    using assms by (simp add: write_byte_def wrap_line_def Let_def FONT_WIDTH_def apfst_def map_prod_def split: prod.split)
qed

section \<open>Every operation keeps the cursor on the screen and writes inside the frame buffer\<close>

text \<open>What one operation promises: the writer stays well-formed on the same screen, with the same
  style, and no index outside the frame buffer changes.\<close>

definition stays_inside :: "screen \<Rightarrow> screen \<Rightarrow> bool" where
  "stays_inside s s' \<longleftrightarrow> writer_ok (fst s') \<and> info (fst s') = info (fst s) \<and>
     (\<forall>j \<ge> pitch (fst s) * height (fst s). snd s' j = snd s j)"

lemma stays_inside_refl: "writer_ok (fst s) \<Longrightarrow> stays_inside s s"
  by (simp add: stays_inside_def)

lemma stays_inside_trans: "stays_inside s t \<Longrightarrow> stays_inside t u \<Longrightarrow> stays_inside s u"
  by (simp add: stays_inside_def)

lemma outside_div: "0 < st \<Longrightarrow> st * h \<le> j \<Longrightarrow> h \<le> j div (st :: nat)"
  by (simp add: less_eq_div_iff_mult_less_eq mult.commute)

lemma new_line_inside:
  assumes "writer_ok w"
  shows "stays_inside (w, fb) (new_line (w, fb))"
proof -
  have "snd (new_line (w, fb)) j = fb j" if "pitch w * height w \<le> j" for j
  proof -
    have "\<not> j < height w * pitch w" using that by (simp add: mult.commute)
    moreover have "(height w - 8 * scale w) * pitch w \<le> height w * pitch w" by (intro mult_le_mono1) simp
    ultimately have "\<not> j < (height w - 8 * scale w) * pitch w" by linarith
    then show ?thesis using assms \<open>\<not> j < height w * pitch w\<close> by (simp add: new_line_snd scroll_up_pixels)
  qed
  then show ?thesis using assms by (auto simp: stays_inside_def new_line_fst writer_ok_def)
qed

lemma fill_rows_inside:
  assumes "writer_ok w"
  shows "stays_inside (w, fb) (w, fill_rows w [0..<8 * scale w] fb)"
proof -
  have "dims_ok (info w)" "y_pos w \<le> height w" "8 * scale w < 2 ^ 62" "0 < pitch w"
    using assms by (auto simp: writer_ok_def dims_ok_def)
  then show ?thesis
    using assms outside_div [of "pitch w" "height w"] by (force simp: stays_inside_def fill_rows_pixels)
qed

lemma fill_remainder_inside:
  assumes "writer_ok w"
  shows "stays_inside (w, fb) (fill_remainder (w, fb))"
proof -
  define fb' where "fb' = (if x_pos w < width w then fill_rows w [0..<8 * scale w] fb else fb)"
  have "stays_inside (w, fb) (w, fb')"
    using assms fill_rows_inside stays_inside_refl by (simp add: fb'_def)
  moreover have "fill_remainder (w, fb) = new_line (w, fb')"
    using assms by (simp add: fill_remainder_def Let_def FONT_HEIGHT_def fb'_def)
  ultimately show ?thesis using stays_inside_trans [OF _ new_line_inside [OF assms]] by simp
qed

definition font_ok :: "font \<Rightarrow> bool" where
  "font_ok font \<longleftrightarrow> (\<forall>c g. font c = Some g \<longrightarrow> length g = 8)"

lemma draw_char_inside:
  assumes "writer_ok w" "font_ok font" "x \<le> width w" "y \<le> height w"
  shows "stays_inside (w, fb) (draw_char font x y c (w, fb))"
proof (cases "font c")
  case None
  then show ?thesis using assms by (simp add: draw_char_none stays_inside_refl)
next
  case (Some g)
  then have "length g = 8" using assms(2) by (simp add: font_ok_def)
  moreover have "0 < pitch w" using assms(1) by (simp add: writer_ok_def dims_ok_def)
  ultimately show ?thesis
    using Some assms outside_div [of "pitch w" "height w"]
    by (force simp: stays_inside_def draw_char_pixels)
qed

lemma wrap_line_inside: "writer_ok (fst s) \<Longrightarrow> stays_inside s (wrap_line s)"
  by (cases s) (simp add: wrap_line_def new_line_inside stays_inside_refl)

lemma wrap_line_room: "writer_ok w \<Longrightarrow> x_pos (fst (wrap_line (w, fb))) + 8 * scale w \<le> width w"
  by (auto simp: wrap_line_def new_line_fst writer_ok_def)

lemma wrap_line_style [simp]:
  "writer_ok w \<Longrightarrow> scale (fst (wrap_line (w, fb))) = scale w"
  "writer_ok w \<Longrightarrow> text_color (fst (wrap_line (w, fb))) = text_color w"
  "writer_ok w \<Longrightarrow> bg_color (fst (wrap_line (w, fb))) = bg_color w"
  "writer_ok w \<Longrightarrow> info (fst (wrap_line (w, fb))) = info w"
  by (auto simp: wrap_line_def new_line_fst)

lemma write_byte_inside:
  assumes "writer_ok (fst s)" "font_ok font"
  shows "stays_inside s (write_byte font byte s)"
proof (cases "byte = 10")
  case True
  then show ?thesis using assms write_byte_split [of s font byte] fill_remainder_inside [of "fst s" "snd s"] by simp
next
  case False
  obtain w' fb' where s': "wrap_line s = (w', fb')" by force
  have i: "stays_inside s (w', fb')" using wrap_line_inside [OF assms(1)] s' by simp
  then have ok: "writer_ok w'" by (simp add: stays_inside_def)
  have sc: "scale w' = scale (fst s)" "info w' = info (fst s)"
    using assms(1) s' wrap_line_style(1,4) [of "fst s" "snd s"] by simp_all
  have room: "x_pos w' + 8 * scale (fst s) \<le> width (fst s)"
    using assms(1) s' wrap_line_room [of "fst s" "snd s"] by simp
  have "stays_inside (w', fb') (draw_char font (x_pos w') (y_pos w') (unat byte) (w', fb'))"
    using ok assms(2) by (intro draw_char_inside) (auto simp: writer_ok_def)
  then have "stays_inside s (draw_char font (x_pos w') (y_pos w') (unat byte) (w', fb'))"
    using i stays_inside_trans by blast
  moreover have "usize_add (x_pos w') (8 * scale (fst s)) = x_pos w' + 8 * scale (fst s)"
    using ok room sc by (intro usize_add_small) (simp add: writer_ok_def dims_ok_def)
  ultimately show ?thesis
    using False assms(1) s' room ok sc
    by (simp add: write_byte_split Let_def stays_inside_def writer_ok_def)
qed

lemma write_str_inside:
  "writer_ok (fst s) \<Longrightarrow> font_ok font \<Longrightarrow> stays_inside s (write_str font cs s)"
  unfolding write_str_def
proof (induction cs arbitrary: s)
  case Nil
  then show ?case by (simp add: stays_inside_refl)
next
  case (Cons c cs)
  have i: "stays_inside s (write_byte font (ucast c) s)" using Cons.prems by (rule write_byte_inside)
  then show ?case using Cons stays_inside_trans [OF i] by (simp add: stays_inside_def)
qed

text \<open>The public interface of the module, one constructor per function, and its runs.\<close>

datatype screen_op =
    Print "u32 list" | PrintChar u32 | SetText u32 | SetBackground u32 | SetScale nat
  | ClearScreen u32 | ResetStyle

fun screen_step :: "font \<Rightarrow> screen_op \<Rightarrow> display \<Rightarrow> display" where
  "screen_step font (Print cs) d = screen_print font cs d"
| "screen_step font (PrintChar c) d = print_char font c d"
| "screen_step font (SetText c) d = set_text_color c d"
| "screen_step font (SetBackground c) d = set_background_color c d"
| "screen_step font (SetScale n) d = set_scale n d"
| "screen_step font (ClearScreen c) d = clear_screen c d"
| "screen_step font ResetStyle d = reset_style d"

definition scale_ok :: "FrameBufferInfo \<Rightarrow> nat \<Rightarrow> bool" where
  "scale_ok i n \<longleftrightarrow> 0 < n \<and> 8 * n \<le> fb_width i \<and> 8 * n \<le> fb_height i"

fun op_ok :: "FrameBufferInfo \<Rightarrow> screen_op \<Rightarrow> bool" where
  "op_ok i (SetScale n) = scale_ok i n"
| "op_ok i _ = True"

definition display_ok :: "FrameBufferInfo \<Rightarrow> display \<Rightarrow> bool" where
  "display_ok i d \<longleftrightarrow> (\<exists>w. writer d = Some w \<and> writer_ok w \<and> info w = i)"

lemma display_step:
  assumes "display_ok i d" "\<And>w. writer_ok w \<Longrightarrow> info w = i \<Longrightarrow> stays_inside (w, pixels d) (f (w, pixels d))"
  shows "display_ok i (with_writer f d) \<and> (\<forall>j \<ge> stride i * fb_height i. pixels (with_writer f d) j = pixels d j)"
proof -
  obtain w where w: "writer d = Some w" "writer_ok w" "info w = i" using assms(1) by (auto simp: display_ok_def)
  obtain w' fb' where f: "f (w, pixels d) = (w', fb')" by force
  then have "stays_inside (w, pixels d) (w', fb')" using assms(2) [OF w(2,3)] by simp
  then show ?thesis using w f by (auto simp: display_ok_def with_writer_def stays_inside_def)
qed

lemma style_inside:
  assumes "writer_ok w" "info (f w) = info w" "x_pos (f w) = x_pos w" "y_pos (f w) = y_pos w" "scale_ok (info w) (scale (f w))"
  shows "stays_inside (w, fb) (apfst f (w, fb))"
  using assms by (auto simp: stays_inside_def writer_ok_def scale_ok_def)

lemma clear_inside: "writer_ok w \<Longrightarrow> stays_inside (w, fb) (clear color (w, fb))"
proof -
  assume ok: "writer_ok w"
  then have d: "dims_ok (info w)" "0 < pitch w" by (auto simp: writer_ok_def dims_ok_def)
  have "fst (clear color (w, fb)) = w\<lparr>x_pos := 0, y_pos := 0\<rparr>" by (simp add: clear_def Let_def)
  then show ?thesis
    using ok d outside_div [of "pitch w" "height w"] by (force simp: stays_inside_def clear_pixels writer_ok_def)
qed

lemma screen_step_inside:
  assumes "display_ok i d" "font_ok font" "op_ok i p" "scale_ok i 2"
  shows "display_ok i (screen_step font p d) \<and>
    (\<forall>j \<ge> stride i * fb_height i. pixels (screen_step font p d) j = pixels d j)"
proof -
  have s: "scale_ok i (scale w)" if "writer_ok w" "info w = i" for w
    using that by (auto simp: scale_ok_def writer_ok_def)
  note style_defs = set_text_color_def set_background_color_def set_scale_def reset_style_def
    writer_set_text_color_def writer_set_background_color_def writer_set_scale_def
  show ?thesis
    using assms s
    by (cases p)
      (auto simp only: screen_step.simps screen_print_def print_char_def clear_screen_def style_defs
        intro!: display_step write_str_inside write_byte_inside style_inside clear_inside, auto simp: style_defs)
qed

definition screen_run :: "font \<Rightarrow> screen_op list \<Rightarrow> display \<Rightarrow> display" where
  "screen_run font ops d = fold (screen_step font) ops d"

text \<open>C21. Whatever sequence of calls of the screen module follows \<open>init\<close>, with scales that fit the
  screen, the writer exists, its cursor is on the screen, and no pixel outside the
  \<open>stride * height\<close> buffer is ever written.\<close>

theorem screen_writes_stay_inside:
  assumes "font_ok font" "dims_ok i" "scale_ok i 2" "\<forall>p \<in> set ops. op_ok i p"
  shows "\<exists>w. writer (screen_run font ops (screen_init i d)) = Some w \<and> info w = i \<and>
      x_pos w \<le> fb_width i \<and> y_pos w \<le> fb_height i \<and>
      (\<forall>j \<ge> stride i * fb_height i. pixels (screen_run font ops (screen_init i d)) j = pixels d j)"
proof -
  have run: "display_ok i (screen_run font qs e) \<and>
      (\<forall>j \<ge> stride i * fb_height i. pixels (screen_run font qs e) j = pixels e j)"
    if "display_ok i e" "\<forall>p \<in> set qs. op_ok i p" for qs e
    using that
  proof (induction qs arbitrary: e)
    case Nil
    then show ?case by (simp add: screen_run_def)
  next
    case (Cons p qs)
    then show ?case using screen_step_inside [OF Cons.prems(1) assms(1) _ assms(3), of p] by (simp add: screen_run_def)
  qed
  have "display_ok i (screen_init i d)"
    using assms(2,3) by (simp add: display_ok_def screen_init_def init_writer_def writer_ok_def scale_ok_def)
  from run [OF this assms(4)] show ?thesis
    by (auto simp: display_ok_def writer_ok_def screen_init_def)
qed

definition small_info :: FrameBufferInfo where
  "small_info = \<lparr>buffer_base = 0xFFFF900000000000, buffer_size = 4096, fb_width = 32, fb_height = 32,
     stride = 32, format = BGR\<rparr>"

theorem screen_writes_stay_inside_witness:
  "\<exists>w. writer (screen_run (\<lambda>_. Some [1,2,4,8,16,32,64,128]) [SetScale 3, Print [65, 10, 66], ResetStyle]
        (screen_init small_info \<lparr>writer = None, pixels = \<lambda>_. 7\<rparr>)) = Some w \<and> info w = small_info \<and>
      x_pos w \<le> 32 \<and> y_pos w \<le> 32 \<and>
      (\<forall>j \<ge> 32 * 32. pixels (screen_run (\<lambda>_. Some [1,2,4,8,16,32,64,128]) [SetScale 3, Print [65, 10, 66], ResetStyle]
        (screen_init small_info \<lparr>writer = None, pixels = \<lambda>_. 7\<rparr>)) j = 7)"
  using screen_writes_stay_inside [of "\<lambda>_. Some [1,2,4,8,16,32,64,128]" small_info
      "[SetScale 3, Print [65, 10, 66], ResetStyle]" "\<lparr>writer = None, pixels = \<lambda>_. 7\<rparr>"]
  by (simp add: font_ok_def dims_ok_def scale_ok_def small_info_def)

section \<open>Colours\<close>

text \<open>Byte \<open>k\<close> of a pixel as it lies in the little-endian frame buffer.\<close>

definition pixel_byte :: "nat \<Rightarrow> u32 \<Rightarrow> u32" where
  "pixel_byte k c = take_bit 8 (drop_bit (8 * k) c)"

text \<open>For a colour \<open>0xRRGGBB\<close>, an RGB screen receives red in byte 0, green in byte 1 and blue
  in byte 2 of the pixel; a BGR screen receives blue, green, red.\<close>

theorem convert_color_byte_order:
  "pixel_byte 1 (convert_color w c) = pixel_byte 1 c \<and>
   (if format (info w) = RGB
    then pixel_byte 0 (convert_color w c) = pixel_byte 2 c \<and> pixel_byte 2 (convert_color w c) = pixel_byte 0 c
    else pixel_byte 0 (convert_color w c) = pixel_byte 0 c \<and> pixel_byte 2 (convert_color w c) = pixel_byte 2 c)"
proof -
  have m: "(0xff :: u32) = mask 8" by (simp add: mask_eq_exp_minus_1)
  have "pixel_byte 1 ((push_bit 16 (c AND 0xff) OR push_bit 8 (drop_bit 8 c AND 0xff)) OR (drop_bit 16 c AND 0xff)) = pixel_byte 1 c"
    "pixel_byte 0 ((push_bit 16 (c AND 0xff) OR push_bit 8 (drop_bit 8 c AND 0xff)) OR (drop_bit 16 c AND 0xff)) = pixel_byte 2 c"
    "pixel_byte 2 ((push_bit 16 (c AND 0xff) OR push_bit 8 (drop_bit 8 c AND 0xff)) OR (drop_bit 16 c AND 0xff)) = pixel_byte 0 c"
    unfolding m by (rule bit_word_eqI; auto simp: pixel_byte_def bit_simps)+
  then show ?thesis by (cases "format (info w)") (simp_all add: convert_color_def Let_def)
qed

text \<open>\<open>init\<close> stores the default colours without converting them: on an RGB screen the background
  of everything printed before the first \<open>reset_style\<close> or \<open>set_background_color\<close> is not
  the blue that \<open>clear_screen(0x0000FF)\<close> paints but red, while a BGR screen shows the intended blue.\<close>

theorem init_background_unconverted:
  "bg_color (init_writer i) \<noteq> convert_color (init_writer i) 0x0000ff \<longleftrightarrow> format i = RGB"
  by (cases "format i") (simp_all add: init_writer_def convert_color_def Let_def push_bit_of_1)

end
