(* ===== verification/Console.thy ===== *)
theory Console
  imports Screen
begin

text \<open>
  The two outputs of the kernel and the printing functions over them:
  \<open>shared::serial::_print\<close> (\<open>shared/src/serial.rs\<close>) writes to the serial port,
  \<open>writer::_print\<close> (\<open>kernel/src/writer.rs\<close>), behind \<open>print!\<close> and \<open>println!\<close>,
  to the serial port and then to the screen. The serial port is the sequence of characters handed to
  the UART driver. The formatting of the integers that the messages contain is Rust's \<open>{}\<close> and
  \<open>{:#x}\<close>.
\<close>

record console =
  serial :: "u32 list"
  display :: display

definition chars :: "string \<Rightarrow> u32 list" where
  "chars s = map of_char s"

fun digits :: "nat \<Rightarrow> nat \<Rightarrow> nat \<Rightarrow> string" where
  "digits 0 base n = []"
| "digits (Suc k) base n =
     (let d = n mod base; ch = char_of (if d < 10 then 48 + d else 87 + d)
      in (if n < base then [ch] else digits k base (n div base) @ [ch]))"

text \<open>Twenty decimal or sixteen hexadecimal digits are enough for 64 bits.\<close>

definition dec :: "nat \<Rightarrow> string" where
  "dec n = digits 20 10 n"

definition dec_i64 :: "i64 \<Rightarrow> string" where
  "dec_i64 i = (if i < 0 then ''-'' @ dec (nat (- i)) else dec (nat i))"

definition hex :: "nat \<Rightarrow> string" where
  "hex n = ''0x'' @ digits 16 16 n"

definition serial_print :: "u32 list \<Rightarrow> console \<Rightarrow> console" where
  "serial_print txt c = c\<lparr>serial := serial c @ txt\<rparr>"

definition console_print :: "font \<Rightarrow> u32 list \<Rightarrow> console \<Rightarrow> console" where
  "console_print font txt c =
     (let c = serial_print txt c
      in c\<lparr>display := screen_print font txt (display c)\<rparr>)"

definition console_print_char :: "font \<Rightarrow> u32 \<Rightarrow> console \<Rightarrow> console" where
  "console_print_char font ch c = c\<lparr>display := print_char font ch (display c)\<rparr>"

text \<open>\<open>fmt::Write\<close> delivers a message in pieces; the pieces print as their concatenation does.\<close>

lemma with_writer_comp: "with_writer g (with_writer f d) = with_writer (\<lambda>s. g (f s)) d"
  by (auto simp: with_writer_def split: option.split prod.split)

lemma screen_print_append: "screen_print font (xs @ ys) d = screen_print font ys (screen_print font xs d)"
  by (simp add: screen_print_def with_writer_comp write_str_def [abs_def] comp_def)

lemma console_print_append: "console_print font (xs @ ys) c = console_print font ys (console_print font xs c)"
  by (simp add: console_print_def serial_print_def Let_def screen_print_append)

text \<open>Printing a string character by character with \<open>print_char\<close> is printing it.\<close>

lemma screen_print_Nil [simp]: "screen_print font [] d = d"
  by (simp add: screen_print_def with_writer_def write_str_def split: option.split)

lemma print_chars: "fold (print_char font) cs d = screen_print font cs d"
proof (induction cs arbitrary: d)
  case (Cons c cs)
  have "print_char font c d = screen_print font [c] d" by (simp add: print_char_def screen_print_def write_str_def [abs_def])
  then show ?case using Cons screen_print_append [of font "[c]" cs d] by simp
qed simp

lemma console_print_chars:
  "fold (console_print_char font) cs c = c\<lparr>display := screen_print font cs (display c)\<rparr>"
proof -
  have "fold (console_print_char font) cs c = c\<lparr>display := fold (print_char font) cs (display c)\<rparr>"
    by (induction cs arbitrary: c) (simp_all add: console_print_char_def)
  then show ?thesis by (simp add: print_chars)
qed

lemma console_frame [frame_simps]:
  "serial (console_print_char font ch c) = serial c"
  "display (serial_print txt c) = display c"
  "serial (serial_print txt c) = serial c @ txt"
  "serial (console_print font txt c) = serial c @ txt"
  "display (console_print font txt c) = screen_print font txt (display c)"
  by (simp_all add: console_print_char_def serial_print_def console_print_def Let_def)

end
