(* ===== verification/Utf8.thy ===== *)
theory Utf8
  imports Cat_Prelude
begin

text \<open>
  The part of Rust's string library the system calls use: \<open>core::str::from_utf8\<close> followed by
  \<open>chars\<close>, as a function from bytes to scalar values that fails on ill-formed input, and the
  encoder, for stating what well-formed input is. The accepted sequences are those of the Unicode
  standard, which excludes overlong forms, surrogates and values above \<open>0x10FFFF\<close>.
\<close>

definition between :: "nat \<Rightarrow> nat \<Rightarrow> u8 \<Rightarrow> bool" where
  "between lo hi b \<longleftrightarrow> lo \<le> unat b \<and> unat b \<le> hi"

definition tail_byte :: "u8 \<Rightarrow> bool" where
  "tail_byte b \<longleftrightarrow> between 0x80 0xBF b"

text \<open>The range of the second byte depends on the first.\<close>

definition second_ok :: "u8 \<Rightarrow> u8 \<Rightarrow> bool" where
  "second_ok b0 b1 \<longleftrightarrow>
     (if unat b0 = 0xE0 then between 0xA0 0xBF b1
      else if unat b0 = 0xED then between 0x80 0x9F b1
      else if unat b0 = 0xF0 then between 0x90 0xBF b1
      else if unat b0 = 0xF4 then between 0x80 0x8F b1
      else tail_byte b1)"

fun decode_one :: "u8 list \<Rightarrow> (nat \<times> u8 list) option" where
  "decode_one [] = None"
| "decode_one (b0 # r) =
     (if between 0 0x7F b0 then Some (unat b0, r)
      else if between 0xC2 0xDF b0 then
        (case r of
           b1 # r1 \<Rightarrow> if tail_byte b1 then Some ((unat b0 - 0xC0) * 64 + (unat b1 - 0x80), r1) else None
         | _ \<Rightarrow> None)
      else if between 0xE0 0xEF b0 then
        (case r of
           b1 # b2 # r2 \<Rightarrow>
             if second_ok b0 b1 \<and> tail_byte b2
             then Some (((unat b0 - 0xE0) * 64 + (unat b1 - 0x80)) * 64 + (unat b2 - 0x80), r2) else None
         | _ \<Rightarrow> None)
      else if between 0xF0 0xF4 b0 then
        (case r of
           b1 # b2 # b3 # r3 \<Rightarrow>
             if second_ok b0 b1 \<and> tail_byte b2 \<and> tail_byte b3
             then Some ((((unat b0 - 0xF0) * 64 + (unat b1 - 0x80)) * 64 + (unat b2 - 0x80)) * 64 + (unat b3 - 0x80), r3)
             else None
         | _ \<Rightarrow> None)
      else None)"

lemma decode_one_shorter: "decode_one bs = Some (c, r) \<Longrightarrow> length r < length bs"
  by (cases bs) (auto split: if_splits list.splits)

function utf8_decode :: "u8 list \<Rightarrow> u32 list option" where
  "utf8_decode bs =
     (if bs = [] then Some []
      else case decode_one bs of
             None \<Rightarrow> None
           | Some (c, r) \<Rightarrow> map_option (Cons (of_nat c)) (utf8_decode r))"
  by auto
termination
  by (relation "measure length") (auto intro: decode_one_shorter)

declare utf8_decode.simps [simp del]

text \<open>A Rust \<open>char\<close>: a Unicode scalar value, and its encoding.\<close>

definition scalar :: "nat \<Rightarrow> bool" where
  "scalar c \<longleftrightarrow> c < 0x110000 \<and> \<not> (0xD800 \<le> c \<and> c < 0xE000)"

definition utf8_encode :: "nat \<Rightarrow> u8 list" where
  "utf8_encode c =
     (if c < 0x80 then [of_nat c]
      else if c < 0x800 then [of_nat (0xC0 + c div 64), of_nat (0x80 + c mod 64)]
      else if c < 0x10000 then
        [of_nat (0xE0 + c div 64 div 64), of_nat (0x80 + c div 64 mod 64), of_nat (0x80 + c mod 64)]
      else
        [of_nat (0xF0 + c div 64 div 64 div 64), of_nat (0x80 + c div 64 div 64 mod 64),
         of_nat (0x80 + c div 64 mod 64), of_nat (0x80 + c mod 64)])"

lemma unat_u8: "n < 256 \<Longrightarrow> unat (of_nat n :: u8) = n"
  by (simp add: unat_of_nat take_bit_nat_eq_self)

lemma decode_one_encode:
  assumes "scalar c"
  shows "decode_one (utf8_encode c @ r) = Some (c, r)"
proof -
  define a t where "a = c div 64" and "t = c mod 64"
  define b m where "b = a div 64" and "m = a mod 64"
  define h k where "h = b div 64" and "k = b mod 64"
  have eqs: "c = a * 64 + t" "a = b * 64 + m" "b = h * 64 + k" and lt: "t < 64" "m < 64" "k < 64"
    by (simp_all add: a_def t_def b_def m_def h_def k_def)
  have enc: "utf8_encode c =
     (if c < 0x80 then [of_nat c]
      else if c < 0x800 then [of_nat (0xC0 + a), of_nat (0x80 + t)]
      else if c < 0x10000 then [of_nat (0xE0 + b), of_nat (0x80 + m), of_nat (0x80 + t)]
      else [of_nat (0xF0 + h), of_nat (0x80 + k), of_nat (0x80 + m), of_nat (0x80 + t)])"
    by (simp add: utf8_encode_def a_def t_def b_def m_def h_def k_def)
  have tails: "unat (of_nat (0x80 + t) :: u8) = 0x80 + t" "unat (of_nat (0x80 + m) :: u8) = 0x80 + m"
    "unat (of_nat (0x80 + k) :: u8) = 0x80 + k"
    using lt by (intro unat_u8; simp)+
  consider "c < 0x80" | "0x80 \<le> c" "c < 0x800" | "0x800 \<le> c" "c < 0x10000" | "0x10000 \<le> c" by linarith
  then show ?thesis
  proof cases
    case 1
    then show ?thesis by (simp add: enc between_def unat_u8)
  next
    case 2
    have "unat (of_nat (0xC0 + a) :: u8) = 0xC0 + a" using 2 eqs by (intro unat_u8) linarith
    moreover have "2 \<le> a" "a < 32" using 2 eqs lt by linarith+
    moreover have "a * 64 + t = c" using eqs by simp
    ultimately show ?thesis
      using 2 lt tails by (simp add: enc between_def tail_byte_def del: of_nat_add)
  next
    case 3
    have nested: "(b * 64 + m) * 64 + t = c" using eqs by simp
    then have v: "b * 4096 + m * 64 + t = c" by simp
    have "b < 16" using 3 v by linarith
    moreover have "unat (of_nat (0xE0 + b) :: u8) = 0xE0 + b" using \<open>b < 16\<close> by (intro unat_u8) linarith
    moreover have "b = 0 \<longrightarrow> 32 \<le> m" using 3 v lt by linarith
    moreover have "b = 13 \<longrightarrow> m \<le> 31" using v lt assms unfolding scalar_def by linarith
    ultimately show ?thesis
      using 3 nested lt tails by (simp add: enc between_def tail_byte_def second_ok_def del: of_nat_add)
  next
    case 4
    have nested: "((h * 64 + k) * 64 + m) * 64 + t = c" using eqs by simp
    then have v: "h * 262144 + k * 4096 + m * 64 + t = c" by simp
    have "h < 5" using assms v unfolding scalar_def by linarith
    moreover have "unat (of_nat (0xF0 + h) :: u8) = 0xF0 + h" using \<open>h < 5\<close> by (intro unat_u8) linarith
    moreover have "h = 0 \<longrightarrow> 16 \<le> k" using 4 v lt by linarith
    moreover have "h = 4 \<longrightarrow> k \<le> 15" using v lt assms unfolding scalar_def by linarith
    ultimately show ?thesis
      using 4 nested lt tails by (simp add: enc between_def tail_byte_def second_ok_def del: of_nat_add)
  qed
qed

lemma utf8_encode_nonempty: "utf8_encode c \<noteq> []"
  by (simp add: utf8_encode_def)

text \<open>Decoding inverts encoding.\<close>

lemma utf8_decode_encode:
  "\<forall>c \<in> set cs. scalar c \<Longrightarrow> utf8_decode (concat (map utf8_encode cs)) = Some (map of_nat cs)"
proof (induction cs)
  case Nil
  then show ?case by (simp add: utf8_decode.simps)
next
  case (Cons c cs)
  then show ?case
    using utf8_encode_nonempty [of c] decode_one_encode [of c "concat (map utf8_encode cs)"]
    by (subst utf8_decode.simps) simp
qed

end
