(* ===== verification/Syscalls.thy ===== *)
theory Syscalls
  imports Console Memory Utf8 Helpers
begin

text \<open>
  The system calls of \<open>kernel/src/syscalls.rs\<close> behind the entry code: the dispatcher and every
  handler. The kernel state holds the memory that user pointers reach, which of its bytes can be read
  and written without a page fault, the statics of the file and the two segment bases. A handler
  returns its result and the new state, or stops the machine: by a page fault on a user pointer, by a
  panic, or because the process has exited. \<open>VirtAddr::new\<close> of the \<open>x86_64\<close> crate is the
  parameter \<open>virt_addr_new\<close>, \<open>None\<close> its panic.
\<close>

section \<open>State and results\<close>

record kernel =
  kmem :: memory
  readable :: "u64 \<Rightarrow> bool"
  writable :: "u64 \<Rightarrow> bool"
  CURRENT_BRK :: u64
  MMAP_NEXT :: u64
  MMAP_END :: u64
  SEED :: u64
  fs_base :: u64
  gs_base :: u64
  con :: console

datatype stop = PageFault u64 | Halted kernel | Panicked panic

definition statics :: "kernel \<Rightarrow> kernel" where
  "statics k = k\<lparr>CURRENT_BRK := 0x8000000, MMAP_NEXT := 0x480000, MMAP_END := 0x500000,
     SEED := 0x12345678DEADBEEF\<rparr>"

text \<open>Accesses through user pointers.\<close>

definition user_load :: "u64 \<Rightarrow> nat \<Rightarrow> kernel \<Rightarrow> stop + u8 list" where
  "user_load a n k =
     (case find (\<lambda>i. \<not> readable k (a + of_nat i)) [0..<n] of
        Some i \<Rightarrow> Inl (PageFault (a + of_nat i))
      | None \<Rightarrow> Inr (load_bytes (kmem k) a n))"

definition user_store :: "u64 \<Rightarrow> u8 list \<Rightarrow> kernel \<Rightarrow> stop + kernel" where
  "user_store a bs k =
     (case find (\<lambda>i. \<not> writable k (a + of_nat i)) [0..<length bs] of
        Some i \<Rightarrow> Inl (PageFault (a + of_nat i))
      | None \<Rightarrow> Inr (k\<lparr>kmem := store_bytes (kmem k) a bs\<rparr>))"

definition println :: "font \<Rightarrow> string \<Rightarrow> kernel \<Rightarrow> kernel" where
  "println font s k = k\<lparr>con := console_print font (chars s @ [10]) (con k)\<rparr>"

definition klog :: "string \<Rightarrow> kernel \<Rightarrow> kernel" where
  "klog s k = k\<lparr>con := serial_print (chars s @ [10]) (con k)\<rparr>"

section \<open>Numbers\<close>

definition SYS_READ :: u64 where "SYS_READ = 0"
definition SYS_WRITE :: u64 where "SYS_WRITE = 1"
definition SYS_FSTAT :: u64 where "SYS_FSTAT = 5"
definition SYS_POLL :: u64 where "SYS_POLL = 7"
definition SYS_MMAP :: u64 where "SYS_MMAP = 9"
definition SYS_MPROTECT :: u64 where "SYS_MPROTECT = 10"
definition SYS_MUNMAP :: u64 where "SYS_MUNMAP = 11"
definition SYS_BRK :: u64 where "SYS_BRK = 12"
definition SYS_RT_SIGACTION :: u64 where "SYS_RT_SIGACTION = 13"
definition SYS_RT_SIGPROCMASK :: u64 where "SYS_RT_SIGPROCMASK = 14"
definition SYS_IOCTL :: u64 where "SYS_IOCTL = 16"
definition SYS_WRITEV :: u64 where "SYS_WRITEV = 20"
definition SYS_MADVISE :: u64 where "SYS_MADVISE = 28"
definition SYS_EXIT :: u64 where "SYS_EXIT = 60"
definition SYS_SIGALTSTACK :: u64 where "SYS_SIGALTSTACK = 131"
definition SYS_ARCH_PRCTL :: u64 where "SYS_ARCH_PRCTL = 158"
definition SYS_SET_TID_ADDRESS :: u64 where "SYS_SET_TID_ADDRESS = 218"
definition SYS_EXIT_GROUP :: u64 where "SYS_EXIT_GROUP = 231"
definition SYS_GETRANDOM :: u64 where "SYS_GETRANDOM = 318"

definition ARCH_SET_GS :: u64 where "ARCH_SET_GS = 0x1001"
definition ARCH_SET_FS :: u64 where "ARCH_SET_FS = 0x1002"
definition ARCH_GET_FS :: u64 where "ARCH_GET_FS = 0x1003"
definition ARCH_GET_GS :: u64 where "ARCH_GET_GS = 0x1004"

definition STDOUT :: u64 where "STDOUT = 1"
definition STDERR :: u64 where "STDERR = 2"

lemmas sys_numbers = SYS_READ_def SYS_WRITE_def SYS_FSTAT_def SYS_POLL_def SYS_MMAP_def SYS_MPROTECT_def
  SYS_MUNMAP_def SYS_BRK_def SYS_RT_SIGACTION_def SYS_RT_SIGPROCMASK_def SYS_IOCTL_def SYS_WRITEV_def
  SYS_MADVISE_def SYS_EXIT_def SYS_SIGALTSTACK_def SYS_ARCH_PRCTL_def SYS_SET_TID_ADDRESS_def
  SYS_EXIT_GROUP_def SYS_GETRANDOM_def

lemmas arch_numbers = ARCH_SET_GS_def ARCH_SET_FS_def ARCH_GET_FS_def ARCH_GET_GS_def

section \<open>Handlers\<close>

definition sys_write :: "font \<Rightarrow> u64 \<Rightarrow> u64 \<Rightarrow> u64 \<Rightarrow> kernel \<Rightarrow> stop + (i64 \<times> kernel)" where
  "sys_write font fd buf count k =
     (if fd \<noteq> STDOUT \<and> fd \<noteq> STDERR then Inr (- 9, k)
      else and_then (user_load buf (unat count) k) (\<lambda>slice.
        let k' = (case utf8_decode slice of
                    Some s \<Rightarrow>
                      k\<lparr>con := serial_print s (fold (console_print_char font) s (con k))\<rparr>
                  | None \<Rightarrow>
                      k\<lparr>con := fold (\<lambda>byte. console_print_char font (ucast byte)) slice (con k)\<rparr>)
        in Inr (as_i64 count, k')))"

definition sys_read :: "u64 \<Rightarrow> u64 \<Rightarrow> u64 \<Rightarrow> kernel \<Rightarrow> stop + (i64 \<times> kernel)" where
  "sys_read fd buf count k = Inr (0, k)"

definition sys_exit :: "font \<Rightarrow> u64 \<Rightarrow> kernel \<Rightarrow> stop + (i64 \<times> kernel)" where
  "sys_exit font status k =
     Inl (Halted (println font (CHR 0x0A # ''[KERNEL] User process exited with status: '' @ dec (unat status)) k))"

definition sys_exit_group :: "font \<Rightarrow> u64 \<Rightarrow> kernel \<Rightarrow> stop + (i64 \<times> kernel)" where
  "sys_exit_group font status k = sys_exit font status k"

definition sys_brk :: "u64 \<Rightarrow> kernel \<Rightarrow> stop + (i64 \<times> kernel)" where
  "sys_brk addr k =
     (if addr = 0 then Inr (as_i64 (CURRENT_BRK k), k)
      else if addr \<ge> 0x8000000 \<and> addr < 0x100000000 then Inr (as_i64 addr, k\<lparr>CURRENT_BRK := addr\<rparr>)
      else if addr < CURRENT_BRK k then Inr (as_i64 addr, k\<lparr>CURRENT_BRK := addr\<rparr>)
      else Inr (as_i64 addr, k\<lparr>CURRENT_BRK := addr\<rparr>))"

definition sys_mmap :: "u64 \<Rightarrow> u64 \<Rightarrow> u64 \<Rightarrow> u64 \<Rightarrow> kernel \<Rightarrow> stop + (i64 \<times> kernel)" where
  "sys_mmap addr len prot flags k =
     (let aligned_len = (len + 0xFFF) AND NOT 0xFFF
      in if addr \<noteq> 0 \<and> addr \<ge> 0x1000 then Inr (as_i64 addr, k)
         else if MMAP_NEXT k + aligned_len > MMAP_END k then Inr (- 12, k)
         else Inr (as_i64 (MMAP_NEXT k), k\<lparr>MMAP_NEXT := MMAP_NEXT k + aligned_len\<rparr>))"

definition sys_mprotect :: "u64 \<Rightarrow> u64 \<Rightarrow> u64 \<Rightarrow> kernel \<Rightarrow> stop + (i64 \<times> kernel)" where
  "sys_mprotect addr len prot k = Inr (0, k)"

definition sys_munmap :: "u64 \<Rightarrow> u64 \<Rightarrow> kernel \<Rightarrow> stop + (i64 \<times> kernel)" where
  "sys_munmap addr len k = Inr (0, k)"

definition sys_arch_prctl :: "(u64 \<Rightarrow> u64 option) \<Rightarrow> u64 \<Rightarrow> u64 \<Rightarrow> kernel \<Rightarrow> stop + (i64 \<times> kernel)" where
  "sys_arch_prctl virt_addr_new code addr k =
     (if code = ARCH_SET_FS then
        (case virt_addr_new addr of
           None \<Rightarrow> Inl (Panicked (Panic ''VirtAddr::new'')) | Some v \<Rightarrow> Inr (0, k\<lparr>fs_base := v\<rparr>))
      else if code = ARCH_GET_FS then
        and_then (user_store addr (le_bytes 8 (fs_base k)) k) (\<lambda>k. Inr (0, k))
      else if code = ARCH_SET_GS then
        (case virt_addr_new addr of
           None \<Rightarrow> Inl (Panicked (Panic ''VirtAddr::new'')) | Some v \<Rightarrow> Inr (0, k\<lparr>gs_base := v\<rparr>))
      else if code = ARCH_GET_GS then
        and_then (user_store addr (le_bytes 8 (gs_base k)) k) (\<lambda>k. Inr (0, k))
      else Inr (- 22, k))"

definition sys_set_tid_address :: "u64 \<Rightarrow> kernel \<Rightarrow> stop + (i64 \<times> kernel)" where
  "sys_set_tid_address tidptr k = Inr (1, k)"

definition sys_poll :: "u64 \<Rightarrow> u64 \<Rightarrow> u64 \<Rightarrow> kernel \<Rightarrow> stop + (i64 \<times> kernel)" where
  "sys_poll fds nfds timeout k = Inr (0, k)"

definition sys_rt_sigaction :: "u64 \<Rightarrow> u64 \<Rightarrow> u64 \<Rightarrow> kernel \<Rightarrow> stop + (i64 \<times> kernel)" where
  "sys_rt_sigaction signum act oldact k =
     (if oldact \<noteq> 0 then and_then (user_store oldact (replicate 32 0) k) (\<lambda>k. Inr (0, k)) else Inr (0, k))"

definition sys_rt_sigprocmask :: "u64 \<Rightarrow> u64 \<Rightarrow> u64 \<Rightarrow> u64 \<Rightarrow> kernel \<Rightarrow> stop + (i64 \<times> kernel)" where
  "sys_rt_sigprocmask how new_set oldset sigsetsize k =
     (if oldset \<noteq> 0 then and_then (user_store oldset (replicate 8 0) k) (\<lambda>k. Inr (0, k)) else Inr (0, k))"

definition sys_sigaltstack :: "u64 \<Rightarrow> u64 \<Rightarrow> kernel \<Rightarrow> stop + (i64 \<times> kernel)" where
  "sys_sigaltstack ss old_ss k =
     (if old_ss \<noteq> 0
      then and_then (user_store old_ss (le_bytes 8 (0 :: u64)) k) (\<lambda>k.
           and_then (user_store (old_ss + 8) (le_bytes 4 (2 :: u32)) k) (\<lambda>k.
           and_then (user_store (old_ss + 16) (le_bytes 8 (0 :: u64)) k) (\<lambda>k. Inr (0, k))))
      else Inr (0, k))"

definition next_seed :: "u64 \<Rightarrow> u64" where
  "next_seed s = s * 6364136223846793005 + 1"

fun getrandom_loop :: "u64 \<Rightarrow> nat \<Rightarrow> kernel \<Rightarrow> stop + kernel" where
  "getrandom_loop p 0 k = Inr k"
| "getrandom_loop p (Suc n) k =
     (let k = k\<lparr>SEED := next_seed (SEED k)\<rparr>
      in and_then (user_store p [ucast (drop_bit 33 (SEED k))] k) (\<lambda>k. getrandom_loop (p + 1) n k))"

definition sys_getrandom :: "u64 \<Rightarrow> u64 \<Rightarrow> u64 \<Rightarrow> kernel \<Rightarrow> stop + (i64 \<times> kernel)" where
  "sys_getrandom buf buflen flags k =
     and_then (getrandom_loop buf (unat buflen) k) (\<lambda>k. Inr (as_i64 buflen, k))"

definition sys_fstat :: "u64 \<Rightarrow> u64 \<Rightarrow> kernel \<Rightarrow> stop + (i64 \<times> kernel)" where
  "sys_fstat fd statbuf k =
     (if fd \<le> STDERR
      then and_then (user_store statbuf (replicate 144 0) k) (\<lambda>k.
           and_then (user_store (statbuf + 24) (le_bytes 4 (0x2000 OR 0x1B6 :: u32)) k) (\<lambda>k. Inr (0, k)))
      else Inr (- 9, k))"

definition sys_ioctl :: "u64 \<Rightarrow> u64 \<Rightarrow> u64 \<Rightarrow> kernel \<Rightarrow> stop + (i64 \<times> kernel)" where
  "sys_ioctl fd request arg k = Inr (- 25, k)"

text \<open>The \<open>i64\<close> addition of the running total wraps.\<close>

definition i64_add :: "i64 \<Rightarrow> i64 \<Rightarrow> i64" where
  "i64_add a b = as_i64 (word_of_int (a + b))"

fun writev_loop :: "font \<Rightarrow> u64 \<Rightarrow> u64 \<Rightarrow> nat \<Rightarrow> i64 \<Rightarrow> kernel \<Rightarrow> stop + (i64 \<times> kernel)" where
  "writev_loop font fd p 0 acc k = Inr (acc, k)"
| "writev_loop font fd p (Suc n) acc k =
     and_then (user_load p 8 k) (\<lambda>base.
     and_then (user_load (p + 8) 8 k) (\<lambda>len.
     and_then (sys_write font fd (le_word base) (le_word len) k) (\<lambda>(result, k).
       if result < 0 then Inr (result, k)
       else writev_loop font fd (p + 16) n (i64_add acc result) k)))"

definition sys_writev :: "font \<Rightarrow> u64 \<Rightarrow> u64 \<Rightarrow> u64 \<Rightarrow> kernel \<Rightarrow> stop + (i64 \<times> kernel)" where
  "sys_writev font fd iov iovcnt k = writev_loop font fd iov (unat iovcnt) 0 k"

section \<open>Dispatch\<close>

definition dispatch ::
  "font \<Rightarrow> (u64 \<Rightarrow> u64 option) \<Rightarrow> u64 \<Rightarrow> u64 \<Rightarrow> u64 \<Rightarrow> u64 \<Rightarrow> u64 \<Rightarrow> kernel \<Rightarrow> stop + (i64 \<times> kernel)" where
  "dispatch font virt_addr_new nr arg1 arg2 arg3 arg4 k =
     (if nr = SYS_WRITE then sys_write font arg1 arg2 arg3 k
      else if nr = SYS_READ then sys_read arg1 arg2 arg3 k
      else if nr = SYS_EXIT then sys_exit font arg1 k
      else if nr = SYS_EXIT_GROUP then sys_exit_group font arg1 k
      else if nr = SYS_BRK then sys_brk arg1 k
      else if nr = SYS_MMAP then sys_mmap arg1 arg2 arg3 arg4 k
      else if nr = SYS_MPROTECT then sys_mprotect arg1 arg2 arg3 k
      else if nr = SYS_MUNMAP then sys_munmap arg1 arg2 k
      else if nr = SYS_ARCH_PRCTL then sys_arch_prctl virt_addr_new arg1 arg2 k
      else if nr = SYS_SET_TID_ADDRESS then sys_set_tid_address arg1 k
      else if nr = SYS_POLL then sys_poll arg1 arg2 arg3 k
      else if nr = SYS_RT_SIGACTION then sys_rt_sigaction arg1 arg2 arg3 k
      else if nr = SYS_RT_SIGPROCMASK then sys_rt_sigprocmask arg1 arg2 arg3 arg4 k
      else if nr = SYS_SIGALTSTACK then sys_sigaltstack arg1 arg2 k
      else if nr = SYS_GETRANDOM then sys_getrandom arg1 arg2 arg3 k
      else if nr = SYS_FSTAT then sys_fstat arg1 arg2 k
      else if nr = SYS_IOCTL then sys_ioctl arg1 arg2 arg3 k
      else if nr = SYS_WRITEV then sys_writev font arg1 arg2 arg3 k
      else if nr = SYS_MADVISE then Inr (0, k)
      else Inr (- 38, println font (''[SYSCALL] Unhandled syscall: '' @ dec (unat nr)) k))"

definition handle_syscall ::
  "font \<Rightarrow> (u64 \<Rightarrow> u64 option) \<Rightarrow> u64 \<Rightarrow> u64 \<Rightarrow> u64 \<Rightarrow> u64 \<Rightarrow> u64 \<Rightarrow> u64 \<Rightarrow> u64 \<Rightarrow> kernel \<Rightarrow> stop + (i64 \<times> kernel)" where
  "handle_syscall font virt_addr_new nr arg1 arg2 arg3 arg4 arg5 arg6 k =
     (let k = klog (''[SC] nr='' @ dec (unat nr) @ '' a1='' @ hex (unat arg1) @ '' a2='' @ hex (unat arg2) @
                    '' a3='' @ hex (unat arg3)) k
      in and_then (dispatch font virt_addr_new nr arg1 arg2 arg3 arg4 k) (\<lambda>(result, k).
           Inr (result, klog (''[SC] -> '' @ dec_i64 result) k)))"

definition syscall_handler_inner ::
  "font \<Rightarrow> (u64 \<Rightarrow> u64 option) \<Rightarrow> u64 \<Rightarrow> u64 \<Rightarrow> u64 \<Rightarrow> u64 \<Rightarrow> u64 \<Rightarrow> u64 \<Rightarrow> u64 \<Rightarrow> kernel \<Rightarrow> stop + (i64 \<times> kernel)" where
  "syscall_handler_inner font virt_addr_new nr arg1 arg2 arg3 arg4 arg5 arg6 k =
     handle_syscall font virt_addr_new nr arg1 arg2 arg3 arg4 arg5 arg6 k"

section \<open>Accesses through user pointers\<close>

lemma find_upt_None: "find P [0..<n] = None \<longleftrightarrow> (\<forall>i < n. \<not> P i)"
  by (auto simp: find_None_iff)

lemma user_load_ok: "\<forall>i < n. readable k (a + of_nat i) \<Longrightarrow> user_load a n k = Inr (load_bytes (kmem k) a n)"
  using find_upt_None [of "\<lambda>i. \<not> readable k (a + of_nat i)" n] by (simp add: user_load_def)

lemma user_load_Inr: "user_load a n k = Inr bs \<longleftrightarrow> (\<forall>i < n. readable k (a + of_nat i)) \<and> bs = load_bytes (kmem k) a n"
  using find_upt_None [of "\<lambda>i. \<not> readable k (a + of_nat i)" n] by (auto simp: user_load_def split: option.split)

lemma user_store_ok:
  "\<forall>i < length bs. writable k (a + of_nat i) \<Longrightarrow> user_store a bs k = Inr (k\<lparr>kmem := store_bytes (kmem k) a bs\<rparr>)"
  using find_upt_None [of "\<lambda>i. \<not> writable k (a + of_nat i)" "length bs"] by (simp add: user_store_def)

lemma user_store_Inr:
  "user_store a bs k = Inr k' \<longleftrightarrow> (\<forall>i < length bs. writable k (a + of_nat i)) \<and> k' = k\<lparr>kmem := store_bytes (kmem k) a bs\<rparr>"
  using find_upt_None [of "\<lambda>i. \<not> writable k (a + of_nat i)" "length bs"]
  by (auto simp: user_store_def split: option.split)

lemma as_i64_small: "unat w < 2 ^ 63 \<Longrightarrow> as_i64 w = int (unat w)"
proof -
  assume "unat w < 2 ^ 63"
  then have "int (unat w) < int (2 ^ 63)" by (simp only: of_nat_less_iff)
  then have "uint w < 2 ^ 63" by simp
  moreover have "- (2 ^ 63) \<le> uint w" by (rule order.trans [of _ 0]) simp_all
  ultimately have "signed_take_bit 63 (uint w) = uint w" by (simp only: signed_take_bit_int_eq_self)
  then show ?thesis by (simp add: as_i64_def sint_uint)
qed

section \<open>The mmap pool\<close>

text \<open>
  The specification of the pool: 128 pages from \<open>0x480000\<close>, a counter of the pages handed out,
  and a request for \<open>p\<close> pages succeeds when \<open>p\<close> pages are left.
\<close>

definition MMAP_BASE :: nat where "MMAP_BASE = 0x480000"
definition MMAP_PAGES :: nat where "MMAP_PAGES = 128"

fun spec_mmap_run :: "nat list \<Rightarrow> nat \<Rightarrow> i64 list \<times> nat" where
  "spec_mmap_run [] used = ([], used)"
| "spec_mmap_run (p # ps) used =
     (if used + p \<le> MMAP_PAGES
      then apfst (Cons (int (MMAP_BASE + used * 4096))) (spec_mmap_run ps (used + p))
      else apfst (Cons (- 12)) (spec_mmap_run ps used))"

fun mmap_run :: "u64 list \<Rightarrow> kernel \<Rightarrow> stop + (i64 list \<times> kernel)" where
  "mmap_run [] k = Inr ([], k)"
| "mmap_run (len # lens) k =
     and_then (sys_mmap 0 len 3 0x22 k) (\<lambda>(r, k).
     and_then (mmap_run lens k) (\<lambda>(rs, k). Inr (r # rs, k)))"

definition pool_at :: "nat \<Rightarrow> kernel \<Rightarrow> bool" where
  "pool_at used k \<longleftrightarrow> used \<le> MMAP_PAGES \<and> MMAP_END k = 0x500000 \<and> MMAP_NEXT k = of_nat (MMAP_BASE + used * 4096)"

lemma aligned_len:
  fixes len :: u64
  assumes "unat len \<le> 2 ^ 63"
  shows "unat ((len + 0xFFF) AND NOT 0xFFF) = div_ceil (unat len) 4096 * 4096"
proof -
  have m: "(0xFFF :: u64) = mask 12" by (simp add: mask_eq_exp_minus_1)
  have "unat (len + 0xFFF) = unat len + 4095" using assms unat_add_small [of len "0xFFF"] by simp
  then have "unat ((len + 0xFFF) AND NOT 0xFFF) = (unat len + 4095) div 4096 * 4096"
    by (simp only: m unat_and_not_mask) simp
  moreover have "(unat len + 4095) div 4096 = div_ceil (unat len) 4096"
    using div_ceil_round [of 4096 "unat len"] by simp
  ultimately show ?thesis by simp
qed

lemma sys_mmap_pool:
  assumes "pool_at used k" "unat len \<le> 2 ^ 63"
  defines "p \<equiv> div_ceil (unat len) 4096"
  shows "if used + p \<le> MMAP_PAGES
    then \<exists>k'. sys_mmap 0 len prot flags k = Inr (int (MMAP_BASE + used * 4096), k') \<and> pool_at (used + p) k'
    else sys_mmap 0 len prot flags k = Inr (- 12, k)"
proof -
  have nx: "unat (MMAP_NEXT k) = 0x480000 + used * 4096" "used \<le> 128"
    using assms(1) unat_of_nat_small [of "0x480000 + used * 4096"]
    by (auto simp: pool_at_def MMAP_BASE_def MMAP_PAGES_def simp del: of_nat_add of_nat_mult)
  have p: "p * 4096 \<le> 2 ^ 63 + 4095"
    using div_ceil_le_iff [of 4096 "unat len" "2 ^ 51"] assms(2) by (simp add: p_def)
  define L where "L = (len + 0xFFF) AND NOT 0xFFF"
  have al: "unat L = p * 4096" using aligned_len [OF assms(2)] by (simp only: p_def L_def)
  have sum: "unat (MMAP_NEXT k + L) = 0x480000 + (used + p) * 4096"
    using nx p al by (subst unat_add_small) auto
  have gt: "MMAP_NEXT k + L > MMAP_END k \<longleftrightarrow> \<not> used + p \<le> MMAP_PAGES"
    using assms(1) sum by (auto simp: pool_at_def MMAP_PAGES_def word_less_nat_alt)
  have now: "as_i64 (MMAP_NEXT k) = int (MMAP_BASE + used * 4096)"
    using nx by (simp add: as_i64_small MMAP_BASE_def)
  have after: "MMAP_NEXT k + L = of_nat (MMAP_BASE + (used + p) * 4096)"
    using arg_cong [OF sum, of "of_nat :: nat \<Rightarrow> u64"] by (simp add: MMAP_BASE_def)
  have "sys_mmap 0 len prot flags k = (if used + p \<le> MMAP_PAGES
      then Inr (int (MMAP_BASE + used * 4096), k\<lparr>MMAP_NEXT := of_nat (MMAP_BASE + (used + p) * 4096)\<rparr>)
      else Inr (- 12, k))"
    unfolding sys_mmap_def Let_def L_def [symmetric] unfolding gt now unfolding after by simp
  then show ?thesis using assms(1) by (simp add: pool_at_def)
qed

lemma mmap_run_spec:
  assumes "\<forall>len \<in> set lens. unat len \<le> 2 ^ 63"
  shows "\<exists>k'. mmap_run lens (statics k) = Inr (fst (spec_mmap_run (map (\<lambda>l. div_ceil (unat l) 4096) lens) 0), k')"
proof -
  have "\<exists>k'. mmap_run lens k = Inr (fst (spec_mmap_run (map (\<lambda>l. div_ceil (unat l) 4096) lens) used), k')"
    if "pool_at used k" "\<forall>len \<in> set lens. unat len \<le> 2 ^ 63" for used k lens
    using that
  proof (induction lens arbitrary: used k)
    case Nil
    then show ?case by simp
  next
    case (Cons l ls)
    define p where "p = div_ceil (unat l) 4096"
    show ?case
    proof (cases "used + p \<le> MMAP_PAGES")
      case True
      then obtain k1 where k1: "sys_mmap 0 l 3 0x22 k = Inr (int (MMAP_BASE + used * 4096), k1)" "pool_at (used + p) k1"
        using sys_mmap_pool [OF Cons.prems(1), of l 3 "0x22"] Cons.prems(2) by (auto simp: p_def)
      obtain k' where "mmap_run ls k1 = Inr (fst (spec_mmap_run (map (\<lambda>l. div_ceil (unat l) 4096) ls) (used + p)), k')"
        using Cons.IH [OF k1(2)] Cons.prems(2) by auto
      then show ?thesis using True k1(1) p_def by (simp del: of_nat_add of_nat_mult)
    next
      case False
      then have m: "sys_mmap 0 l 3 0x22 k = Inr (- 12, k)"
        using sys_mmap_pool [OF Cons.prems(1), of l 3 "0x22"] Cons.prems(2) by (auto simp: p_def)
      obtain k' where "mmap_run ls k = Inr (fst (spec_mmap_run (map (\<lambda>l. div_ceil (unat l) 4096) ls) used), k')"
        using Cons.IH [OF Cons.prems(1)] Cons.prems(2) by auto
      then show ?thesis using False m p_def by simp
    qed
  qed
  moreover have "pool_at 0 (statics k)" by (simp add: pool_at_def statics_def MMAP_BASE_def)
  ultimately show ?thesis using assms by blast
qed

text \<open>C19. The \<open>mmap\<close> pool refines a page counter: from boot, any sequence of anonymous requests (of
  lengths up to \<open>2 ^ 63\<close>) gives exactly the addresses of the specification, consecutive page
  blocks from \<open>0x480000\<close>, and ENOMEM (-12) exactly when the 128 pages do not suffice.\<close>

theorem mmap_refines_page_counter:
  assumes "\<forall>len \<in> set lens. unat len \<le> 2 ^ 63"
  shows "\<exists>k'. mmap_run lens (statics k) = Inr (fst (spec_mmap_run (map (\<lambda>l. div_ceil (unat l) 4096) lens) 0), k')"
  using assms by (rule mmap_run_spec)

theorem mmap_refines_page_counter_witness:
  "\<exists>k'. mmap_run [0x1001, 0x7D000, 0x2000, 5] (statics undefined) =
     Inr (fst (spec_mmap_run [2, 125, 2, 1] 0), k') \<and> fst (spec_mmap_run [2, 125, 2, 1] 0) = [0x480000, 0x482000, - 12, 0x4FF000]"
  using mmap_refines_page_counter [of "[0x1001, 0x7D000, 0x2000, 5]" undefined]
  by (simp add: div_ceil_def MMAP_PAGES_def MMAP_BASE_def)

lemma spec_mmap_bounds:
  assumes "i < length ps" "fst (spec_mmap_run ps used) ! i \<noteq> - 12"
  shows "int (MMAP_BASE + used * 4096) \<le> fst (spec_mmap_run ps used) ! i \<and>
    fst (spec_mmap_run ps used) ! i + 4096 * int (ps ! i) \<le> int (MMAP_BASE + MMAP_PAGES * 4096) \<and>
    4096 dvd fst (spec_mmap_run ps used) ! i"
  using assms
proof (induction ps arbitrary: i used)
  case (Cons p ps)
  show ?case
  proof (cases i)
    case 0
    then show ?thesis using Cons.prems by (auto simp: MMAP_BASE_def split: if_splits)
  next
    case (Suc j)
    then show ?thesis using Cons.prems Cons.IH [of j "used + p"] Cons.IH [of j used] by (auto split: if_splits)
  qed
qed simp

lemma spec_mmap_ordered:
  assumes "i < j" "j < length ps" "fst (spec_mmap_run ps used) ! i \<noteq> - 12" "fst (spec_mmap_run ps used) ! j \<noteq> - 12"
  shows "fst (spec_mmap_run ps used) ! i + 4096 * int (ps ! i) \<le> fst (spec_mmap_run ps used) ! j"
  using assms
proof (induction ps arbitrary: i j used)
  case (Cons p ps)
  obtain j' where j: "j = Suc j'" using Cons.prems(1) by (cases j) auto
  show ?case
  proof (cases i)
    case 0
    then have "used + p \<le> MMAP_PAGES" using Cons.prems(3) by (auto split: if_splits)
    then show ?thesis using 0 j Cons.prems spec_mmap_bounds [of j' ps "used + p"] by simp
  next
    case (Suc i')
    then show ?thesis using j Cons.prems Cons.IH [of i' j' "used + p"] Cons.IH [of i' j' used] by (auto split: if_splits)
  qed
qed simp

lemma mmap_block_inside:
  assumes "\<forall>len \<in> set lens. unat len \<le> 2 ^ 63" "mmap_run lens (statics k) = Inr (rs, k')" "i < length lens" "rs ! i \<noteq> - 12"
  shows "0x480000 \<le> rs ! i" "rs ! i + int (unat (lens ! i)) \<le> 0x500000" "4096 dvd rs ! i"
proof -
  define ps where "ps = map (\<lambda>l. div_ceil (unat l) 4096) lens"
  have rs: "rs = fst (spec_mmap_run ps 0)" using mmap_run_spec [OF assms(1), of k] assms(2) by (auto simp: ps_def)
  have "unat (lens ! i) \<le> 4096 * ps ! i" using div_ceil_upper [of 4096 "unat (lens ! i)"] assms(3) by (simp add: ps_def)
  then have "int (unat (lens ! i)) \<le> 4096 * int (ps ! i)" by linarith
  then show "0x480000 \<le> rs ! i" "rs ! i + int (unat (lens ! i)) \<le> 0x500000" "4096 dvd rs ! i"
    using spec_mmap_bounds [of i ps 0] assms(3,4) by (simp_all add: rs ps_def MMAP_BASE_def MMAP_PAGES_def)
qed



text \<open>The length check of \<open>mmap\<close> can be passed by wrap-around: a request of
  \<open>2 ^ 64 - 0x480000\<close> bytes succeeds, resets the pool pointer to 0, and the next request of one
  page is answered with address 0, the null page, outside the pool.\<close>

lemma mmap_length_wraps:
  "\<exists>k1 k2. sys_mmap 0 (- 0x480000) 3 0x22 (statics k) = Inr (0x480000, k1) \<and> MMAP_NEXT k1 = 0 \<and>
     sys_mmap 0 0x1000 3 0x22 k1 = Inr (0, k2)"
  by (simp add: sys_mmap_def statics_def as_i64_small)

section \<open>Writing text\<close>

text \<open>What one buffer puts on the two outputs.\<close>

definition write_text :: "font \<Rightarrow> u8 list \<Rightarrow> console \<Rightarrow> console" where
  "write_text font bytes c =
     (case utf8_decode bytes of
        Some s \<Rightarrow> \<lparr>serial = serial c @ s, display = screen_print font s (display c)\<rparr>
      | None \<Rightarrow> c\<lparr>display := screen_print font (map ucast bytes) (display c)\<rparr>)"

lemma sys_write_ok:
  assumes "fd = STDOUT \<or> fd = STDERR" "\<forall>i < unat count. readable k (buf + of_nat i)"
  shows "sys_write font fd buf count k =
    Inr (as_i64 count, k\<lparr>con := write_text font (load_bytes (kmem k) buf (unat count)) (con k)\<rparr>)"
proof -
  have raw: "fold (\<lambda>byte. console_print_char font (ucast byte)) bs c = fold (console_print_char font) (map ucast bs) c" for bs c
    by (simp add: fold_map comp_def)
  show ?thesis
    using assms by (auto simp: sys_write_def user_load_ok Let_def write_text_def raw console_print_chars serial_print_def
        split: option.split)
qed

text \<open>C32. Writing well-formed UTF-8 text to standard output or standard error returns the byte count,
  prints the characters of the text on the screen and on the serial port, and changes nothing else.\<close>

theorem sys_write_prints_text:
  assumes "fd = STDOUT \<or> fd = STDERR" "\<forall>c \<in> set text. scalar c"
    "\<forall>i < unat count. readable k (buf + of_nat i)"
    "load_bytes (kmem k) buf (unat count) = concat (map utf8_encode text)" "unat count < 2 ^ 63"
  shows "sys_write font fd buf count k =
    Inr (int (unat count), k\<lparr>con := \<lparr>serial = serial (con k) @ map of_nat text,
           display = screen_print font (map of_nat text) (display (con k))\<rparr>\<rparr>)"
  using assms by (simp only: sys_write_ok write_text_def utf8_decode_encode option.case as_i64_small)

definition blank_kernel :: kernel where
  "blank_kernel = statics \<lparr>kmem = \<lambda>_. 65, readable = \<lambda>_. True, writable = \<lambda>_. True, CURRENT_BRK = 0, MMAP_NEXT = 0,
     MMAP_END = 0, SEED = 0, fs_base = 0, gs_base = 0, con = \<lparr>serial = [], display = \<lparr>writer = None, pixels = \<lambda>_. 0\<rparr>\<rparr>\<rparr>"

theorem sys_write_prints_text_witness:
  "\<exists>k'. sys_write (\<lambda>_. None) 1 0x1000 2 blank_kernel = Inr (2, k') \<and> serial (con k') = [65, 65]"
  using sys_write_prints_text [of 1 "[65, 65]" 2 blank_kernel "0x1000" "\<lambda>_. None"]
  by (simp add: STDOUT_def scalar_def blank_kernel_def statics_def utf8_encode_def load_bytes_def numeral_2_eq_2 [symmetric] upt_rec)

text \<open>The entries of an \<open>iovec\<close> array.\<close>

definition iov_buf :: "kernel \<Rightarrow> u64 \<Rightarrow> u64 \<times> nat" where
  "iov_buf k p = (load64 (kmem k) p, unat (load64 (kmem k) (p + 8)))"

definition iov_ok :: "kernel \<Rightarrow> u64 \<Rightarrow> bool" where
  "iov_ok k p \<longleftrightarrow> (\<forall>i < 16. readable k (p + of_nat i)) \<and>
     (case iov_buf k p of (base, n) \<Rightarrow> \<forall>i < n. readable k (base + of_nat i))"

definition iov_list :: "kernel \<Rightarrow> u64 \<Rightarrow> nat \<Rightarrow> (u64 \<times> nat) list" where
  "iov_list k p n = map (\<lambda>i. iov_buf k (p + of_nat (16 * i))) [0..<n]"

lemma iov_list_Suc: "iov_list k p (Suc n) = iov_buf k p # iov_list k (p + 16) n"
  by (simp add: iov_list_def map_upt_Suc algebra_simps del: upt_Suc)

lemma i64_add_small: "0 \<le> a \<Longrightarrow> 0 \<le> b \<Longrightarrow> a + b < 2 ^ 63 \<Longrightarrow> i64_add a b = a + b"
  unfolding i64_add_def as_i64_def sint_sbintrunc' by (rule signed_take_bit_int_eq_self) simp_all

lemma writev_loop_ok:
  assumes "fd = STDOUT \<or> fd = STDERR" "\<forall>i < n. iov_ok k (p + of_nat (16 * i))"
    "0 \<le> acc" "acc + int (sum_list (map snd (iov_list k p n))) < 2 ^ 63"
  shows "writev_loop font fd p n acc k =
    Inr (acc + int (sum_list (map snd (iov_list k p n))),
         k\<lparr>con := fold (\<lambda>(base, len). write_text font (load_bytes (kmem k) base len)) (iov_list k p n) (con k)\<rparr>)"
  using assms(2-)
proof (induction n arbitrary: p acc k)
  case 0
  then show ?case by (simp add: iov_list_def)
next
  case (Suc n)
  obtain base len where e: "iov_buf k p = (base, unat len)" and bl: "load64 (kmem k) p = base" "load64 (kmem k) (p + 8) = len"
    by (simp add: iov_buf_def)
  have ok: "iov_ok k p" using Suc.prems(1) [rule_format, of 0] by simp
  have r: "readable k (p + of_nat i)" if "i < 16" for i using ok that by (simp add: iov_ok_def)
  have "user_load p 8 k = Inr (load_bytes (kmem k) p 8)" using r by (intro user_load_ok) simp
  moreover have second: "user_load (p + 8) 8 k = Inr (load_bytes (kmem k) (p + 8) 8)"
    using r [of "8 + i" for i] by (intro user_load_ok) (simp add: add.assoc)
  have sum: "acc + int (unat len) + int (sum_list (map snd (iov_list k (p + 16) n))) < 2 ^ 63"
    using Suc.prems(3) e by (simp add: iov_list_Suc add.assoc)
  define k' where "k' = k\<lparr>con := write_text font (load_bytes (kmem k) base (unat len)) (con k)\<rparr>"
  moreover have "int (unat len) < int (2 ^ 63)" using sum Suc.prems(2) by simp
  then have "as_i64 len = int (unat len)" by (intro as_i64_small) (simp only: of_nat_less_iff)
  then have "sys_write font fd base len k = Inr (int (unat len), k')"
    using sys_write_ok [OF assms(1), of len k base font] ok e by (simp add: iov_ok_def k'_def)
  moreover have "i64_add acc (int (unat len)) = acc + int (unat len)"
    using sum Suc.prems(2) by (intro i64_add_small) simp_all
  moreover have same: "iov_buf k' = iov_buf k" "iov_ok k' = iov_ok k" "iov_list k' = iov_list k" "kmem k' = kmem k"
    by (simp_all add: k'_def iov_buf_def iov_ok_def iov_list_def fun_eq_iff)
  moreover have "\<forall>i < n. iov_ok k' (p + 16 + of_nat (16 * i))"
    using Suc.prems(1) [rule_format, of "Suc i" for i] same by (simp add: algebra_simps)
  ultimately show ?case
    using Suc.IH [of k' "p + 16" "acc + int (unat len)"] bl e Suc.prems(2) sum second
    by (simp add: iov_list_Suc load64_def k'_def add.assoc)
qed

text \<open>C31. \<open>writev\<close> on readable buffers of fewer than \<open>2 ^ 63\<close> bytes in all prints the buffers one
  after the other and returns the sum of their lengths.\<close>

theorem sys_writev_concatenates:
  assumes "fd = STDOUT \<or> fd = STDERR" "\<forall>i < unat iovcnt. iov_ok k (iov + of_nat (16 * i))"
    "sum_list (map snd (iov_list k iov (unat iovcnt))) < 2 ^ 63"
  shows "sys_writev font fd iov iovcnt k =
    Inr (int (sum_list (map snd (iov_list k iov (unat iovcnt)))),
         k\<lparr>con := fold (\<lambda>(base, len). write_text font (load_bytes (kmem k) base len)) (iov_list k iov (unat iovcnt)) (con k)\<rparr>)"
  using writev_loop_ok [OF assms(1,2), of 0] assms(3) by (simp add: sys_writev_def)

text \<open>Two entries of one byte each, at \<open>0x1000\<close>, in a memory of zeros.\<close>

definition iov_kernel :: kernel where
  "iov_kernel = blank_kernel\<lparr>kmem := store64 (store64 (\<lambda>_. 0) 0x1008 1) 0x1018 1\<rparr>"

theorem sys_writev_concatenates_witness:
  "\<exists>k'. sys_writev (\<lambda>_. None) 1 0x1000 2 iov_kernel = Inr (2, k')"
proof -
  have z: "load64 (\<lambda>_. 0) a = 0" for a by (simp add: load64_def load_bytes_def upt_rec)
  have "iov_list iov_kernel 0x1000 2 = [(0, 1), (0, 1)]"
    by (simp add: iov_list_def iov_buf_def iov_kernel_def load64_store64_apart z apart_def upt_rec)
  moreover have "iov_ok iov_kernel p" for p by (simp add: iov_ok_def iov_kernel_def blank_kernel_def statics_def iov_buf_def)
  ultimately show ?thesis
    using sys_writev_concatenates [of 1 2 iov_kernel "0x1000" "\<lambda>_. None"] by (simp add: STDOUT_def)
qed

section \<open>Random bytes\<close>

fun random_bytes :: "u64 \<Rightarrow> nat \<Rightarrow> u8 list" where
  "random_bytes seed 0 = []"
| "random_bytes seed (Suc n) = ucast (drop_bit 33 (next_seed seed)) # random_bytes (next_seed seed) n"

lemma length_random_bytes [simp]: "length (random_bytes seed n) = n"
  by (induction n arbitrary: seed) auto

lemma store_bytes_Cons:
  assumes "length bs < 2 ^ 64"
  shows "store_bytes (store_bytes m a [b]) (a + 1) bs = store_bytes m a (b # bs)"
proof
  fix x
  show "store_bytes (store_bytes m a [b]) (a + 1) bs x = store_bytes m a (b # bs) x"
  proof (cases "x = a")
    case True
    have "x - (a + 1) = (- 1 :: u64)" using True by simp
    then have "unat (x - (a + 1)) = 2 ^ 64 - 1" by (simp only: unsigned_minus_1_eq_mask) (simp add: mask_eq_exp_minus_1)
    then have "\<not> unat (x - (a + 1)) < length bs" using assms by linarith
    then show ?thesis using True by (simp add: store_bytes_def Let_def)
  next
    case False
    then have "unat (x - a) \<noteq> 0" by (simp add: unat_eq_zero)
    moreover have "unat (x - (a + 1)) = unat (x - a) - 1"
    proof -
      have "(1 :: u64) \<le> x - a" using calculation by (simp add: word_le_nat_alt)
      then show ?thesis using unat_sub_small [of 1 "x - a"] by (simp add: diff_diff_eq)
    qed
    ultimately show ?thesis by (cases "unat (x - a)") (simp_all add: store_bytes_def Let_def)
  qed
qed

lemma getrandom_loop_ok:
  assumes "\<forall>i < n. writable k (p + of_nat i)" "n < 2 ^ 64"
  shows "getrandom_loop p n k =
    Inr (k\<lparr>kmem := store_bytes (kmem k) p (random_bytes (SEED k) n), SEED := (next_seed ^^ n) (SEED k)\<rparr>)"
  using assms
proof (induction n arbitrary: p k)
  case 0
  then show ?case by simp
next
  case (Suc n)
  let ?s = "next_seed (SEED k)"
  have "user_store p [ucast (drop_bit 33 ?s)] (k\<lparr>SEED := ?s\<rparr>) =
      Inr (k\<lparr>SEED := ?s, kmem := store_bytes (kmem k) p [ucast (drop_bit 33 ?s)]\<rparr>)"
    using Suc.prems(1) [rule_format, of 0] by (subst user_store_ok) simp_all
  moreover have "\<forall>i < n. writable k (p + 1 + of_nat i)"
    using Suc.prems(1) [rule_format, of "Suc i" for i] by (simp add: add.assoc)
  ultimately show ?case
    using Suc.IH [of "k\<lparr>SEED := ?s, kmem := store_bytes (kmem k) p [ucast (drop_bit 33 ?s)]\<rparr>" "p + 1"] Suc.prems(2)
    by (simp add: Let_def store_bytes_Cons funpow_swap1)
qed

text \<open>C37. \<open>getrandom\<close> on a writable buffer fills exactly the buffer, with consecutive bytes of the
  generator's stream, advances the seed by one step per byte and returns the length. In particular,
  successive calls never repeat a part of the stream.\<close>

theorem sys_getrandom_stream:
  assumes "\<forall>i < unat len. writable k (buf + of_nat i)"
  shows "sys_getrandom buf len flags k =
    Inr (as_i64 len, k\<lparr>kmem := store_bytes (kmem k) buf (random_bytes (SEED k) (unat len)),
                       SEED := (next_seed ^^ unat len) (SEED k)\<rparr>)"
  using getrandom_loop_ok [OF assms] unat_lt_64 [of len] by (simp add: sys_getrandom_def)

theorem sys_getrandom_stream_witness:
  "\<exists>k'. sys_getrandom 0x1000 3 0 blank_kernel = Inr (3, k') \<and> SEED k' = (next_seed ^^ 3) 0x12345678DEADBEEF"
  using sys_getrandom_stream [of 3 blank_kernel "0x1000" 0] by (simp add: blank_kernel_def statics_def as_i64_small)

section \<open>What a system call may write\<close>

text \<open>The one range of user memory a call is entitled to write.\<close>

definition syscall_writes :: "u64 \<Rightarrow> u64 \<Rightarrow> u64 \<Rightarrow> u64 \<Rightarrow> u64 \<times> nat" where
  "syscall_writes nr arg1 arg2 arg3 =
     (if nr = SYS_RT_SIGACTION then (arg3, if arg3 = 0 then 0 else 32)
      else if nr = SYS_RT_SIGPROCMASK then (arg3, if arg3 = 0 then 0 else 8)
      else if nr = SYS_SIGALTSTACK then (arg2, if arg2 = 0 then 0 else 24)
      else if nr = SYS_GETRANDOM then (arg1, unat arg2)
      else if nr = SYS_FSTAT then (arg2, if arg1 \<le> 2 then 144 else 0)
      else if nr = SYS_ARCH_PRCTL then (arg2, if arg1 = ARCH_GET_FS \<or> arg1 = ARCH_GET_GS then 8 else 0)
      else (0, 0))"

definition only_writes :: "u64 \<times> nat \<Rightarrow> kernel \<Rightarrow> kernel \<Rightarrow> bool" where
  "only_writes w k k' \<longleftrightarrow> readable k' = readable k \<and> writable k' = writable k \<and>
     (\<forall>x. \<not> in_range (fst w) (snd w) x \<longrightarrow> kmem k' x = kmem k x)"

lemma only_writes_trans: "only_writes w k k1 \<Longrightarrow> only_writes w k1 k2 \<Longrightarrow> only_writes w k k2"
  by (simp add: only_writes_def)

lemma user_store_writes:
  assumes "user_store (a + of_nat d) bs k = Inr k'" "d + length bs \<le> n" "n \<le> 2 ^ 64"
  shows "only_writes (a, n) k k'"
proof -
  have "k' = k\<lparr>kmem := store_bytes (kmem k) (a + of_nat d) bs\<rparr>" using assms(1) by (simp add: user_store_Inr)
  moreover have "\<not> in_range (a + of_nat d) (length bs) x" if "\<not> in_range a n x" for x
    using that in_range_sub [OF _ assms(2,3)] by blast
  ultimately show ?thesis by (simp add: only_writes_def store_bytes_out)
qed

lemmas user_store_writes_0 = user_store_writes [where d = 0, simplified]

lemma getrandom_loop_writes:
  assumes "getrandom_loop (a + of_nat d) n k = Inr k'" "d + n \<le> len" "len < 2 ^ 64"
  shows "only_writes (a, len) k k'"
  using assms
proof (induction n arbitrary: d k)
  case 0
  then show ?case by (simp add: only_writes_def)
next
  case (Suc n)
  define b where "b = (ucast (drop_bit 33 (next_seed (SEED k))) :: u8)"
  obtain k1 where k1: "user_store (a + of_nat d) [b] (k\<lparr>SEED := next_seed (SEED k)\<rparr>) = Inr k1"
    "getrandom_loop (a + of_nat d + 1) n k1 = Inr k'"
    using Suc.prems(1) by (auto simp: Let_def and_then_Inr b_def)
  have "only_writes (a, len) k k1" using user_store_writes [OF k1(1), of len] Suc.prems(2,3) by (simp add: only_writes_def)
  moreover have "only_writes (a, len) k1 k'"
    using Suc.IH [of "Suc d" k1] k1(2) Suc.prems(2,3) by (simp add: add.assoc add.commute add.left_commute)
  ultimately show ?case by (rule only_writes_trans)
qed

lemma sys_write_frame:
  "sys_write font fd buf count k = Inr (r, k') \<Longrightarrow> only_writes w k k'"
  by (auto simp: sys_write_def only_writes_def and_then_Inr Let_def split: if_splits option.splits)

lemma writev_loop_frame:
  "writev_loop font fd p n acc k = Inr (r, k') \<Longrightarrow> only_writes w k k'"
proof (induction n arbitrary: p acc k)
  case 0
  then show ?case by (simp add: only_writes_def)
next
  case (Suc n)
  then obtain base len r1 k1 where k1: "sys_write font fd base len k = Inr (r1, k1)"
    and rest: "(if r1 < 0 then Inr (r1, k1) else writev_loop font fd (p + 16) n (i64_add acc r1) k1) = Inr (r, k')"
    by (auto simp: and_then_Inr)
  have "only_writes w k1 k'" using rest Suc.IH by (auto simp: only_writes_def split: if_splits)
  then show ?case using sys_write_frame [OF k1] only_writes_trans by blast
qed

lemma only_writes_println [simp]: "only_writes w k (println font s k)" "only_writes w k (klog s k)"
  by (simp_all add: only_writes_def println_def klog_def)

lemma only_writes_refl [simp]: "only_writes w k k"
  by (simp add: only_writes_def)

lemma arch_prctl_writes:
  "sys_arch_prctl new code addr k = Inr (r, k') \<Longrightarrow>
   only_writes (addr, if code = ARCH_GET_FS \<or> code = ARCH_GET_GS then 8 else 0) k k'"
  by (auto simp: sys_arch_prctl_def and_then_Inr only_writes_def arch_numbers
      dest!: user_store_writes_0 [where n = 8] split: if_splits option.splits)

lemma sigaltstack_writes:
  assumes "sys_sigaltstack ss old_ss k = Inr (r, k')"
  shows "only_writes (old_ss, if old_ss = 0 then 0 else 24) k k'"
proof (cases "old_ss = 0")
  case False
  then obtain k1 k2 where u:
    "user_store old_ss (le_bytes 8 (0 :: u64)) k = Inr k1"
    "user_store (old_ss + of_nat 8) (le_bytes 4 (2 :: u32)) k1 = Inr k2"
    "user_store (old_ss + of_nat 16) (le_bytes 8 (0 :: u64)) k2 = Inr k'"
    using assms by (auto simp: sys_sigaltstack_def and_then_Inr)
  have "only_writes (old_ss, 24) k k1" "only_writes (old_ss, 24) k1 k2" "only_writes (old_ss, 24) k2 k'"
    using user_store_writes_0 [OF u(1), of 24] user_store_writes [OF u(2), of 24] user_store_writes [OF u(3), of 24]
    by simp_all
  then show ?thesis using False by (auto intro: only_writes_trans)
qed (use assms in \<open>simp add: sys_sigaltstack_def\<close>)

lemma fstat_writes:
  assumes "sys_fstat fd statbuf k = Inr (r, k')"
  shows "only_writes (statbuf, if fd \<le> 2 then 144 else 0) k k'"
proof (cases "fd \<le> 2")
  case True
  then obtain k1 where u:
    "user_store statbuf (replicate 144 0) k = Inr k1"
    "user_store (statbuf + of_nat 24) (le_bytes 4 (0x2000 OR 0x1B6 :: u32)) k1 = Inr k'"
    using assms by (auto simp: sys_fstat_def and_then_Inr STDERR_def)
  have "only_writes (statbuf, 144) k k1" "only_writes (statbuf, 144) k1 k'"
    using user_store_writes_0 [OF u(1), of 144] user_store_writes [OF u(2), of 144] by simp_all
  then show ?thesis using True by (auto intro: only_writes_trans)
qed (use assms in \<open>simp add: sys_fstat_def STDERR_def\<close>)

lemma sigaction_writes:
  "sys_rt_sigaction signum act oldact k = Inr (r, k') \<Longrightarrow> only_writes (oldact, if oldact = 0 then 0 else 32) k k'"
  "sys_rt_sigprocmask how sset oldact sz k = Inr (r, k') \<Longrightarrow> only_writes (oldact, if oldact = 0 then 0 else 8) k k'"
  by (auto simp: sys_rt_sigaction_def sys_rt_sigprocmask_def and_then_Inr intro: user_store_writes_0 split: if_splits)

lemma getrandom_writes:
  "sys_getrandom buf len flags k = Inr (r, k') \<Longrightarrow> only_writes (buf, unat len) k k'"
  using getrandom_loop_writes [where d = 0] unat_lt_64 [of len] by (fastforce simp: sys_getrandom_def and_then_Inr)

lemma dispatch_writes:
  assumes "dispatch font new nr a1 a2 a3 a4 k = Inr (r, k')"
  shows "only_writes (syscall_writes nr a1 a2 a3) k k'"
proof -
  have "only_writes w k k'" if "sys_brk a1 k = Inr (r, k') \<or> sys_mmap a1 a2 a3 a4 k = Inr (r, k')" for w
    using that by (auto simp: sys_brk_def sys_mmap_def only_writes_def Let_def split: if_splits)
  then show ?thesis
    using assms sys_write_frame [of font a1 a2 a3 k r k'] writev_loop_frame [of font a1 a2 "unat a3" 0 k r k']
      arch_prctl_writes [of new a1 a2 k r k'] sigaltstack_writes [of a1 a2 k r k'] fstat_writes [of a1 a2 k r k']
      sigaction_writes(1) [of a1 a2 a3 k r k'] sigaction_writes(2) [of a1 a2 a3 a4 k r k'] getrandom_writes [of a1 a2 a3 k r k']
    unfolding dispatch_def syscall_writes_def
    by (auto simp: sys_numbers sys_read_def sys_exit_def sys_exit_group_def sys_mprotect_def sys_munmap_def
        sys_set_tid_address_def sys_poll_def sys_ioctl_def sys_writev_def split: if_splits)
qed

text \<open>C11. Whatever system call a user program makes with whatever arguments, when the kernel returns it
  has written user memory only inside the buffer that the call's arguments name (32, 8, 24 or 144
  bytes at a pointer, the getrandom buffer, or 8 bytes for the segment base), and it has changed no
  page permission.\<close>

theorem syscall_writes_only_its_buffer:
  assumes "syscall_handler_inner font new nr a1 a2 a3 a4 a5 a6 k = Inr (r, k')"
    "\<not> in_range (fst (syscall_writes nr a1 a2 a3)) (snd (syscall_writes nr a1 a2 a3)) x"
  shows "kmem k' x = kmem k x \<and> readable k' = readable k \<and> writable k' = writable k"
proof -
  obtain s1 s2 k1 k2 where "k1 = klog s1 k" "dispatch font new nr a1 a2 a3 a4 k1 = Inr (r, k2)" "k' = klog s2 k2"
    using assms(1) by (auto simp: syscall_handler_inner_def handle_syscall_def Let_def and_then_Inr)
  then have "only_writes (syscall_writes nr a1 a2 a3) k k'"
    using dispatch_writes only_writes_println only_writes_trans by metis
  then show ?thesis using assms(2) by (simp add: only_writes_def)
qed

theorem syscall_writes_only_its_buffer_witness:
  "\<exists>r k'. syscall_handler_inner (\<lambda>_. None) Some 131 0 0x2000 0 0 0 0 blank_kernel = Inr (r, k') \<and> kmem k' 0x2018 = 65"
proof -
  have w: "user_store a bs k = Inr (k\<lparr>kmem := store_bytes (kmem k) a bs\<rparr>)" if "writable k = (\<lambda>_. True)" for a bs k
    using that by (intro user_store_ok) simp
  obtain r k' where h: "syscall_handler_inner (\<lambda>_. None) Some 131 0 0x2000 0 0 0 0 blank_kernel = Inr (r, k')"
    by (simp add: syscall_handler_inner_def handle_syscall_def Let_def dispatch_def sys_numbers sys_sigaltstack_def w
        klog_def blank_kernel_def statics_def)
  moreover have "kmem blank_kernel 0x2018 = 65" by (simp add: blank_kernel_def statics_def)
  ultimately show ?thesis
    using syscall_writes_only_its_buffer [OF h, of "0x2018"] by (auto simp: syscall_writes_def sys_numbers in_range_def)
qed

section \<open>File status, program break, segment bases, exit\<close>

text \<open>\<open>fstat\<close> on the three standard descriptors with a writable buffer leaves a zeroed
  \<open>stat\<close> structure whose mode word, at offset 24, says character device with permissions
  \<open>rw-rw-rw-\<close>; on any other descriptor it returns EBADF (-9) and writes nothing.\<close>

theorem sys_fstat_character_device:
  assumes "\<forall>i < 144. writable k (buf + of_nat i)" "unat buf + 144 \<le> 2 ^ 64"
  shows "if fd \<le> 2
    then \<exists>k'. sys_fstat fd buf k = Inr (0, k') \<and> load32 (kmem k') (buf + 24) = 0x21B6 \<and>
      (\<forall>i < 144. i < 24 \<or> 28 \<le> i \<longrightarrow> kmem k' (buf + of_nat i) = 0)
    else sys_fstat fd buf k = Inr (- 9, k)"
proof (cases "fd \<le> 2")
  case True
  define m where "m = store_bytes (store_bytes (kmem k) buf (replicate 144 0)) (buf + 24) (le_bytes 4 (0x21B6 :: u32))"
  have "user_store buf (replicate 144 0) k = Inr (k\<lparr>kmem := store_bytes (kmem k) buf (replicate 144 0)\<rparr>)"
    using assms(1) by (intro user_store_ok) simp
  moreover have "user_store (buf + 24) (le_bytes 4 (0x21B6 :: u32)) (k\<lparr>kmem := store_bytes (kmem k) buf (replicate 144 0)\<rparr>) =
      Inr (k\<lparr>kmem := m\<rparr>)"
    using assms(1) [rule_format, of "24 + i" for i] by (subst user_store_ok) (simp_all add: m_def add.assoc)
  ultimately have f: "sys_fstat fd buf k = Inr (0, k\<lparr>kmem := m\<rparr>)" using True by (simp add: sys_fstat_def STDERR_def)
  have mode: "load32 m (buf + 24) = 0x21B6" by (simp only: m_def store32_def [symmetric] load32_store32)
  have zero: "m (buf + of_nat i) = 0" if "i < 144" "i < 24 \<or> 28 \<le> i" for i
  proof -
    have "unat (buf + 24) = unat buf + 24" using assms(2) by (subst unat_add_small) simp_all
    moreover have "unat (buf + of_nat i) = unat buf + i" using assms(2) that(1) by (intro unat_add_of_nat_small) simp
    ultimately have "\<not> in_range (buf + 24) 4 (buf + of_nat i)" using that assms(2) by (auto simp: in_range_iff)
    then have "m (buf + of_nat i) = store_bytes (kmem k) buf (replicate 144 0) (buf + of_nat i)"
      by (simp add: m_def store_bytes_out)
    also have "\<dots> = 0" using that(1) by (simp add: store_bytes_in)
    finally show ?thesis .
  qed
  then show ?thesis using True f mode by simp
next
  case False
  then show ?thesis by (simp add: sys_fstat_def STDERR_def)
qed

theorem sys_fstat_character_device_witness:
  "\<exists>k'. sys_fstat 1 0x1000 blank_kernel = Inr (0, k') \<and> load32 (kmem k') (0x1000 + 24) = 0x21B6"
  using sys_fstat_character_device [of blank_kernel "0x1000" 1] by (auto simp: blank_kernel_def statics_def)

text \<open>\<open>VirtAddr::new\<close> as the crate documents it: the canonical address unchanged, a panic otherwise.\<close>

definition virt_addr_new_ok :: "(u64 \<Rightarrow> u64 option) \<Rightarrow> bool" where
  "virt_addr_new_ok new \<longleftrightarrow> (\<forall>a. new a = (if is_canonical a then Some a else None))"

text \<open>C36. \<open>arch_prctl\<close>: setting the FS base to a canonical address and reading it back stores that
  address at the given pointer; setting it to any other address panics the kernel, so that a user
  program can stop the machine with one system call.\<close>

theorem arch_prctl_fs_round_trip:
  assumes "virt_addr_new_ok new"
  shows "if is_canonical a
    then \<exists>k1. sys_arch_prctl new ARCH_SET_FS a k = Inr (0, k1) \<and>
      ((\<forall>i < 8. writable k (p + of_nat i)) \<longrightarrow>
       (\<exists>k2. sys_arch_prctl new ARCH_GET_FS p k1 = Inr (0, k2) \<and> load64 (kmem k2) p = a))
    else sys_arch_prctl new ARCH_SET_FS a k = Inl (Panicked (Panic ''VirtAddr::new''))"
proof -
  have "sys_arch_prctl new ARCH_GET_FS p (k\<lparr>fs_base := a\<rparr>) = Inr (0, k\<lparr>fs_base := a, kmem := store64 (kmem k) p a\<rparr>)"
    if "\<forall>i < 8. writable k (p + of_nat i)"
    using that by (simp add: sys_arch_prctl_def arch_numbers user_store_ok store64_def)
  then show ?thesis
    using assms by (simp add: virt_addr_new_ok_def sys_arch_prctl_def [of new ARCH_SET_FS])
qed

theorem arch_prctl_fs_round_trip_witness:
  "(\<exists>k1. sys_arch_prctl (\<lambda>a. if is_canonical a then Some a else None) ARCH_SET_FS 0x7000 blank_kernel = Inr (0, k1) \<and>
      (\<exists>k2. sys_arch_prctl (\<lambda>a. if is_canonical a then Some a else None) ARCH_GET_FS 0x1000 k1 = Inr (0, k2) \<and>
         load64 (kmem k2) 0x1000 = 0x7000)) \<and>
   sys_arch_prctl (\<lambda>a. if is_canonical a then Some a else None) ARCH_SET_FS 0x800000000000 blank_kernel =
     Inl (Panicked (Panic ''VirtAddr::new''))"
proof -
  have n: "virt_addr_new_ok (\<lambda>a. if is_canonical a then Some a else None)" by (simp add: virt_addr_new_ok_def)
  have c: "is_canonical 0x7000" "\<not> is_canonical 0x800000000000" by (simp_all add: is_canonical_def)
  have "\<forall>i < 8. writable blank_kernel (0x1000 + of_nat i)" by (simp add: blank_kernel_def statics_def)
  then show ?thesis
    using arch_prctl_fs_round_trip [OF n, of "0x7000" blank_kernel "0x1000"]
      arch_prctl_fs_round_trip [OF n, of "0x800000000000" blank_kernel "0x1000"] c by simp
qed

text \<open>\<open>brk\<close> accepts every non-zero address, in or out of the region the loader maps, and a query
  (\<open>brk(0)\<close>) returns the last accepted address: all three branches of the code do the same.\<close>

theorem sys_brk_accepts_everything:
  "sys_brk addr k = (if addr = 0 then Inr (as_i64 (CURRENT_BRK k), k) else Inr (as_i64 addr, k\<lparr>CURRENT_BRK := addr\<rparr>))"
  by (simp add: sys_brk_def)

text \<open>A call whose number no handler serves returns ENOSYS (-38), after reporting the number on the
  serial port and the screen, and leaves the rest of the kernel state as it was.\<close>

theorem unhandled_syscall_enosys:
  assumes "nr \<notin> {0, 1, 5, 7, 9, 10, 11, 12, 13, 14, 16, 20, 28, 60, 131, 158, 218, 231, 318}"
  shows "\<exists>c. syscall_handler_inner font new nr a1 a2 a3 a4 a5 a6 k = Inr (- 38, k\<lparr>con := c\<rparr>) \<and>
    display c = screen_print font (chars (''[SYSCALL] Unhandled syscall: '' @ dec (unat nr)) @ [10]) (display (con k))"
proof -
  define msg where "msg = ''[SYSCALL] Unhandled syscall: '' @ dec (unat nr)"
  have d: "dispatch font new nr a1 a2 a3 a4 k = Inr (- 38, println font msg k)" for k
    using assms by (simp add: dispatch_def sys_numbers msg_def)
  define s0 where "s0 = ''[SC] nr='' @ dec (unat nr) @ '' a1='' @ hex (unat a1) @ '' a2='' @ hex (unat a2) @ '' a3='' @ hex (unat a3)"
  define s1 where "s1 = ''[SC] -> '' @ dec_i64 (- 38)"
  have "syscall_handler_inner font new nr a1 a2 a3 a4 a5 a6 k = Inr (- 38, klog s1 (println font msg (klog s0 k)))"
    by (simp only: syscall_handler_inner_def handle_syscall_def Let_def d and_then.simps prod.case s0_def s1_def)
  moreover have "klog s1 (println font msg (klog s0 k)) = k\<lparr>con := con (klog s1 (println font msg (klog s0 k)))\<rparr>"
    by (simp add: klog_def println_def)
  moreover have "display (con (klog s1 (println font msg (klog s0 k)))) = screen_print font (chars msg @ [10]) (display (con k))"
    by (simp add: klog_def println_def frame_simps)
  ultimately show ?thesis unfolding msg_def by metis
qed

theorem unhandled_syscall_enosys_witness:
  "\<exists>c. syscall_handler_inner (\<lambda>_. None) Some 39 0 0 0 0 0 0 blank_kernel = Inr (- 38, blank_kernel\<lparr>con := c\<rparr>)"
  using unhandled_syscall_enosys [of 39 "\<lambda>_. None" Some 0 0 0 0 0 0 blank_kernel] by auto

text \<open>\<open>exit\<close> and \<open>exit_group\<close> never return to the program: the machine halts, and the last
  thing on the serial port is the report of the exit status.\<close>

theorem exit_never_returns:
  assumes "nr = SYS_EXIT \<or> nr = SYS_EXIT_GROUP"
  shows "\<exists>k'. syscall_handler_inner font new nr status a2 a3 a4 a5 a6 k = Inl (Halted k') \<and> kmem k' = kmem k \<and>
    (\<exists>before. serial (con k') = before @
       chars (CHR 0x0A # ''[KERNEL] User process exited with status: '' @ dec (unat status)) @ [10])"
proof -
  have "dispatch font new nr status a2 a3 a4 k = sys_exit font status k" for k
    using assms by (auto simp: dispatch_def sys_numbers sys_exit_group_def)
  then show ?thesis
    by (simp add: syscall_handler_inner_def handle_syscall_def Let_def sys_exit_def println_def klog_def frame_simps)
qed

theorem exit_never_returns_witness:
  "\<exists>k'. syscall_handler_inner (\<lambda>_. None) Some 60 42 0 0 0 0 0 blank_kernel = Inl (Halted k')"
  using exit_never_returns [of 60 "\<lambda>_. None" Some 42 0 0 0 0 0 blank_kernel] by (auto simp: sys_numbers)

end
