(* ===== verification/Terminal.thy ===== *)
theory Terminal
  imports Screen
begin

text \<open>
  The contract of the text writer of \<open>kernel/src/screen.rs\<close>: a terminal. The abstract terminal is
  a grid of cells, each a glyph with its two colours, and a cursor; it knows nothing of pixels,
  strides or scales. \<open>displays\<close> relates it to a writer and its frame buffer, and the refinement theorem
  says that printing a string on the frame buffer is printing it on the grid.
\<close>

section \<open>The abstract terminal\<close>

record cell =
  glyph :: "u8 list"
  ink :: u32
  paper :: u32

record terminal =
  rows :: nat
  cols :: nat
  row :: nat
  col :: nat
  grid :: "nat \<Rightarrow> nat \<Rightarrow> cell"

definition blank :: "u32 \<Rightarrow> cell" where
  "blank c = \<lparr>glyph = replicate 8 0, ink = c, paper = c\<rparr>"

definition term_new_line :: "u32 \<Rightarrow> terminal \<Rightarrow> terminal" where
  "term_new_line bg t =
     (if row t + 1 < rows t then t\<lparr>row := row t + 1, col := 0\<rparr>
      else t\<lparr>col := 0, grid := \<lambda>r. if r + 1 < rows t then grid t (r + 1) else (\<lambda>_. blank bg)\<rparr>)"

definition term_erase_rest :: "u32 \<Rightarrow> terminal \<Rightarrow> terminal" where
  "term_erase_rest bg t =
     t\<lparr>grid := \<lambda>r c. if r = row t \<and> col t \<le> c then blank bg else grid t r c\<rparr>"

definition term_put :: "font \<Rightarrow> u32 \<Rightarrow> u32 \<Rightarrow> u8 \<Rightarrow> terminal \<Rightarrow> terminal" where
  "term_put font fg bg byte t =
     (if byte = 10 then term_new_line bg (term_erase_rest bg t)
      else let t = (if col t < cols t then t else term_new_line bg t);
               t' = (case font (unat byte) of
                       None \<Rightarrow> t
                     | Some g \<Rightarrow> t\<lparr>grid := (grid t)(row t := (grid t (row t))(col t := \<lparr>glyph = g, ink = fg, paper = bg\<rparr>))\<rparr>)
           in t'\<lparr>col := col t + 1\<rparr>)"

definition term_print :: "font \<Rightarrow> u32 \<Rightarrow> u32 \<Rightarrow> u32 list \<Rightarrow> terminal \<Rightarrow> terminal" where
  "term_print font fg bg chars t = fold (\<lambda>c. term_put font fg bg (ucast c)) chars t"

definition cell_colour :: "nat \<Rightarrow> cell \<Rightarrow> nat \<Rightarrow> nat \<Rightarrow> u32" where
  "cell_colour sc c dx dy = (if glyph_bit sc (glyph c) dx dy then ink c else paper c)"

section \<open>The representation relation\<close>

text \<open>
  The rows of the grid start at pixel line \<open>top_off\<close>: a change of scale in the middle of the
  screen leaves the cursor at a line that need not be a multiple of the new text height. The lines
  below the last full row have the background colour, so that scrolling brings in blank lines only.
\<close>

definition aligned :: "nat \<Rightarrow> FrameBufferWriter \<Rightarrow> terminal \<Rightarrow> bool" where
  "aligned top_off w t \<longleftrightarrow>
     x_pos w = col t * (8 * scale w) \<and> y_pos w = top_off + row t * (8 * scale w) \<and>
     row t < rows t \<and> col t \<le> cols t \<and>
     cols t = width w div (8 * scale w) \<and>
     top_off + rows t * (8 * scale w) \<le> height w \<and> height w < top_off + (rows t + 1) * (8 * scale w)"

definition shows_grid :: "nat \<Rightarrow> FrameBufferWriter \<Rightarrow> pixels \<Rightarrow> terminal \<Rightarrow> bool" where
  "shows_grid top_off w fb t \<longleftrightarrow>
     (\<forall>r < rows t. \<forall>c < cols t. \<forall>dy < 8 * scale w. \<forall>dx < 8 * scale w.
        fb ((top_off + r * (8 * scale w) + dy) * pitch w + (c * (8 * scale w) + dx)) =
        cell_colour (scale w) (grid t r c) dx dy)"

definition bottom_blank :: "nat \<Rightarrow> FrameBufferWriter \<Rightarrow> pixels \<Rightarrow> terminal \<Rightarrow> bool" where
  "bottom_blank top_off w fb t \<longleftrightarrow>
     (\<forall>y. top_off + rows t * (8 * scale w) \<le> y \<and> y < height w \<longrightarrow>
        (\<forall>x < width w. fb (y * pitch w + x) = bg_color w))"

definition displays :: "nat \<Rightarrow> screen \<Rightarrow> terminal \<Rightarrow> bool" where
  "displays top_off s t \<longleftrightarrow> writer_ok (fst s) \<and> aligned top_off (fst s) t \<and>
     shows_grid top_off (fst s) (snd s) t \<and> bottom_blank top_off (fst s) (snd s) t"

section \<open>Cells and pixels\<close>

lemma slot_iff:
  assumes "d < (n :: nat)"
  shows "a * n \<le> c * n + d \<and> c * n + d < a * n + n \<longleftrightarrow> c = a"
proof
  assume "a * n \<le> c * n + d \<and> c * n + d < a * n + n"
  moreover have "Suc a * n \<le> c * n" if "a < c" using that by (intro mult_le_mono1) simp
  moreover have "Suc c * n \<le> a * n" if "c < a" using that by (intro mult_le_mono1) simp
  ultimately show "c = a" using assms by (cases a c rule: linorder_cases) auto
qed (use assms in auto)

lemma cell_pixel:
  assumes "writer_ok w" "aligned off w t" "r < rows t" "c < cols t" "dy < 8 * scale w" "dx < 8 * scale w"
  shows "c * (8 * scale w) + dx < width w" "off + r * (8 * scale w) + dy < off + rows t * (8 * scale w)"
    "off + r * (8 * scale w) + dy < height w"
    "((off + r * (8 * scale w) + dy) * pitch w + (c * (8 * scale w) + dx)) mod pitch w = c * (8 * scale w) + dx"
    "((off + r * (8 * scale w) + dy) * pitch w + (c * (8 * scale w) + dx)) div pitch w = off + r * (8 * scale w) + dy"
proof -
  have "Suc c * (8 * scale w) \<le> cols t * (8 * scale w)" using assms(4) by (intro mult_le_mono1) simp
  also have "\<dots> \<le> width w" using assms(2) by (simp only: aligned_def) (metis div_times_less_eq_dividend)
  finally show x: "c * (8 * scale w) + dx < width w" using assms(6) by simp
  have "Suc r * (8 * scale w) \<le> rows t * (8 * scale w)" using assms(3) by (intro mult_le_mono1) simp
  then show "off + r * (8 * scale w) + dy < off + rows t * (8 * scale w)" using assms(5) by simp
  then show "off + r * (8 * scale w) + dy < height w" using assms(2) unfolding aligned_def by linarith
  have "width w \<le> pitch w" using assms(1) by (simp add: writer_ok_def dims_ok_def)
  then have p: "c * (8 * scale w) + dx < pitch w" using x by linarith
  then show "((off + r * (8 * scale w) + dy) * pitch w + (c * (8 * scale w) + dx)) mod pitch w = c * (8 * scale w) + dx"
    by (simp only: mod_mult_self3 mod_less)
  show "((off + r * (8 * scale w) + dy) * pitch w + (c * (8 * scale w) + dx)) div pitch w = off + r * (8 * scale w) + dy"
    using p by (simp only: div_mult_self3 div_less)
qed

lemma line_pixel:
  assumes "writer_ok w" "x < width w"
  shows "(y * pitch w + x) mod pitch w = x" "(y * pitch w + x) div pitch w = y"
  using assms by (auto simp: writer_ok_def dims_ok_def)

lemma cell_colour_blank: "dy < 8 * sc \<Longrightarrow> cell_colour sc (blank c) dx dy = c"
  by (simp add: cell_colour_def blank_def)

text \<open>The cursor's cell, as pixels.\<close>

lemma cursor_cell:
  assumes "aligned off w t" "dy < 8 * scale w" "dx < 8 * scale w"
  shows "in_cell w (x_pos w) (y_pos w) (c * (8 * scale w) + dx) (off + r * (8 * scale w) + dy) \<longleftrightarrow> r = row t \<and> c = col t"
  using assms slot_iff [of dx "8 * scale w" "col t" c] slot_iff [of dy "8 * scale w" "row t" r]
  by (auto simp: in_cell_def aligned_def)

section \<open>Each step of the writer is a step of the terminal\<close>

lemma displays_draw:
  assumes dsp: "displays off (w, fb) t" and room: "col t < cols t" and g: "font c = Some g" "length g = 8"
  shows "displays off (draw_char font (x_pos w) (y_pos w) c (w, fb))
    (t\<lparr>grid := (grid t)(row t := (grid t (row t))(col t := \<lparr>glyph = g, ink = text_color w, paper = bg_color w\<rparr>))\<rparr>)"
    (is "displays off ?s ?t")
proof -
  have ok: "writer_ok w" and al: "aligned off w t" and gr: "shows_grid off w fb t" and bb: "bottom_blank off w fb t"
    using dsp by (auto simp: displays_def)
  have xy: "x_pos w \<le> width w" "y_pos w \<le> height w" using ok by (auto simp: writer_ok_def)
  note px = draw_char_pixels [of w font c g "x_pos w" "y_pos w", OF ok g xy]
  have al': "aligned off w ?t" using al by (simp add: aligned_def)
  have "shows_grid off w (snd ?s) ?t"
    unfolding shows_grid_def
  proof (intro allI impI)
    fix r cl dy dx assume b: "r < rows ?t" "cl < cols ?t" "dy < 8 * scale w" "dx < 8 * scale w"
    note cp = cell_pixel [OF ok al' b]
    have d: "cl = col t \<Longrightarrow> cl * (8 * scale w) + dx - x_pos w = dx"
      "r = row t \<Longrightarrow> off + r * (8 * scale w) + dy - y_pos w = dy"
      using al by (auto simp: aligned_def)
    have old: "fb ((off + r * (8 * scale w) + dy) * pitch w + (cl * (8 * scale w) + dx)) =
        cell_colour (scale w) (grid t r cl) dx dy" using gr b by (simp add: shows_grid_def)
    show "snd ?s ((off + r * (8 * scale w) + dy) * pitch w + (cl * (8 * scale w) + dx)) =
        cell_colour (scale w) (grid ?t r cl) dx dy"
      unfolding px cp(4,5) cursor_cell [OF al b(3,4)] old using d cp(1,3)
      by (auto simp: cell_colour_def)
  qed
  moreover have "bottom_blank off w (snd ?s) ?t"
    unfolding bottom_blank_def
  proof (intro allI impI)
    fix y x assume y: "off + rows ?t * (8 * scale w) \<le> y \<and> y < height w" and x: "x < width w"
    have "Suc (row t) * (8 * scale w) \<le> rows t * (8 * scale w)" using al by (intro mult_le_mono1) (simp add: aligned_def)
    then have "\<not> in_cell w (x_pos w) (y_pos w) x y" using y al by (simp add: in_cell_def aligned_def)
    then show "snd ?s (y * pitch w + x) = bg_color w"
      using bb y x line_pixel [OF ok x] by (simp add: px bottom_blank_def)
  qed
  ultimately show ?thesis using ok al' by (simp add: displays_def)
qed

lemma displays_erase:
  assumes dsp: "displays off (w, fb) t"
  shows "displays off (w, if x_pos w < width w then fill_rows w [0..<8 * scale w] fb else fb) (term_erase_rest (bg_color w) t)"
    (is "displays off (w, ?fb) ?t")
proof -
  have ok: "writer_ok w" and al: "aligned off w t" and gr: "shows_grid off w fb t" and bb: "bottom_blank off w fb t"
    using dsp by (auto simp: displays_def)
  have "dims_ok (info w)" "y_pos w \<le> height w" "8 * scale w < 2 ^ 62" using ok by (auto simp: writer_ok_def dims_ok_def)
  note px = fill_rows_pixels [OF this, of 0]
  have fb: "?fb j = (if x_pos w \<le> j mod pitch w \<and> j mod pitch w < width w \<and> y_pos w \<le> j div pitch w \<and>
      j div pitch w < y_pos w + 8 * scale w \<and> j div pitch w < height w then bg_color w else fb j)" for j
    by (auto simp: px)
  have al': "aligned off w ?t" using al by (simp add: aligned_def term_erase_rest_def)
  have "shows_grid off w ?fb ?t"
    unfolding shows_grid_def
  proof (intro allI impI)
    fix r cl dy dx assume b: "r < rows ?t" "cl < cols ?t" "dy < 8 * scale w" "dx < 8 * scale w"
    note cp = cell_pixel [OF ok al' b]
    have "col t * (8 * scale w) \<le> cl * (8 * scale w) + dx \<longleftrightarrow> col t \<le> cl"
    proof
      assume l: "col t * (8 * scale w) \<le> cl * (8 * scale w) + dx"
      have "Suc cl * (8 * scale w) \<le> col t * (8 * scale w)" if "cl < col t" using that by (intro mult_le_mono1) simp
      then show "col t \<le> cl" using l b(4) by (cases "cl < col t") auto
    qed (simp add: trans_le_add1)
    then have hit: "x_pos w \<le> cl * (8 * scale w) + dx \<longleftrightarrow> col t \<le> cl"
      "y_pos w \<le> off + r * (8 * scale w) + dy \<and> off + r * (8 * scale w) + dy < y_pos w + 8 * scale w \<longleftrightarrow> r = row t"
      using al slot_iff [OF b(3), of "row t" r] by (auto simp: aligned_def)
    have old: "fb ((off + r * (8 * scale w) + dy) * pitch w + (cl * (8 * scale w) + dx)) =
        cell_colour (scale w) (grid t r cl) dx dy" using gr b by (simp add: shows_grid_def term_erase_rest_def)
    show "?fb ((off + r * (8 * scale w) + dy) * pitch w + (cl * (8 * scale w) + dx)) =
        cell_colour (scale w) (grid ?t r cl) dx dy"
      unfolding fb cp(4,5) old using hit cp(1,3) cell_colour_blank [OF b(3), of "bg_color w"]
      by (auto simp: term_erase_rest_def)
  qed
  moreover have "bottom_blank off w ?fb ?t"
    using bb unfolding bottom_blank_def fb by (auto simp: line_pixel [OF ok] term_erase_rest_def)
  ultimately show ?thesis using ok al' by (simp add: displays_def)
qed

lemma scroll_up_at:
  assumes "writer_ok w" "px < width w" "py < height w"
  shows "snd (scroll_up (w, fb)) (py * pitch w + px) =
    (if py + 8 * scale w < height w then fb ((py + 8 * scale w) * pitch w + px) else bg_color w)"
proof -
  have p: "px < pitch w" using assms by (simp add: writer_ok_def dims_ok_def)
  have below: "py * pitch w + px < n * pitch w \<longleftrightarrow> py < n" for n
  proof
    assume "py * pitch w + px < n * pitch w"
    then show "py < n" by (meson add_lessD1 mult_less_cancel2)
  next
    assume "py < n"
    then have "Suc py * pitch w \<le> n * pitch w" by (intro mult_le_mono1) simp
    then show "py * pitch w + px < n * pitch w" using p by simp
  qed
  have "py < height w - 8 * scale w \<longleftrightarrow> py + 8 * scale w < height w" by auto
  moreover have shifted: "py * pitch w + px + 8 * scale w * pitch w = (py + 8 * scale w) * pitch w + px"
    by (simp add: add_mult_distrib)
  ultimately show ?thesis
    unfolding scroll_up_pixels [OF assms(1)] below shifted using assms(3) by simp
qed

lemma last_row_iff:
  assumes "aligned off w t"
  shows "y_pos w + 2 * (8 * scale w) > height w \<longleftrightarrow> \<not> row t + 1 < rows t"
proof -
  have y: "y_pos w + 2 * (8 * scale w) = off + (row t + 2) * (8 * scale w)" using assms by (simp add: aligned_def)
  show ?thesis
  proof (cases "row t + 1 < rows t")
    case True
    then have "(row t + 2) * (8 * scale w) \<le> rows t * (8 * scale w)" by (intro mult_le_mono1) simp
    moreover have "off + rows t * (8 * scale w) \<le> height w" using assms by (simp only: aligned_def)
    ultimately have "y_pos w + 2 * (8 * scale w) \<le> height w" using y by linarith
    then show ?thesis using True by simp
  next
    case False
    then have "row t + 2 = rows t + 1" using assms by (simp add: aligned_def)
    moreover have "height w < off + (rows t + 1) * (8 * scale w)" using assms by (simp only: aligned_def)
    ultimately have "height w < y_pos w + 2 * (8 * scale w)" using y by (simp only:)
    then show ?thesis using False by simp
  qed
qed

lemma displays_scroll:
  assumes dsp: "displays off (w, fb) t" and last: "\<not> row t + 1 < rows t"
  shows "displays off (w\<lparr>x_pos := 0\<rparr>, snd (scroll_up (w, fb))) (term_new_line (bg_color w) t)"
    (is "displays off (?w, ?fb) ?t")
proof -
  let ?h = "8 * scale w"
  have ok: "writer_ok w" and al: "aligned off w t" and gr: "shows_grid off w fb t" and bb: "bottom_blank off w fb t"
    using dsp by (auto simp: displays_def)
  have ok': "writer_ok ?w" using ok by (simp add: writer_ok_def)
  have al': "aligned off ?w ?t" using al last by (simp add: aligned_def term_new_line_def)
  have lim: "off + rows t * ?h \<le> height w" using al by (simp add: aligned_def)
  have "shows_grid off ?w ?fb ?t"
    unfolding shows_grid_def
  proof (intro allI impI)
    fix r cl dy dx assume "r < rows ?t" "cl < cols ?t" "dy < 8 * scale ?w" "dx < 8 * scale ?w"
    then have b: "r < rows t" "cl < cols t" "dy < ?h" "dx < ?h" using last by (simp_all add: term_new_line_def)
    note cp = cell_pixel [OF ok al b]
    have next_line: "off + r * ?h + dy + ?h = off + (r + 1) * ?h + dy" by simp
    have at: "?fb ((off + r * ?h + dy) * pitch w + (cl * ?h + dx)) =
        (if off + (r + 1) * ?h + dy < height w then fb ((off + (r + 1) * ?h + dy) * pitch w + (cl * ?h + dx)) else bg_color w)"
      unfolding scroll_up_at [OF ok cp(1,3)] next_line ..
    show "?fb ((off + r * (8 * scale ?w) + dy) * pitch ?w + (cl * (8 * scale ?w) + dx)) =
        cell_colour (scale ?w) (grid ?t r cl) dx dy"
    proof (cases "r + 1 < rows t")
      case True
      then have "(r + 1) * ?h + ?h \<le> rows t * ?h" using mult_le_mono1 [of "r + 2" "rows t" ?h] by simp
      then have "off + (r + 1) * ?h + dy < height w" using lim b(3) by linarith
      moreover have "fb ((off + (r + 1) * ?h + dy) * pitch w + (cl * ?h + dx)) =
          cell_colour (scale w) (grid t (r + 1) cl) dx dy"
        using gr True b(2-4) unfolding shows_grid_def by blast
      ultimately have "?fb ((off + r * ?h + dy) * pitch w + (cl * ?h + dx)) = cell_colour (scale w) (grid t (r + 1) cl) dx dy"
        using at by (simp only: if_True)
      then show ?thesis using True last by (simp add: term_new_line_def)
    next
      case False
      then have "r + 1 = rows t" using b by simp
      then have "?fb ((off + r * ?h + dy) * pitch w + (cl * ?h + dx)) = bg_color w"
        using bb cp(1) unfolding at bottom_blank_def by auto
      then show ?thesis using False last cell_colour_blank [OF b(3)] by (simp add: term_new_line_def)
    qed
  qed
  moreover have "bottom_blank off ?w ?fb ?t"
    unfolding bottom_blank_def
  proof (intro allI impI)
    fix y x assume "off + rows ?t * (8 * scale ?w) \<le> y \<and> y < height ?w" and x: "x < width ?w"
    then have y: "off + rows t * ?h \<le> y" "y < height w" using last by (simp_all add: term_new_line_def)
    have "\<not> y + ?h < height w" using y(1) al by (simp add: aligned_def)
    then show "?fb (y * pitch ?w + x) = bg_color ?w" using scroll_up_at [OF ok _ y(2), of x fb] x by simp
  qed
  ultimately show ?thesis using ok' al' by (simp add: displays_def)
qed

lemma displays_new_line:
  assumes dsp: "displays off (w, fb) t"
  shows "displays off (new_line (w, fb)) (term_new_line (bg_color w) t)"
proof -
  have ok: "writer_ok w" and al: "aligned off w t" using dsp by (auto simp: displays_def)
  show ?thesis
  proof (cases "row t + 1 < rows t")
    case False
    then have "new_line (w, fb) = (w\<lparr>x_pos := 0\<rparr>, snd (scroll_up (w, fb)))"
      using last_row_iff [OF al] new_line_fst [OF ok] new_line_snd [OF ok] by (intro prod_eqI) simp_all
    then show ?thesis using displays_scroll [OF dsp False] by simp
  next
    case True
    have "new_line (w, fb) = (w\<lparr>x_pos := 0, y_pos := y_pos w + 8 * scale w\<rparr>, fb)"
      using True last_row_iff [OF al] new_line_fst [OF ok] new_line_snd [OF ok] by (intro prod_eqI) simp_all
    moreover have "writer_ok (fst (new_line (w, fb)))" using new_line_inside [OF ok] by (simp add: stays_inside_def)
    ultimately show ?thesis
      using True dsp by (simp add: displays_def aligned_def shows_grid_def bottom_blank_def term_new_line_def)
  qed
qed

lemma wrap_iff:
  assumes "writer_ok w" "aligned off w t"
  shows "x_pos w + 8 * scale w > width w \<longleftrightarrow> \<not> col t < cols t"
proof -
  have "0 < 8 * scale w" using assms(1) by (simp add: writer_ok_def)
  then have "col t + 1 \<le> width w div (8 * scale w) \<longleftrightarrow> (col t + 1) * (8 * scale w) \<le> width w"
    by (rule less_eq_div_iff_mult_less_eq)
  moreover have "x_pos w + 8 * scale w = (col t + 1) * (8 * scale w)" "cols t = width w div (8 * scale w)"
    using assms(2) by (simp_all add: aligned_def)
  ultimately show ?thesis by linarith
qed

lemma displays_wrap:
  assumes "displays off (w, fb) t"
  shows "displays off (wrap_line (w, fb)) (if col t < cols t then t else term_new_line (bg_color w) t)"
  using assms wrap_iff [of w off t] displays_new_line [OF assms] by (auto simp: wrap_line_def displays_def)

text \<open>After wrapping there is room for one more cell: the screen is at least one cell wide.\<close>

lemma term_wrap_room:
  assumes "displays off (w, fb) t"
  shows "col (if col t < cols t then t else term_new_line bg t) < cols t"
    "cols (if col t < cols t then t else term_new_line bg t) = cols t"
proof -
  have "8 * scale w \<le> width w" "0 < scale w" "cols t = width w div (8 * scale w)"
    using assms by (auto simp: displays_def writer_ok_def aligned_def)
  then have "0 < cols t" by (simp add: div_greater_zero_iff)
  then show "col (if col t < cols t then t else term_new_line bg t) < cols t"
    "cols (if col t < cols t then t else term_new_line bg t) = cols t"
    by (simp_all add: term_new_line_def)
qed

lemma displays_advance:
  assumes "displays off (w, fb) t" "col t < cols t"
  shows "displays off (w\<lparr>x_pos := usize_add (x_pos w) (8 * scale w)\<rparr>, fb) (t\<lparr>col := col t + 1\<rparr>)"
proof -
  have ok: "writer_ok w" and al: "aligned off w t" using assms(1) by (auto simp: displays_def)
  have room: "x_pos w + 8 * scale w \<le> width w" using wrap_iff [OF ok al] assms(2) by simp
  then have "usize_add (x_pos w) (8 * scale w) = x_pos w + 8 * scale w"
    using ok by (intro usize_add_small) (simp add: writer_ok_def dims_ok_def)
  then show ?thesis
    using assms room by (simp add: displays_def writer_ok_def aligned_def shows_grid_def bottom_blank_def)
qed

lemma displays_put:
  assumes dsp: "displays off (w, fb) t" and f: "font_ok font"
  shows "displays off (write_byte font byte (w, fb)) (term_put font (text_color w) (bg_color w) byte t)"
proof (cases "byte = 10")
  case True
  have ok: "writer_ok w" using dsp by (simp add: displays_def)
  have "fill_remainder (w, fb) = new_line (w, if x_pos w < width w then fill_rows w [0..<8 * scale w] fb else fb)"
    using ok by (simp add: fill_remainder_def Let_def FONT_HEIGHT_def)
  then show ?thesis
    using True displays_new_line [OF displays_erase [OF dsp]] ok by (simp add: write_byte_split term_put_def)
next
  case False
  have ok: "writer_ok w" using dsp by (simp add: displays_def)
  define t1 where "t1 = (if col t < cols t then t else term_new_line (bg_color w) t)"
  obtain w1 fb1 where s1: "wrap_line (w, fb) = (w1, fb1)" by force
  have st: "scale w1 = scale w" "text_color w1 = text_color w" "bg_color w1 = bg_color w"
    using wrap_line_style [OF ok, of fb] s1 by simp_all
  have d1: "displays off (w1, fb1) t1" using displays_wrap [OF dsp] s1 by (simp add: t1_def)
  have room: "col t1 < cols t1" using term_wrap_room [OF dsp, of "bg_color w"] by (simp add: t1_def)
  define t2 where "t2 = (case font (unat byte) of None \<Rightarrow> t1
     | Some g \<Rightarrow> t1\<lparr>grid := (grid t1)(row t1 := (grid t1 (row t1))(col t1 := \<lparr>glyph = g, ink = text_color w, paper = bg_color w\<rparr>))\<rparr>)"
  have t2: "col t2 = col t1" "cols t2 = cols t1" by (simp_all add: t2_def split: option.split)
  obtain fb2 where s2: "draw_char font (x_pos w1) (y_pos w1) (unat byte) (w1, fb1) = (w1, fb2)"
    using draw_char_fst by (metis prod.collapse)
  have "displays off (w1, fb2) t2"
  proof (cases "font (unat byte)")
    case None
    then show ?thesis using d1 s2 by (simp add: t2_def draw_char_none)
  next
    case (Some g)
    then have "length g = 8" using f by (simp add: font_ok_def)
    then show ?thesis using displays_draw [OF d1 room, of font "unat byte" g] s2 st Some by (simp add: t2_def)
  qed
  then have "displays off (w1\<lparr>x_pos := usize_add (x_pos w1) (8 * scale w1)\<rparr>, fb2) (t2\<lparr>col := col t2 + 1\<rparr>)"
    by (rule displays_advance) (use room t2 in simp)
  moreover have "write_byte font byte (w, fb) = (w1\<lparr>x_pos := usize_add (x_pos w1) (8 * scale w1)\<rparr>, fb2)"
    using False ok s1 s2 st by (simp add: write_byte_split Let_def)
  moreover have "term_put font (text_color w) (bg_color w) byte t = t2\<lparr>col := col t2 + 1\<rparr>"
    using False t2(1) by (simp add: term_put_def Let_def t1_def [symmetric] t2_def [symmetric])
  ultimately show ?thesis by simp
qed

lemma write_byte_style:
  assumes "writer_ok w"
  shows "text_color (fst (write_byte font byte (w, fb))) = text_color w"
    "bg_color (fst (write_byte font byte (w, fb))) = bg_color w"
  using assms by (simp_all add: write_byte_split fill_remainder_split new_line_fst Let_def
      draw_char_fst [of _ _ _ _ "fst (wrap_line (w, fb))" "snd (wrap_line (w, fb))", simplified])

lemma displays_run:
  assumes "font_ok font" "displays off (w, fb) t"
  shows "displays off (write_str font chars (w, fb)) (term_print font (text_color w) (bg_color w) chars t)"
  unfolding write_str_def term_print_def
  using assms(2)
proof (induction chars arbitrary: w fb t)
  case Nil
  then show ?case by simp
next
  case (Cons c cs)
  obtain w' fb' where s: "write_byte font (ucast c) (w, fb) = (w', fb')" by force
  have "displays off (w', fb') (term_put font (text_color w) (bg_color w) (ucast c) t)"
    using displays_put [OF Cons.prems assms(1), of "ucast c"] s by simp
  moreover have "text_color w' = text_color w" "bg_color w' = bg_color w"
    using write_byte_style [of w font "ucast c" fb] Cons.prems s by (auto simp: displays_def)
  ultimately show ?case using Cons.IH [of w' fb'] s by simp
qed

text \<open>C7. Printing on the frame buffer refines printing on the abstract terminal: if the pixels show a
  grid of cells with the cursor on a cell, then after printing any string, with wrapping, scrolling
  and line feeds, they show the grid the terminal specification gives, and the cursor is where the
  specification puts it.\<close>

theorem screen_refines_terminal:
  assumes "font_ok font" "displays off (w, fb) t"
  shows "displays off (write_str font chars (w, fb)) (term_print font (text_color w) (bg_color w) chars t)"
  using assms by (rule displays_run)

definition small_writer :: FrameBufferWriter where
  "small_writer = init_writer small_info"

lemma small_writer_ok: "writer_ok small_writer" "bg_color small_writer = convert_color small_writer 0xff"
  by (simp_all add: small_writer_def init_writer_def small_info_def writer_ok_def dims_ok_def convert_color_def)

section \<open>From a cleared screen\<close>

definition empty_terminal :: "FrameBufferWriter \<Rightarrow> u32 \<Rightarrow> terminal" where
  "empty_terminal w bg = \<lparr>rows = height w div (8 * scale w), cols = width w div (8 * scale w), row = 0, col = 0,
     grid = \<lambda>_ _. blank bg\<rparr>"

lemma displays_clear:
  assumes ok: "writer_ok w" and bg: "bg_color w = convert_color w color"
  shows "displays 0 (clear color (w, fb)) (empty_terminal w (bg_color w))"
proof -
  let ?h = "8 * scale w" and ?w = "w\<lparr>x_pos := 0, y_pos := 0\<rparr>" and ?t = "empty_terminal w (bg_color w)"
  have d: "dims_ok (info w)" using ok by (simp add: writer_ok_def)
  have ok': "writer_ok ?w" using ok by (simp add: writer_ok_def)
  have "0 < ?h" using ok by (simp add: writer_ok_def)
  then have "height w < (height w div ?h + 1) * ?h" by (metis dividend_less_div_times mult.commute Suc_eq_plus1 mult_Suc_right add.commute)
  moreover have "height w div ?h * ?h \<le> height w" by simp
  moreover have "0 < height w div ?h" using ok \<open>0 < ?h\<close> by (simp add: div_greater_zero_iff writer_ok_def)
  ultimately have al: "aligned 0 ?w ?t" by (simp add: aligned_def empty_terminal_def)
  have c: "fst (clear color (w, fb)) = ?w" by (simp add: clear_def Let_def)
  have "shows_grid 0 ?w (snd (clear color (w, fb))) ?t"
    unfolding shows_grid_def
  proof (intro allI impI)
    fix r cl dy dx assume b: "r < rows ?t" "cl < cols ?t" "dy < 8 * scale ?w" "dx < 8 * scale ?w"
    note cp = cell_pixel [OF ok' al b, simplified]
    show "snd (clear color (w, fb)) ((0 + r * (8 * scale ?w) + dy) * pitch ?w + (cl * (8 * scale ?w) + dx)) =
        cell_colour (scale ?w) (grid ?t r cl) dx dy"
      using cp b bg cell_colour_blank [of dy "scale w"] by (simp add: clear_pixels [OF d] empty_terminal_def)
  qed
  moreover have "bottom_blank 0 ?w (snd (clear color (w, fb))) ?t"
    using bg line_pixel [OF ok] unfolding bottom_blank_def clear_pixels [OF d] by simp
  ultimately show ?thesis using ok' al c by (simp add: displays_def)
qed

text \<open>C33. \<open>clear\<close> followed by printing: when the background colour is the clear colour, the screen
  shows exactly what the terminal specification prints on an empty grid.\<close>

theorem clear_then_print:
  assumes "font_ok font" "writer_ok w" "bg_color w = convert_color w color"
  shows "displays 0 (write_str font chars (clear color (w, fb)))
    (term_print font (text_color w) (bg_color w) chars (empty_terminal w (bg_color w)))"
proof -
  obtain fb' where "clear color (w, fb) = (w\<lparr>x_pos := 0, y_pos := 0\<rparr>, fb')" by (simp add: clear_def Let_def)
  then show ?thesis
    using displays_clear [OF assms(2,3), of fb] displays_run [OF assms(1), of 0 "w\<lparr>x_pos := 0, y_pos := 0\<rparr>" fb'] by simp
qed

theorem clear_then_print_witness:
  "displays 0 (write_str (\<lambda>_. Some [1,2,4,8,16,32,64,128]) [65, 10, 66, 67, 68] (clear 0xff (small_writer, \<lambda>_. 0)))
    (term_print (\<lambda>_. Some [1,2,4,8,16,32,64,128]) 0xffffff 0xff [65, 10, 66, 67, 68] (empty_terminal small_writer 0xff))"
  using clear_then_print [of "\<lambda>_. Some [1,2,4,8,16,32,64,128]" small_writer "0xff" "[65, 10, 66, 67, 68]" "\<lambda>_. 0"]
    small_writer_ok by (simp add: font_ok_def small_writer_def init_writer_def)

theorem screen_refines_terminal_witness:
  "displays 0 (write_str (\<lambda>_. Some [1,2,4,8,16,32,64,128]) [65, 10, 66] (clear 0xff (small_writer, \<lambda>_. 0)))
    (term_print (\<lambda>_. Some [1,2,4,8,16,32,64,128]) 0xffffff 0xff [65, 10, 66] (empty_terminal small_writer 0xff))"
proof -
  obtain fb' where c: "clear 0xff (small_writer, \<lambda>_. 0) = (small_writer\<lparr>x_pos := 0, y_pos := 0\<rparr>, fb')"
    by (simp add: clear_def Let_def)
  moreover have "displays 0 (clear 0xff (small_writer, \<lambda>_. 0)) (empty_terminal small_writer 0xff)"
    using displays_clear [OF small_writer_ok] by (simp add: small_writer_def init_writer_def)
  ultimately show ?thesis
    using screen_refines_terminal [of "\<lambda>_. Some [1,2,4,8,16,32,64,128]" 0 "small_writer\<lparr>x_pos := 0, y_pos := 0\<rparr>" fb'
        "empty_terminal small_writer 0xff" "[65, 10, 66]"]
    by (simp add: font_ok_def small_writer_def init_writer_def)
qed

end
