(* ===== verification/Spinlock.thy ===== *)
theory Spinlock
  imports Cat_Prelude
begin

text \<open>
  Data behind a \<open>spin::Mutex\<close> on one processor, with the processor's interrupt flag: the pattern of
  \<open>shared/src/serial.rs\<close>, \<open>kernel/src/heap_allocator.rs\<close> and \<open>kernel/src/pmm.rs\<close>.
  \<open>without_interrupts\<close> saves the flag, clears it for the closure and restores it. Locking a mutex that
  is locked spins; with one processor and interrupts masked nobody can unlock it, and the operation has
  the value \<open>None\<close>.
\<close>

record 'c guarded =
  interrupts_on :: bool
  locked :: bool
  contents :: 'c

definition without_interrupts :: "('c guarded \<Rightarrow> ('r \<times> 'c guarded) option) \<Rightarrow> 'c guarded \<Rightarrow> ('r \<times> 'c guarded) option" where
  "without_interrupts f g =
     map_option (\<lambda>(r, g'). (r, g'\<lparr>interrupts_on := interrupts_on g\<rparr>)) (f (g\<lparr>interrupts_on := False\<rparr>))"

definition spin_lock :: "'c guarded \<Rightarrow> 'c guarded option" where
  "spin_lock g = (if locked g then None else Some (g\<lparr>locked := True\<rparr>))"

text \<open>\<open>try_lock\<close> takes the lock when \<open>lock\<close> can; its \<open>None\<close> is an answer.\<close>

definition try_lock :: "'c guarded \<Rightarrow> 'c guarded option" where
  "try_lock g = (if locked g then None else Some (g\<lparr>locked := True\<rparr>))"

definition force_unlock :: "'c guarded \<Rightarrow> 'c guarded" where
  "force_unlock g = g\<lparr>locked := False\<rparr>"

text \<open>\<open>lock()\<close>, an operation on the contents, and the drop of the guard.\<close>

definition with_lock :: "('c \<Rightarrow> 'r \<times> 'c) \<Rightarrow> 'c guarded \<Rightarrow> ('r \<times> 'c guarded) option" where
  "with_lock f g =
     (case spin_lock g of
        None \<Rightarrow> None
      | Some g \<Rightarrow> let (r, c) = f (contents g) in Some (r, g\<lparr>contents := c, locked := False\<rparr>))"

lemma with_lock_free [simp]:
  "\<not> locked g \<Longrightarrow> with_lock f g = Some (fst (f (contents g)), g\<lparr>contents := snd (f (contents g))\<rparr>)"
  by (cases g) (simp add: with_lock_def spin_lock_def case_prod_beta)

lemma with_lock_held [simp]: "locked g \<Longrightarrow> with_lock f g = None"
  by (simp add: with_lock_def spin_lock_def)

lemma masked_with_lock [simp]:
  "without_interrupts (with_lock f) g =
     (if locked g then None else Some (fst (f (contents g)), g\<lparr>contents := snd (f (contents g))\<rparr>))"
  by (cases g) (simp add: without_interrupts_def)

end
