(* ===== verification/Exceptions.thy ===== *)
theory Exceptions
  imports Console Spinlock Interrupts
begin

text \<open>
  What the kernel reports when something goes wrong: the panic output of \<open>shared/src/serial.rs\<close> and
  \<open>shared/src/panic.rs\<close>, and the exception handlers of \<open>kernel/src/interrupts.rs\<close>. The serial port is
  the text sent to the UART, behind its lock. A handler either returns to the interrupted code or halts the
  processor for good; an exception that finds the port locked by the code it interrupted spins forever
  (\<open>None\<close>), since the lock is taken with interrupts masked but exceptions cannot be masked.

  The texts that the \<open>x86_64\<close> crate's \<open>Debug\<close> formats produce for the stack frame, the faulting address
  and the error code are arguments, as are the bits of its \<open>PageFaultErrorCode\<close> constants.
\<close>

type_synonym serial_port = "u32 list guarded"

datatype 's outcome = Resumes 's | Halts 's

section \<open>Printing\<close>

text \<open>\<open>serial::_print\<close>, with its lock.\<close>

definition port_print :: "u32 list \<Rightarrow> serial_port \<Rightarrow> (unit \<times> serial_port) option" where
  "port_print txt = without_interrupts (with_lock (\<lambda>out. ((), out @ txt)))"

definition print_panic :: "u32 list \<Rightarrow> serial_port \<Rightarrow> (unit \<times> serial_port) option" where
  "print_panic txt =
     without_interrupts (\<lambda>g.
       case (case try_lock g of Some g \<Rightarrow> Some g | None \<Rightarrow> spin_lock (force_unlock g)) of
         None \<Rightarrow> None
       | Some port \<Rightarrow>
           Some ((), port\<lparr>contents := contents port @ chars (CHR 0x0A # ''[FORCE_PRINT] '') @ txt, locked := False\<rparr>))"

record panic_location =
  panic_file :: string
  panic_line :: nat
  panic_column :: nat

definition location_text :: "panic_location option \<Rightarrow> string" where
  "location_text location =
     (case location of
        Some l \<Rightarrow> ''panic at '' @ panic_file l @ '':'' @ dec (panic_line l) @ '':'' @ dec (panic_column l) @ [CHR 0x0A]
      | None \<Rightarrow> ''panic at <unknown location>'' @ [CHR 0x0A])"

definition panic_handler_impl :: "panic_location option \<Rightarrow> string \<Rightarrow> serial_port \<Rightarrow> serial_port outcome option" where
  "panic_handler_impl location message g =
     (case print_panic (chars (location_text location)) g of
        None \<Rightarrow> None
      | Some (_, g) \<Rightarrow>
          (case print_panic (chars (''message: '' @ message @ [CHR 0x0A])) g of
             None \<Rightarrow> None
           | Some (_, g) \<Rightarrow> Some (Halts g)))"

section \<open>Exception handlers\<close>

text \<open>\<open>serial_println!\<close> for each of the lines.\<close>

fun serial_println_all :: "string list \<Rightarrow> serial_port \<Rightarrow> serial_port option" where
  "serial_println_all [] g = Some g"
| "serial_println_all (l # ls) g =
     (case port_print (chars (l @ [CHR 0x0A])) g of
        None \<Rightarrow> None
      | Some (_, g) \<Rightarrow> serial_println_all ls g)"

definition breakpoint_handler_run :: "string \<Rightarrow> serial_port \<Rightarrow> serial_port outcome option" where
  "breakpoint_handler_run stack_frame g =
     map_option Resumes (serial_println_all [''EXCEPTION: BREAKPOINT'' @ [CHR 0x0A] @ stack_frame] g)"

definition double_fault_handler_run :: "string \<Rightarrow> serial_port \<Rightarrow> serial_port outcome option" where
  "double_fault_handler_run stack_frame g =
     map_option Halts (serial_println_all [[CHR 0x0A] @ ''PANIC: DOUBLE FAULT EXCEPTION'', stack_frame] g)"

definition general_protection_handler_run :: "string \<Rightarrow> u64 \<Rightarrow> serial_port \<Rightarrow> serial_port outcome option" where
  "general_protection_handler_run stack_frame error_code g =
     map_option Halts (serial_println_all
       [''EXCEPTION: GENERAL PROTECTION FAULT'', ''Error Code: '' @ hex (unat error_code), stack_frame] g)"

datatype pf_flag =
    PROTECTION_VIOLATION | CAUSED_BY_WRITE | USER_MODE | MALFORMED_TABLE | INSTRUCTION_FETCH
  | PROTECTION_KEY | SHADOW_STACK | HLAT | SGX | RMP

fun bool_text :: "bool \<Rightarrow> string" where
  "bool_text True = ''true''"
| "bool_text False = ''false''"

text \<open>The format string of the details, with its line breaks.\<close>

definition fault_details :: "(pf_flag \<Rightarrow> u64) \<Rightarrow> u64 \<Rightarrow> string" where
  "fault_details flag_bits bits =
     (let flag = (\<lambda>f. bool_text (bits AND flag_bits f \<noteq> 0));
          line = (\<lambda>label. CHR 0x0A # ''         - '' @ label)
      in ''Details:'' @
         line ''Protection violation:  '' @ flag PROTECTION_VIOLATION @
         line ''Caused by write:       '' @ flag CAUSED_BY_WRITE @
         line ''User mode fault:       '' @ flag USER_MODE @
         line ''Reserved bit set:      '' @ flag MALFORMED_TABLE @
         line ''Instruction fetch:     '' @ flag INSTRUCTION_FETCH @
         line ''PK (Protection Key):   '' @ flag PROTECTION_KEY @
         line ''Shadow stack access:   '' @ flag SHADOW_STACK @
         line ''HLAT paging:           '' @ flag HLAT @
         line ''SGX violation:         '' @ flag SGX @ '' (Intel)'' @
         line ''RMP violation:         '' @ flag RMP @ '' (AMD)'')"

definition page_fault_report :: "(pf_flag \<Rightarrow> u64) \<Rightarrow> string \<Rightarrow> string \<Rightarrow> string \<Rightarrow> u64 \<Rightarrow> string list" where
  "page_fault_report flag_bits stack_frame cr2 error_code_debug bits =
     [''EXCEPTION: PAGE FAULT'',
      ''Accessed Address: '' @ cr2,
      ''Error Code: '' @ hex (unat bits) @ '' ('' @ error_code_debug @ '')'',
      ''Cause: '' @ (if bits AND flag_bits PROTECTION_VIOLATION \<noteq> 0 then ''Protection violation'' else ''Page not present''),
      fault_details flag_bits bits,
      stack_frame]"

definition page_fault_handler_run ::
  "(pf_flag \<Rightarrow> u64) \<Rightarrow> string \<Rightarrow> string \<Rightarrow> string \<Rightarrow> u64 \<Rightarrow> serial_port \<Rightarrow> serial_port outcome option" where
  "page_fault_handler_run flag_bits stack_frame cr2 error_code_debug bits g =
     map_option Halts (serial_println_all (page_fault_report flag_bits stack_frame cr2 error_code_debug bits) g)"

section \<open>Lemmas\<close>

lemma port_print_eq:
  "port_print txt g = (if locked g then None else Some ((), g\<lparr>contents := contents g @ txt\<rparr>))"
  by (simp add: port_print_def)

lemma print_panic_eq:
  "print_panic txt g =
     Some ((), g\<lparr>locked := False, contents := contents g @ chars (CHR 0x0A # ''[FORCE_PRINT] '') @ txt\<rparr>)"
  by (cases g) (simp add: print_panic_def without_interrupts_def try_lock_def spin_lock_def force_unlock_def)

lemma serial_println_all_eq:
  "serial_println_all ls g =
     (if locked g \<and> ls \<noteq> [] then None
      else Some (g\<lparr>contents := contents g @ chars (concat (map (\<lambda>l. l @ [CHR 0x0A]) ls))\<rparr>))"
  by (induction ls arbitrary: g) (auto simp: port_print_eq chars_def)

lemma bool_text_append: "bool_text a @ xs = bool_text b @ ys \<longleftrightarrow> a = b \<and> xs = ys"
  by (cases a; cases b) auto

lemma bool_text_inj: "bool_text a = bool_text b \<longleftrightarrow> a = b"
  by (cases a; cases b) auto

lemma flag_text: "(if b = 0 then ''false'' else ''true'') = bool_text (b \<noteq> (0 :: u64))"
  by simp

text \<open>The details as a table of labels and flags.\<close>

lemma fault_details_table:
  "fault_details flag_bits bits = ''Details:'' @
     concat (map (\<lambda>(label, f, vendor). CHR 0x0A # ''         - '' @ label @
              (if bits AND flag_bits f = 0 then ''false'' else ''true'') @ vendor)
            [(''Protection violation:  '', PROTECTION_VIOLATION, []), (''Caused by write:       '', CAUSED_BY_WRITE, []),
             (''User mode fault:       '', USER_MODE, []), (''Reserved bit set:      '', MALFORMED_TABLE, []),
             (''Instruction fetch:     '', INSTRUCTION_FETCH, []), (''PK (Protection Key):   '', PROTECTION_KEY, []),
             (''Shadow stack access:   '', SHADOW_STACK, []), (''HLAT paging:           '', HLAT, []),
             (''SGX violation:         '', SGX, '' (Intel)''), (''RMP violation:         '', RMP, '' (AMD)'')])"
  unfolding flag_text fault_details_def Let_def by simp

lemma page_fault_lines:
  "concat (map (\<lambda>l. l @ [CHR 0x0A]) (page_fault_report flag_bits frame cr2 dbg bits)) =
     ''EXCEPTION: PAGE FAULT'' @ CHR 0x0A # ''Accessed Address: '' @ cr2 @
     CHR 0x0A # ''Error Code: '' @ hex (unat bits) @ '' ('' @ dbg @ '')'' @
     CHR 0x0A # ''Cause: '' @
       (if bits AND flag_bits PROTECTION_VIOLATION = 0 then ''Page not present'' else ''Protection violation'') @
     CHR 0x0A # fault_details flag_bits bits @ CHR 0x0A # frame @ [CHR 0x0A]"
  by (simp add: page_fault_report_def)

lemma page_fault_report_nonempty: "page_fault_report flag_bits frame cr2 dbg bits \<noteq> []"
  by (simp add: page_fault_report_def)

lemma fault_details_inj:
  assumes "fault_details flag_bits a = fault_details flag_bits b"
  shows "(a AND flag_bits f \<noteq> 0) = (b AND flag_bits f \<noteq> 0)"
  using assms by (cases f) (simp_all add: fault_details_def Let_def bool_text_append bool_text_inj)

section \<open>Properties\<close>

text \<open>C29. A panic is always reported: \<open>panic_handler_impl\<close> reaches its halt from every state of the
  serial port, also when the panicking code holds the port's lock, where \<open>serial::_print\<close> would spin
  forever; the location and the message are on the port, the lock is free and the interrupt flag unchanged.\<close>

theorem panic_always_reported:
  "panic_handler_impl location message g = Some (Halts (g\<lparr>locked := False, contents := contents g @
     chars (CHR 0x0A # ''[FORCE_PRINT] '' @ location_text location @
            CHR 0x0A # ''[FORCE_PRINT] '' @ ''message: '' @ message @ [CHR 0x0A])\<rparr>)) \<and>
   (port_print txt g = None \<longleftrightarrow> locked g)"
  by (simp add: panic_handler_impl_def print_panic_eq port_print_eq chars_def)

text \<open>C30. Exceptions are reported, and only the breakpoint resumes. With the port not locked, each handler appends its
  report to the port, in the words of the source: the name of the exception, then the stack frame (breakpoint, double fault),
  the error code and the stack frame (general protection), or the address, the error code, the cause, the ten flags and the
  stack frame (page fault); then the breakpoint handler returns and the others halt. With the port locked by the interrupted code, no
  handler gets to its report or returns. Two page fault error codes with the same details agree on every flag that the report names.\<close>

theorem exceptions_reported:
  "(locked g \<longrightarrow> breakpoint_handler_run frame g = None \<and> double_fault_handler_run frame g = None \<and>
      general_protection_handler_run frame code g = None \<and> page_fault_handler_run flag_bits frame cr2 dbg bits g = None) \<and>
   (\<not> locked g \<longrightarrow>
      breakpoint_handler_run frame g = Some (Resumes (g\<lparr>contents := contents g @
        chars (''EXCEPTION: BREAKPOINT'' @ CHR 0x0A # frame @ [CHR 0x0A])\<rparr>)) \<and>
      double_fault_handler_run frame g = Some (Halts (g\<lparr>contents := contents g @
        chars (CHR 0x0A # ''PANIC: DOUBLE FAULT EXCEPTION'' @ CHR 0x0A # frame @ [CHR 0x0A])\<rparr>)) \<and>
      general_protection_handler_run frame code g = Some (Halts (g\<lparr>contents := contents g @
        chars (''EXCEPTION: GENERAL PROTECTION FAULT'' @ CHR 0x0A # ''Error Code: '' @ hex (unat code) @
          CHR 0x0A # frame @ [CHR 0x0A])\<rparr>)) \<and>
      page_fault_handler_run flag_bits frame cr2 dbg bits g = Some (Halts (g\<lparr>contents := contents g @
        chars (''EXCEPTION: PAGE FAULT'' @ CHR 0x0A # ''Accessed Address: '' @ cr2 @
          CHR 0x0A # ''Error Code: '' @ hex (unat bits) @ '' ('' @ dbg @ '')'' @
          CHR 0x0A # ''Cause: '' @
            (if bits AND flag_bits PROTECTION_VIOLATION = 0 then ''Page not present'' else ''Protection violation'') @
          CHR 0x0A # ''Details:'' @
          concat (map (\<lambda>(label, f, vendor). CHR 0x0A # ''         - '' @ label @
              (if bits AND flag_bits f = 0 then ''false'' else ''true'') @ vendor)
            [(''Protection violation:  '', PROTECTION_VIOLATION, []), (''Caused by write:       '', CAUSED_BY_WRITE, []),
             (''User mode fault:       '', USER_MODE, []), (''Reserved bit set:      '', MALFORMED_TABLE, []),
             (''Instruction fetch:     '', INSTRUCTION_FETCH, []), (''PK (Protection Key):   '', PROTECTION_KEY, []),
             (''Shadow stack access:   '', SHADOW_STACK, []), (''HLAT paging:           '', HLAT, []),
             (''SGX violation:         '', SGX, '' (Intel)''), (''RMP violation:         '', RMP, '' (AMD)'')]) @
          CHR 0x0A # frame @ [CHR 0x0A])\<rparr>))) \<and>
   (fault_details flag_bits bits = fault_details flag_bits bits' \<longrightarrow>
      (bits AND flag_bits f \<noteq> 0) = (bits' AND flag_bits f \<noteq> 0))"
proof (intro conjI impI)
  assume "fault_details flag_bits bits = fault_details flag_bits bits'"
  then show "(bits AND flag_bits f \<noteq> 0) = (bits' AND flag_bits f \<noteq> 0)" by (rule fault_details_inj)
qed ((simp_all only: page_fault_handler_run_def serial_println_all_eq page_fault_lines page_fault_report_nonempty
        fault_details_table append_assoc option.map simp_thms if_False if_True)?,
      simp_all add: double_fault_handler_run_def general_protection_handler_run_def breakpoint_handler_run_def serial_println_all_eq)

theorem exceptions_reported_witness:
  "fault_details (\<lambda>_. 1) 2 = fault_details (\<lambda>_. 1) 4 \<and> ((2 :: u64) AND 1 \<noteq> 0) = ((4 :: u64) AND 1 \<noteq> 0) \<and>
   page_fault_handler_run (\<lambda>_. 1) [] [] [] 2 \<lparr>interrupts_on = False, locked = True, contents = []\<rparr> = None \<and>
   breakpoint_handler_run ''f'' \<lparr>interrupts_on = False, locked = False, contents = []\<rparr> =
     Some (Resumes \<lparr>interrupts_on = False, locked = False, contents = chars (''EXCEPTION: BREAKPOINT'' @ [CHR 0x0A, CHR ''f'', CHR 0x0A])\<rparr>)"
proof -
  have e: "fault_details (\<lambda>_. 1) 2 = fault_details (\<lambda>_. 1) 4" by (simp add: fault_details_def)
  then show ?thesis
    using exceptions_reported [of "\<lparr>interrupts_on = False, locked = True, contents = []\<rparr>" "[]" 0 "\<lambda>_. 1" "[]" "[]" 2 4 PROTECTION_VIOLATION]
      exceptions_reported [of "\<lparr>interrupts_on = False, locked = False, contents = []\<rparr>" "''f''" 0 "\<lambda>_. 1" "[]" "[]" 2 4 PROTECTION_VIOLATION]
    by simp
qed

end
