(* ===== verification/Address_Space.thy ===== *)
theory Address_Space
  imports Frame_Allocator
begin

text \<open>
  Mapping pages for the kernel and for user programs: what \<open>elf_loader.rs\<close> and
  \<open>heap_allocator.rs\<close> do with the page tables. The \<open>x86_64\<close> crate is a parameter, the record
  \<open>x86_64\<close> of the functions the sources call; \<open>x86_64_ok\<close> states what its documentation says of
  them. Page tables are the crate's own state, of an arbitrary type \<open>'pt\<close>; the frames they occupy
  come from the frame allocator that \<open>map_to\<close> is given, and their bytes are not part of
  \<open>vmem\<close>. A frame allocator may keep its state in memory, as the physical memory manager keeps its
  bitmap: it acts on a pair of its own state and the memory.

  The memory is the kernel's view through the higher-half window: physical address \<open>p\<close> is the byte
  \<open>p + hhdm\<close>. \<open>user_image\<close> is the view of a user program, through the page tables.
  The messages that the loader prints are not modelled.
\<close>

section \<open>The page-table interface\<close>

datatype page_flag = PRESENT | WRITABLE | USER_ACCESSIBLE | NO_EXECUTE | NO_CACHE

type_synonym page_flags = "page_flag set"

type_synonym 'a allocator = "'a \<times> memory \<Rightarrow> u64 option \<times> ('a \<times> memory)"

text \<open>Pages and frames are named by their start addresses. \<open>flags_of\<close> is not called by the code: it
  observes the flags of a mapped page.\<close>

record ('pt, 'a) x86_64 =
  virt_addr_new :: "u64 \<Rightarrow> u64 option"
  containing_address :: "u64 \<Rightarrow> u64"
  range_inclusive :: "u64 \<Rightarrow> u64 \<Rightarrow> u64 list"
  translate_page :: "'pt \<Rightarrow> u64 \<Rightarrow> u64 option"
  map_to :: "u64 \<Rightarrow> u64 \<Rightarrow> page_flags \<Rightarrow> 'a allocator \<Rightarrow> 'pt \<Rightarrow> 'a \<times> memory \<Rightarrow> ('pt \<times> ('a \<times> memory)) option"
  flags_of :: "'pt \<Rightarrow> u64 \<Rightarrow> page_flags"

definition page_of :: "u64 \<Rightarrow> u64" where
  "page_of a = a AND NOT 0xFFF"

definition pages_between :: "u64 \<Rightarrow> u64 \<Rightarrow> u64 list" where
  "pages_between p q =
     (if p \<le> q then map (\<lambda>i. p + of_nat (4096 * i)) [0..<(unat q - unat p) div 4096 + 1] else [])"

text \<open>The documented behaviour: \<open>map_to\<close> adds one mapping, and the only frames it takes are those it
  asks the allocator for.\<close>

definition x86_64_ok :: "('pt, 'a) x86_64 \<Rightarrow> bool" where
  "x86_64_ok x \<longleftrightarrow>
     (\<forall>a. containing_address x a = page_of a) \<and>
     (\<forall>p q. range_inclusive x p q = pages_between p q) \<and>
     (\<forall>a v. virt_addr_new x a = Some v \<longrightarrow> v = a) \<and>
     (\<forall>page frame flags allocate pt s pt' s'.
        map_to x page frame flags allocate pt s = Some (pt', s') \<longrightarrow>
        translate_page x pt' = (translate_page x pt)(page \<mapsto> frame) \<and>
        flags_of x pt' = (flags_of x pt)(page := flags) \<and>
        (\<exists>n fs. allocate_n allocate n s = (fs, s')))"

text \<open>\<open>map_to\<close> on an unmapped page needs at most three new tables and fails only for want of frames;
  \<open>U\<close> are the pages whose upper tables hold no huge page.\<close>

definition map_to_progress ::
  "('pt, 'a) x86_64 \<Rightarrow> 'a allocator \<Rightarrow> ('a \<times> memory \<Rightarrow> u64 set) \<Rightarrow> u64 set \<Rightarrow> bool" where
  "map_to_progress x allocate avail U \<longleftrightarrow>
     (\<forall>page \<in> U. \<forall>frame flags pt s. translate_page x pt page = None \<and> 3 \<le> card (avail s) \<longrightarrow>
        (\<exists>pt' s'. map_to x page frame flags allocate pt s = Some (pt', s') \<and> card (avail s) \<le> card (avail s') + 3))"

record ('pt, 'a) vm =
  tables :: 'pt
  manager :: 'a
  vmem :: memory

section \<open>Mapping pages\<close>

text \<open>The address of a page: \<open>Page::containing_address(VirtAddr::new(a))\<close>, with the panic of
  \<open>VirtAddr::new\<close>.\<close>

definition page_at :: "('pt, 'a) x86_64 \<Rightarrow> u64 \<Rightarrow> panic + u64" where
  "page_at x a = and_then (expect ''VirtAddr::new'' (virt_addr_new x a)) (\<lambda>v. Inr (containing_address x v))"

definition alloc_frame :: "'a allocator \<Rightarrow> ('pt, 'a) vm \<Rightarrow> u64 option \<times> ('pt, 'a) vm" where
  "alloc_frame allocate s =
     (let (r, (a, m)) = allocate (manager s, vmem s) in (r, s\<lparr>manager := a, vmem := m\<rparr>))"

definition map_frame ::
  "('pt, 'a) x86_64 \<Rightarrow> 'a allocator \<Rightarrow> u64 \<Rightarrow> u64 \<Rightarrow> page_flags \<Rightarrow> ('pt, 'a) vm \<Rightarrow> ('pt, 'a) vm option" where
  "map_frame x allocate page frame flags s =
     (case map_to x page frame flags allocate (tables s) (manager s, vmem s) of
        None \<Rightarrow> None
      | Some (pt, (a, m)) \<Rightarrow> Some (s\<lparr>tables := pt, manager := a, vmem := m\<rparr>))"

definition zero_frame :: "u64 \<Rightarrow> u64 \<Rightarrow> ('pt, 'a) vm \<Rightarrow> ('pt, 'a) vm" where
  "zero_frame hhdm frame s = s\<lparr>vmem := write_bytes (vmem s) (frame + hhdm) 0 4096\<rparr>"

text \<open>Allocate, map, zero: the body shared by the loops of the loader.\<close>

definition map_new_page ::
  "('pt, 'a) x86_64 \<Rightarrow> 'a allocator \<Rightarrow> u64 \<Rightarrow> string \<Rightarrow> string \<Rightarrow> page_flags \<Rightarrow> u64 \<Rightarrow> ('pt, 'a) vm \<Rightarrow>
   panic + ('pt, 'a) vm" where
  "map_new_page x allocate hhdm alloc_msg map_msg flags page s =
     (let (r, s) = alloc_frame allocate s
      in and_then (expect alloc_msg r) (\<lambda>frame.
         and_then (expect map_msg (map_frame x allocate page frame flags s)) (\<lambda>s.
         Inr (zero_frame hhdm frame s))))"

text \<open>The loops that skip a page which is mapped already.\<close>

definition map_if_needed ::
  "('pt, 'a) x86_64 \<Rightarrow> 'a allocator \<Rightarrow> u64 \<Rightarrow> string \<Rightarrow> string \<Rightarrow> page_flags \<Rightarrow> u64 \<Rightarrow> ('pt, 'a) vm \<Rightarrow>
   panic + ('pt, 'a) vm" where
  "map_if_needed x allocate hhdm alloc_msg map_msg flags page s =
     (if translate_page x (tables s) page \<noteq> None then Inr s
      else map_new_page x allocate hhdm alloc_msg map_msg flags page s)"

section \<open>Pages and windows\<close>

lemma page_mask: "(0xFFF :: u64) = mask 12"
  by (simp add: mask_eq_exp_minus_1)

lemma unat_page_of: "unat (page_of a) = unat a div 4096 * 4096"
  unfolding page_of_def page_mask unat_and_not_mask by simp

lemma page_of_aligned [simp]: "4096 dvd unat (page_of a)"
  by (simp add: unat_page_of)

lemma page_of_page: "4096 dvd unat p \<Longrightarrow> page_of p = p"
  by (simp add: word_unat_eq_iff unat_page_of)

lemma page_split: "unat a = unat (page_of a) + unat a mod 4096"
  by (simp add: unat_page_of)

lemma page_of_add:
  assumes "4096 dvd unat p" "i < 4096"
  shows "page_of (p + of_nat i) = p" "unat (p + of_nat i) = unat p + i" "unat (p + of_nat i) mod 4096 = i"
proof -
  obtain q where q: "unat p = 4096 * q" using assms(1) by (auto simp: dvd_def)
  have "q < 2 ^ 52" using unat_lt_64 [of p] q by simp
  then have "unat p + i < 2 ^ 64" using q assms(2) by simp
  then show u: "unat (p + of_nat i) = unat p + i" by (intro unat_add_of_nat_small) 
  then show "unat (p + of_nat i) mod 4096 = i" using q assms(2) by simp
  show "page_of (p + of_nat i) = p" using u q assms(2) by (simp add: word_unat_eq_iff unat_page_of)
qed

lemma in_page_iff:
  assumes "4096 dvd unat p"
  shows "page_of b = p \<longleftrightarrow> unat (b - p) < 4096"
proof
  define i where "i = unat b mod 4096"
  have i: "i < 4096" by (simp add: i_def)
  assume "page_of b = p"
  then have "unat b = unat p + i" using page_split [of b] by (simp add: i_def)
  then have "b = p + of_nat i" using page_of_add(2) [OF assms i] by (simp add: word_unat_eq_iff)
  then show "unat (b - p) < 4096" using i by (simp add: unat_of_nat_small)
next
  assume "unat (b - p) < 4096"
  then show "page_of b = p" using page_of_add(1) [OF assms, of "unat (b - p)"] by simp
qed

lemma page_plus_offset: "a = page_of a + of_nat (unat a mod 4096)"
  using page_of_add(2) [OF page_of_aligned [of a], of "unat a mod 4096"] page_split [of a] by (simp add: word_unat_eq_iff)

lemma set_pages_between:
  assumes "4096 dvd unat p" "4096 dvd unat r"
  shows "set (pages_between p r) = {q. 4096 dvd unat q \<and> p \<le> q \<and> q \<le> r}"
proof (cases "p \<le> r")
  case True
  obtain i j where ij: "unat p = 4096 * i" "unat r = 4096 * j" using assms by (auto simp: dvd_def)
  have le: "i \<le> j" using True ij by (simp add: word_le_nat_alt)
  have at: "unat (p + of_nat (4096 * k)) = 4096 * (i + k)" if "i + k \<le> j" for k
    using that ij unat_lt_64 [of r] by (subst unat_add_of_nat_small) auto
  have n: "(unat r - unat p) div 4096 + 1 = j - i + 1" by (simp add: ij flip: diff_mult_distrib2)
  show ?thesis
  proof (intro set_eqI iffI)
    fix q assume "q \<in> set (pages_between p r)"
    then obtain k where k: "k \<le> j - i" "q = p + of_nat (4096 * k)" using True unfolding pages_between_def n
      by (auto simp del: of_nat_mult upt_Suc simp: less_Suc_eq_le)
    then have "unat q = 4096 * (i + k)" using at le by simp
    then show "q \<in> {q. 4096 dvd unat q \<and> p \<le> q \<and> q \<le> r}" using k(1) le ij by (simp add: word_le_nat_alt)
  next
    fix q assume q: "q \<in> {q. 4096 dvd unat q \<and> p \<le> q \<and> q \<le> r}"
    then obtain l where l: "unat q = 4096 * l" by (auto simp: dvd_def)
    then have b: "i \<le> l" "l \<le> j" using q ij by (simp_all add: word_le_nat_alt)
    then have "q = p + of_nat (4096 * (l - i))" using at [of "l - i"] l by (simp add: word_unat_eq_iff)
    moreover have "l - i < j - i + 1" using b by simp
    ultimately show "q \<in> set (pages_between p r)" using True unfolding pages_between_def n
      by (auto simp del: of_nat_mult upt_Suc)
  qed
qed (auto simp: pages_between_def)

lemma distinct_pages_between: "distinct (pages_between p q)"
proof (cases "p \<le> q")
  case True
  have "inj_on (\<lambda>i. p + of_nat (4096 * i)) {0..<(unat q - unat p) div 4096 + 1}"
  proof (rule inj_onI)
    fix i j
    assume ij: "i \<in> {0..<(unat q - unat p) div 4096 + 1}" "j \<in> {0..<(unat q - unat p) div 4096 + 1}"
      and eq: "p + of_nat (4096 * i) = p + of_nat (4096 * j)"
    have u: "unat (p + of_nat (4096 * k)) = unat p + 4096 * k" if "k < (unat q - unat p) div 4096 + 1" for k
    proof (rule unat_add_of_nat_small)
      have "4096 * k \<le> unat q - unat p" using that by (simp add: less_Suc_eq_le less_eq_div_iff_mult_less_eq mult.commute)
      then show "unat p + 4096 * k < 2 ^ 64" using True unat_lt_64 [of q] by (simp add: word_le_nat_alt)
    qed
    have "unat p + 4096 * i = unat (p + of_nat (4096 * i))" by (rule u [symmetric]) (use ij in simp)
    also have "\<dots> = unat (p + of_nat (4096 * j))" by (simp only: eq)
    also have "\<dots> = unat p + 4096 * j" by (rule u) (use ij in simp)
    finally show "i = j" by simp
  qed
  then show ?thesis using True by (simp add: pages_between_def distinct_map del: upt_Suc of_nat_mult)
qed (simp add: pages_between_def)

lemma page_of_mono: "a \<le> b \<Longrightarrow> page_of a \<le> page_of b"
  by (simp add: word_le_nat_alt unat_page_of div_le_mono)

text \<open>The window of a frame: its 4096 bytes as the kernel sees them.\<close>

definition window :: "u64 \<Rightarrow> u64 \<Rightarrow> u64 set" where
  "window hhdm f = {x. in_range (f + hhdm) 4096 x}"

definition window_fits :: "u64 \<Rightarrow> u64 \<Rightarrow> bool" where
  "window_fits hhdm f \<longleftrightarrow> 4096 dvd unat f \<and> unat f + unat hhdm + 4096 \<le> 2 ^ 64"

lemma unat_window: "window_fits hhdm f \<Longrightarrow> unat (f + hhdm) = unat f + unat hhdm"
  by (intro unat_add_small) (simp add: window_fits_def)

lemma windows_apart:
  assumes "window_fits hhdm f" "window_fits hhdm g" "f \<noteq> g"
  shows "apart (f + hhdm) 4096 (g + hhdm) 4096"
proof -
  have "apart f 4096 g 4096" using assms by (intro aligned_frames_apart) (auto simp: window_fits_def)
  then show ?thesis using assms(1,2) by (auto simp: apart_def unat_window window_fits_def)
qed

lemma windows_disjoint:
  assumes "window_fits hhdm f" "window_fits hhdm g" "f \<noteq> g" "i < 4096"
  shows "g + hhdm + of_nat i \<notin> window hhdm f"
  using apart_not_in_range [OF windows_apart [OF assms(1-3)] assms(4)] by (simp add: window_def)

lemma window_member: "i < 4096 \<Longrightarrow> f + hhdm + of_nat i \<in> window hhdm f"
  by (simp add: window_def in_range_self)

section \<open>The view of a user program\<close>

definition frame_byte :: "u64 \<Rightarrow> ('pt, 'a) vm \<Rightarrow> u64 \<Rightarrow> u64 \<Rightarrow> u8" where
  "frame_byte hhdm s f a = vmem s (f + hhdm + of_nat (unat a mod 4096))"

text \<open>The bytes that are mapped, at user addresses; \<open>U\<close> is the set of pages of interest.\<close>

definition user_image :: "('pt, 'a) x86_64 \<Rightarrow> u64 \<Rightarrow> u64 set \<Rightarrow> ('pt, 'a) vm \<Rightarrow> u64 \<rightharpoonup> u8" where
  "user_image x hhdm U s a =
     (if page_of a \<in> U then map_option (\<lambda>f. frame_byte hhdm s f a) (translate_page x (tables s) (page_of a))
      else None)"

text \<open>The specification of mapping a page: a new page reads as zeros, a mapped one is left alone.\<close>

definition image_map :: "u64 \<Rightarrow> (u64 \<rightharpoonup> u8) \<Rightarrow> (u64 \<rightharpoonup> u8)" where
  "image_map page img = (\<lambda>a. if page_of a = page \<and> img a = None then Some 0 else img a)"

text \<open>The specification of storing bytes at consecutive user addresses.\<close>

definition image_store :: "u64 \<Rightarrow> u8 list \<Rightarrow> (u64 \<rightharpoonup> u8) \<Rightarrow> (u64 \<rightharpoonup> u8)" where
  "image_store a bs img = (\<lambda>b. if unat (b - a) < length bs then Some (bs ! unat (b - a)) else img b)"

lemma user_image_dom:
  "page_of a \<in> U \<Longrightarrow> user_image x hhdm U s a = None \<longleftrightarrow> translate_page x (tables s) (page_of a) = None"
  by (simp add: user_image_def)

section \<open>Frame allocators behind the window\<close>

text \<open>
  The contract of an allocator whose frames are used through the window: its own bytes
  (\<open>reserved\<close>) are all it reads and writes, and no available frame's window touches them.
\<close>

locale window_allocator = frame_allocator allocate avail invar
  for allocate :: "'a allocator" and avail :: "'a \<times> memory \<Rightarrow> u64 set" and invar :: "'a \<times> memory \<Rightarrow> bool" +
  fixes hhdm :: u64 and reserved :: "'a \<Rightarrow> u64 set"
  assumes allocate_effect: "invar s \<Longrightarrow> allocate s = (r, s') \<Longrightarrow>
      fst s' = fst s \<and> (\<forall>x. x \<notin> reserved (fst s) \<longrightarrow> snd s' x = snd s x)"
    and store_effect: "invar (a, m) \<Longrightarrow> (\<forall>x \<in> reserved a. m' x = m x) \<Longrightarrow>
      invar (a, m') \<and> avail (a, m') = avail (a, m)"
    and avail_window: "invar s \<Longrightarrow> f \<in> avail s \<Longrightarrow> window_fits hhdm f \<and> window hhdm f \<inter> reserved (fst s) = {}"
begin

lemma allocate_n_effect:
  assumes "invar s" "allocate_n allocate n s = (fs, s')"
  shows "invar s' \<and> fst s' = fst s \<and> avail s' = avail s - set fs \<and> set fs \<subseteq> avail s \<and>
    (\<forall>x. x \<notin> reserved (fst s) \<longrightarrow> snd s' x = snd s x)"
proof -
  have "fst s' = fst s \<and> (\<forall>x. x \<notin> reserved (fst s) \<longrightarrow> snd s' x = snd s x)"
    using assms
  proof (induction n arbitrary: s fs)
    case (Suc n)
    from Suc.prems(1) show ?case
    proof (cases rule: allocate_cases)
      case None
      then show ?thesis using Suc.prems by auto
    next
      case (Some f t)
      then obtain gs where gs: "allocate_n allocate n t = (gs, s')"
        using Suc.prems(2) by (auto split: prod.splits)
      show ?thesis using Suc.IH [OF Some(4) gs] allocate_effect [OF Suc.prems(1) Some(1)] by auto
    qed
  qed auto
  then show ?thesis using allocate_n_run [OF assms] by blast
qed

text \<open>The frames behind the pages of \<open>U\<close> belong to these pages alone.\<close>

definition owned :: "('pt, 'a) x86_64 \<Rightarrow> u64 set \<Rightarrow> ('pt, 'a) vm \<Rightarrow> bool" where
  "owned x U s \<longleftrightarrow> invar (manager s, vmem s) \<and>
     (\<forall>p \<in> U. \<forall>f. translate_page x (tables s) p = Some f \<longrightarrow>
        window_fits hhdm f \<and> window hhdm f \<inter> reserved (manager s) = {} \<and> f \<notin> avail (manager s, vmem s)) \<and>
     (\<forall>p \<in> U. \<forall>q \<in> U. \<forall>f. translate_page x (tables s) p = Some f \<and> translate_page x (tables s) q = Some f \<longrightarrow> p = q)"

lemma ownedD:
  assumes "owned x U s" "p \<in> U" "translate_page x (tables s) p = Some f"
  shows "window_fits hhdm f" "window hhdm f \<inter> reserved (manager s) = {}" "f \<notin> avail (manager s, vmem s)"
  using assms by (auto simp: owned_def)

lemma owned_inj:
  "owned x U s \<Longrightarrow> p \<in> U \<Longrightarrow> q \<in> U \<Longrightarrow> translate_page x (tables s) p = Some f \<Longrightarrow>
   translate_page x (tables s) q = Some f \<Longrightarrow> p = q"
  unfolding owned_def by blast

text \<open>A change of memory outside the reserved bytes keeps the ownership.\<close>

lemma owned_store:
  assumes "owned x U s" "\<And>y. y \<in> reserved (manager s) \<Longrightarrow> m y = vmem s y"
  shows "owned x U (s\<lparr>vmem := m\<rparr>)"
  using assms store_effect [of "manager s" "vmem s" m] by (simp add: owned_def)

text \<open>Storing into the frame of one page changes the image there and nowhere else.\<close>

lemma store_in_page:
  assumes ok: "owned x U s" and p: "p \<in> U" "translate_page x (tables s) p = Some f" "4096 dvd unat p"
    and bs: "d + length bs \<le> 4096"
  defines "s' \<equiv> s\<lparr>vmem := store_bytes (vmem s) (f + hhdm + of_nat d) bs\<rparr>"
  shows "owned x U s' \<and> user_image x hhdm U s' = image_store (p + of_nat d) bs (user_image x hhdm U s)"
proof
  note o = ownedD [OF ok p(1,2)]
  have inside: "y \<in> window hhdm f" if "in_range (f + hhdm + of_nat d) (length bs) y" for y
    using in_range_sub [OF that bs] by (simp add: window_def)
  show "owned x U s'"
    unfolding s'_def using o(2) inside by (intro owned_store [OF ok] store_bytes_out) blast
  show "user_image x hhdm U s' = image_store (p + of_nat d) bs (user_image x hhdm U s)"
  proof
    fix a :: u64
    define i where "i = unat a mod 4096"
    have i: "i < 4096" by (simp add: i_def)
    have up: "unat a = unat (page_of a) + i" using page_split [of a] by (simp add: i_def)
    show "user_image x hhdm U s' a = image_store (p + of_nat d) bs (user_image x hhdm U s) a"
    proof (cases "page_of a = p")
      case True
      have a: "a = p + of_nat i" using up True by (simp add: word_unat_eq_iff page_of_add(2) [OF p(3) i])
      have off: "a - (p + of_nat d) = of_nat i - of_nat d" by (simp add: a)
      show ?thesis
        using True p by (simp add: user_image_def image_store_def frame_byte_def s'_def store_bytes_def Let_def
            off i_def [symmetric])
    next
      case False
      have "\<not> unat (a - (p + of_nat d)) < length bs"
      proof
        assume l: "unat (a - (p + of_nat d)) < length bs"
        define j where "j = unat (a - (p + of_nat d)) + d"
        have "(of_nat j :: u64) = a - (p + of_nat d) + of_nat d" by (simp add: j_def)
        then have "a = p + of_nat j" by simp
        moreover have "j < 4096" using l bs by (simp add: j_def)
        ultimately show False using False page_of_add(1) [OF p(3)] by simp
      qed
      moreover have "vmem s' (g + hhdm + of_nat i) = vmem s (g + hhdm + of_nat i)"
        if g: "page_of a \<in> U" "translate_page x (tables s) (page_of a) = Some g" for g
      proof -
        have "f \<noteq> g" using owned_inj [OF ok p(1) g(1) p(2)] g(2) False by blast
        then have "g + hhdm + of_nat i \<notin> window hhdm f"
          using windows_disjoint [OF o(1) ownedD(1) [OF ok g]] i by blast
        then have "\<not> in_range (f + hhdm + of_nat d) (length bs) (g + hhdm + of_nat i)" using inside by blast
        then show ?thesis by (simp add: s'_def store_bytes_out)
      qed
      ultimately show ?thesis
        by (cases "translate_page x (tables s) (page_of a)")
          (auto simp: user_image_def image_store_def frame_byte_def i_def s'_def)
    qed
  qed
qed

text \<open>Allocations, by the loader or inside \<open>map_to\<close>, leave the image as it is.\<close>

lemma owned_allocations:
  assumes ok: "owned x U s" and run: "allocate_n allocate n (manager s, vmem s) = (fs, (a, m))"
  shows "owned x U (s\<lparr>manager := a, vmem := m\<rparr>)" "a = manager s"
    "avail (a, m) = avail (manager s, vmem s) - set fs" "set fs \<subseteq> avail (manager s, vmem s)"
    "page_of b \<in> U \<Longrightarrow> translate_page x (tables s) (page_of b) = Some f \<Longrightarrow>
     m (f + hhdm + of_nat (unat b mod 4096)) = vmem s (f + hhdm + of_nat (unat b mod 4096))"
proof -
  have inv: "invar (manager s, vmem s)" using ok by (simp add: owned_def)
  note eff = allocate_n_effect [OF inv run]
  show "a = manager s" "avail (a, m) = avail (manager s, vmem s) - set fs" "set fs \<subseteq> avail (manager s, vmem s)"
    using eff by auto
  then show "owned x U (s\<lparr>manager := a, vmem := m\<rparr>)"
    using ok eff unfolding owned_def by (auto simp del: split_paired_All)
  assume f: "page_of b \<in> U" "translate_page x (tables s) (page_of b) = Some f"
  have "f + hhdm + of_nat (unat b mod 4096) \<notin> reserved (manager s)"
    using ownedD(2) [OF ok f] window_member [of "unat b mod 4096" f hhdm] by fastforce
  then show "m (f + hhdm + of_nat (unat b mod 4096)) = vmem s (f + hhdm + of_nat (unat b mod 4096))"
    using eff by simp
qed

lemma owned_map:
  assumes "owned x U s" "translate_page x pt = (translate_page x (tables s))(page \<mapsto> f)"
    "window_fits hhdm f" "window hhdm f \<inter> reserved (manager s) = {}" "f \<notin> avail (manager s, vmem s)"
    "\<And>q. q \<in> U \<Longrightarrow> translate_page x (tables s) q \<noteq> Some f"
  shows "owned x U (s\<lparr>tables := pt\<rparr>)"
  using assms unfolding owned_def by auto

lemma alloc_frame_run:
  "alloc_frame allocate s = (Some f, s') \<Longrightarrow>
   \<exists>a m. allocate_n allocate 1 (manager s, vmem s) = ([f], (a, m)) \<and> s' = s\<lparr>manager := a, vmem := m\<rparr>"
  by (auto simp: alloc_frame_def Let_def split: prod.splits)

text \<open>A frame taken and mapped at a new page: the ownership stays, and so do the bytes of other pages.\<close>

lemma alloc_map_effect:
  assumes x: "x86_64_ok x" and ok: "owned x U s" and p: "page \<in> U" "translate_page x (tables s) page = None"
    and f: "alloc_frame allocate s = (Some f, s1)" "map_frame x allocate page f flags s1 = Some s2"
  shows "owned x U s2" "translate_page x (tables s2) page = Some f"
    "flags_of x (tables s2) = (flags_of x (tables s))(page := flags)"
    "dom (translate_page x (tables s2)) = insert page (dom (translate_page x (tables s)))"
    "\<And>b. page_of b \<noteq> page \<Longrightarrow> user_image x hhdm U s2 b = user_image x hhdm U s b"
proof -
  obtain a1 m1 where s1: "allocate_n allocate 1 (manager s, vmem s) = ([f], (a1, m1))" "s1 = s\<lparr>manager := a1, vmem := m1\<rparr>"
    using alloc_frame_run [OF f(1)] by auto
  note al1 = owned_allocations [OF ok s1(1)]
  have ok1: "owned x U s1" using al1(1) s1(2) by simp
  obtain pt2 a2 m2 n fs where s2: "s2 = s1\<lparr>tables := pt2, manager := a2, vmem := m2\<rparr>"
    "translate_page x pt2 = (translate_page x (tables s1))(page \<mapsto> f)" "flags_of x pt2 = (flags_of x (tables s1))(page := flags)"
    "allocate_n allocate n (manager s1, vmem s1) = (fs, (a2, m2))"
  proof -
    obtain pt2 a2 m2 where m: "map_to x page f flags allocate (tables s1) (manager s1, vmem s1) = Some (pt2, (a2, m2))"
      "s2 = s1\<lparr>tables := pt2, manager := a2, vmem := m2\<rparr>"
      using f(2) by (auto simp: map_frame_def split: option.splits prod.splits)
    then show thesis using x that unfolding x86_64_ok_def by metis
  qed
  note al2 = owned_allocations [OF ok1 s2(4)]
  have fav: "f \<in> avail (manager s, vmem s)" using al1(4) by simp
  have inv: "invar (manager s, vmem s)" using ok by (simp add: owned_def)
  have win: "window_fits hhdm f" "window hhdm f \<inter> reserved (manager s) = {}" using avail_window [OF inv fav] by auto
  have fresh: "f \<noteq> g" if "q \<in> U" "translate_page x (tables s) q = Some g" for q g
    using ownedD(3) [OF ok that] fav by blast
  have av2: "f \<notin> avail (a2, m2)" using al2(3) al1(3) s1(2) by auto
  have "owned x U (s1\<lparr>manager := a2, vmem := m2, tables := pt2\<rparr>)"
    using fresh win av2 al1(2) al2(2) s1(2) s2(2) by (intro owned_map [OF al2(1)]) auto
  then show "owned x U s2" by (simp add: owned_def s2(1))
  show "translate_page x (tables s2) page = Some f" "flags_of x (tables s2) = (flags_of x (tables s))(page := flags)"
    "dom (translate_page x (tables s2)) = insert page (dom (translate_page x (tables s)))"
    using s1(2) by (auto simp: s2)
  show "user_image x hhdm U s2 b = user_image x hhdm U s b" if "page_of b \<noteq> page" for b
    using that al1(5) [of b] al2(5) [of b] s1(2)
    by (cases "translate_page x (tables s) (page_of b)") (auto simp: user_image_def frame_byte_def s2)
qed

text \<open>Mapping a new page adds it, zeroed, to the image; the ownership and the other pages' flags stay.\<close>

lemma map_new_page_effect:
  assumes x: "x86_64_ok x" and ok: "owned x U s" and p: "page \<in> U" "translate_page x (tables s) page = None" "4096 dvd unat page"
    and run: "map_new_page x allocate hhdm m1 m2 flags page s = Inr s'"
  shows "owned x U s' \<and> user_image x hhdm U s' = image_map page (user_image x hhdm U s) \<and>
    flags_of x (tables s') = (flags_of x (tables s))(page := flags) \<and>
    dom (translate_page x (tables s')) = insert page (dom (translate_page x (tables s)))"
proof -
  obtain f s1 s2 where f: "alloc_frame allocate s = (Some f, s1)" "map_frame x allocate page f flags s1 = Some s2"
    "s' = zero_frame hhdm f s2"
    using run by (auto simp: map_new_page_def Let_def and_then_Inr expect_Inr split: prod.splits)
  note e = alloc_map_effect [OF x ok p(1,2) f(1,2)]
  have z: "s' = s2\<lparr>vmem := store_bytes (vmem s2) (f + hhdm + of_nat 0) (replicate 4096 0)\<rparr>"
    by (simp add: f(3) zero_frame_def write_bytes_def)
  have st: "owned x U s' \<and> user_image x hhdm U s' = image_store (page + of_nat 0) (replicate 4096 0) (user_image x hhdm U s2)"
    unfolding z using store_in_page [OF e(1) p(1) e(2) p(3), of 0 "replicate 4096 0"] by simp
  have "image_store page (replicate 4096 0) (user_image x hhdm U s2) b = image_map page (user_image x hhdm U s) b" for b
    using in_page_iff [OF p(3), of b] e(5) [of b] p
    by (cases "page_of b = page") (simp_all add: image_store_def image_map_def user_image_def)
  then show ?thesis using st e(3,4) by (auto simp: z fun_eq_iff)
qed

lemma map_if_needed_effect:
  assumes x: "x86_64_ok x" and ok: "owned x U s" and p: "page \<in> U" "4096 dvd unat page"
    and run: "map_if_needed x allocate hhdm m1 m2 flags page s = Inr s'"
  shows "owned x U s' \<and> user_image x hhdm U s' = image_map page (user_image x hhdm U s) \<and>
    flags_of x (tables s') =
      (if page \<in> dom (translate_page x (tables s)) then flags_of x (tables s) else (flags_of x (tables s))(page := flags)) \<and>
    dom (translate_page x (tables s')) = insert page (dom (translate_page x (tables s)))"
proof (cases "translate_page x (tables s) page")
  case None
  then show ?thesis
    using map_new_page_effect [OF x ok p(1) None p(2), of m1 m2 flags s'] run by (simp add: map_if_needed_def dom_def)
next
  case (Some f)
  then have "image_map page (user_image x hhdm U s) = user_image x hhdm U s"
    using p(1) by (auto simp: image_map_def user_image_def fun_eq_iff)
  then show ?thesis using Some run ok by (auto simp: map_if_needed_def)
qed

text \<open>A whole range: its pages are mapped, the new ones zeroed and with the given flags.\<close>

lemma map_range_effect:
  assumes x: "x86_64_ok x" and ok: "owned x U s" and p: "\<forall>page \<in> set pages. page \<in> U \<and> 4096 dvd unat page"
    and run: "for_each (map_if_needed x allocate hhdm m1 m2 flags) pages s = Inr s'"
  shows "owned x U s' \<and> user_image x hhdm U s' = fold image_map pages (user_image x hhdm U s) \<and>
    dom (translate_page x (tables s')) = set pages \<union> dom (translate_page x (tables s)) \<and>
    flags_of x (tables s') = (\<lambda>q. if q \<in> set pages - dom (translate_page x (tables s)) then flags else flags_of x (tables s) q)"
  using ok p run
proof (induction pages arbitrary: s)
  case Nil
  then show ?case by simp
next
  case (Cons q qs)
  obtain s1 where s1: "map_if_needed x allocate hhdm m1 m2 flags q s = Inr s1"
    "for_each (map_if_needed x allocate hhdm m1 m2 flags) qs s1 = Inr s'"
    using Cons.prems(3) by (auto simp: and_then_Inr)
  have "q \<in> U" "4096 dvd unat q" and qs: "\<forall>page \<in> set qs. page \<in> U \<and> 4096 dvd unat page" using Cons.prems(2) by auto
  note e1 = map_if_needed_effect [OF x Cons.prems(1) this(1,2) s1(1)]
  note e2 = Cons.IH [OF conjunct1 [OF e1] qs s1(2)]
  define D where "D = dom (translate_page x (tables s))"
  have d1: "dom (translate_page x (tables s1)) = insert q D" using e1 by (simp add: D_def)
  have f1: "flags_of x (tables s1) = (if q \<in> D then flags_of x (tables s) else (flags_of x (tables s))(q := flags))"
    using e1 by (simp add: D_def)
  have f2: "flags_of x (tables s') = (\<lambda>r. if r \<in> set qs - insert q D then flags else flags_of x (tables s1) r)"
    using e2 unfolding d1 by blast
  have "flags_of x (tables s') = (\<lambda>r. if r \<in> set (q # qs) - D then flags else flags_of x (tables s) r)"
    unfolding f2 f1 by (intro ext) (cases "q \<in> D"; auto)
  moreover have "dom (translate_page x (tables s')) = set (q # qs) \<union> D" using e2 unfolding d1 by auto
  moreover have "owned x U s'" using e2 by blast
  moreover have "user_image x hhdm U s' = fold image_map (q # qs) (user_image x hhdm U s)"
    using conjunct1 [OF conjunct2 [OF e1]] conjunct1 [OF conjunct2 [OF e2]] by simp
  ultimately show ?case unfolding D_def by blast
qed

lemma card_allocate:
  assumes "invar s" "avail s \<noteq> {}"
  obtains f s' where "allocate s = (Some f, s')" "invar s'" "card (avail s) = Suc (card (avail s'))"
  using assms(1)
proof (cases rule: allocate_cases)
  case (Some f s')
  have "card (avail s) = Suc (card (avail s'))"
    unfolding Some(3) by (rule card.remove [OF finite_avail [OF assms(1)] Some(2)])
  then show thesis using that Some(1,4) by blast
qed (use assms(2) in simp)

text \<open>With four frames at hand, one page more can be mapped.\<close>

lemma alloc_map_progress:
  assumes x: "x86_64_ok x" "map_to_progress x allocate avail U" and ok: "owned x U s"
    and p: "page \<in> U" "translate_page x (tables s) page = None" and frames: "4 \<le> card (avail (manager s, vmem s))"
  obtains f s1 s2 where "alloc_frame allocate s = (Some f, s1)" "map_frame x allocate page f flags s1 = Some s2"
    "card (avail (manager s, vmem s)) \<le> card (avail (manager s2, vmem s2)) + 4"
    "\<And>m. (\<And>y. y \<notin> window hhdm f \<Longrightarrow> m y = vmem s2 y) \<Longrightarrow> avail (manager s2, m) = avail (manager s2, vmem s2)"
proof -
  have inv: "invar (manager s, vmem s)" using ok by (simp add: owned_def)
  have "avail (manager s, vmem s) \<noteq> {}" using frames by (metis card.empty not_numeral_le_zero)
  then obtain f a m where al: "allocate (manager s, vmem s) = (Some f, (a, m))" "invar (a, m)"
    "card (avail (manager s, vmem s)) = Suc (card (avail (a, m)))"
    using card_allocate [OF inv] by (metis surj_pair)
  moreover have "3 \<le> card (avail (a, m))" using al(3) frames by linarith
  ultimately obtain pt' s' where mp': "map_to x page f flags allocate (tables s) (a, m) = Some (pt', s')"
    "card (avail (a, m)) \<le> card (avail s') + 3"
    using x(2) p unfolding map_to_progress_def by blast
  obtain a' m' where s': "s' = (a', m')" by (cases s')
  note mp = mp' [unfolded s']
  obtain n fs where run: "allocate_n allocate n (a, m) = (fs, (a', m'))"
    using x(1) mp(1) unfolding x86_64_ok_def by blast
  have inv': "invar (a', m')" "a' = a" using allocate_n_effect [OF al(2) run] by auto
  have "a = manager s" "f \<in> avail (manager s, vmem s)"
    using allocate_effect [OF inv al(1)] allocate_Some [OF inv al(1)] by auto
  then have "window hhdm f \<inter> reserved a' = {}" using avail_window [OF inv] inv'(2) by auto
  then have keep: "avail (a', m'') = avail (a', m')" if "\<And>y. y \<notin> window hhdm f \<Longrightarrow> m'' y = m' y" for m''
    using that by (intro conjunct2 [OF store_effect [OF inv'(1)]]) blast
  show thesis
  proof (rule that [of f "s\<lparr>manager := a, vmem := m\<rparr>" "s\<lparr>tables := pt', manager := a', vmem := m'\<rparr>"])
    show "alloc_frame allocate s = (Some f, s\<lparr>manager := a, vmem := m\<rparr>)" using al(1) by (simp add: alloc_frame_def)
    show "map_frame x allocate page f flags (s\<lparr>manager := a, vmem := m\<rparr>) = Some (s\<lparr>tables := pt', manager := a', vmem := m'\<rparr>)"
      using mp(1) by (simp add: map_frame_def)
    show "card (avail (manager s, vmem s)) \<le>
        card (avail (manager (s\<lparr>tables := pt', manager := a', vmem := m'\<rparr>), vmem (s\<lparr>tables := pt', manager := a', vmem := m'\<rparr>))) + 4"
      using al(3) mp(2) by simp
  qed (simp, rule keep, simp)
qed

lemma map_if_needed_progress:
  assumes x: "x86_64_ok x" "map_to_progress x allocate avail U" and ok: "owned x U s" and p: "page \<in> U" "4096 dvd unat page"
    and frames: "4 \<le> card (avail (manager s, vmem s))"
  obtains s' where "map_if_needed x allocate hhdm m1 m2 flags page s = Inr s'"
    "card (avail (manager s, vmem s)) \<le> card (avail (manager s', vmem s')) + 4"
proof (cases "translate_page x (tables s) page")
  case (Some f)
  then show thesis using that by (simp add: map_if_needed_def)
next
  case None
  obtain f s1 s2 where f: "alloc_frame allocate s = (Some f, s1)" "map_frame x allocate page f flags s1 = Some s2"
    "card (avail (manager s, vmem s)) \<le> card (avail (manager s2, vmem s2)) + 4"
    "\<And>m. (\<And>y. y \<notin> window hhdm f \<Longrightarrow> m y = vmem s2 y) \<Longrightarrow> avail (manager s2, m) = avail (manager s2, vmem s2)"
    using alloc_map_progress [OF x ok p(1) None frames, of flags] by blast
  have "avail (manager s2, write_bytes (vmem s2) (f + hhdm) 0 4096) = avail (manager s2, vmem s2)"
    by (rule f(4)) (simp add: write_bytes_out window_def)
  moreover have "map_if_needed x allocate hhdm m1 m2 flags page s = Inr (zero_frame hhdm f s2)"
    using f(1,2) None by (simp add: map_if_needed_def map_new_page_def)
  ultimately show thesis using that f(3) by (simp add: zero_frame_def)
qed

lemma map_range_progress:
  assumes x: "x86_64_ok x" "map_to_progress x allocate avail U" and ok: "owned x U s"
    and p: "\<forall>page \<in> set pages. page \<in> U \<and> 4096 dvd unat page"
    and frames: "4 * length pages \<le> card (avail (manager s, vmem s))"
  shows "\<exists>s'. for_each (map_if_needed x allocate hhdm m1 m2 flags) pages s = Inr s' \<and>
    card (avail (manager s, vmem s)) \<le> card (avail (manager s', vmem s')) + 4 * length pages"
  using ok p frames
proof (induction pages arbitrary: s)
  case Nil
  then show ?case by simp
next
  case (Cons q qs)
  have q: "q \<in> U" "4096 dvd unat q" and four: "4 \<le> card (avail (manager s, vmem s))" using Cons.prems by auto
  obtain s1 where s1: "map_if_needed x allocate hhdm m1 m2 flags q s = Inr s1"
    "card (avail (manager s, vmem s)) \<le> card (avail (manager s1, vmem s1)) + 4"
    using map_if_needed_progress [OF x Cons.prems(1) q four] by blast
  have "owned x U s1" using map_if_needed_effect [OF x(1) Cons.prems(1) q s1(1)] by blast
  then obtain s' where "for_each (map_if_needed x allocate hhdm m1 m2 flags) qs s1 = Inr s'"
    "card (avail (manager s1, vmem s1)) \<le> card (avail (manager s', vmem s')) + 4 * length qs"
    using Cons.IH [of s1] Cons.prems(2,3) s1(2) by auto
  then show ?case using s1 by auto
qed

end

end
