(* ===== verification/Pmm_Window.thy ===== *)
theory Pmm_Window
  imports Pmm Address_Space
begin

text \<open>
  The physical memory manager as an allocator behind the higher-half window: its bitmap is the only
  memory it reads and writes, and no free frame overlaps the bitmap. This is the interface the ELF
  loader, the user stack and the kernel heap rely on.
\<close>

definition pmm_reserved :: "BitmapPmm \<Rightarrow> u64 set" where
  "pmm_reserved p = {x. in_range (bitmap p) (8 * bitmap_size_u64 p) x}"

definition pmm_window_inv :: "u64 \<Rightarrow> BitmapPmm \<times> memory \<Rightarrow> bool" where
  "pmm_window_inv h s \<longleftrightarrow> pmm_state_inv s \<and> unat h + total_frames (fst s) * 4096 \<le> 2 ^ 64 \<and>
     (\<forall>f \<in> free_frames (fst s) (snd s). apart (frame_addr f + h) 4096 (bitmap (fst s)) (8 * bitmap_size_u64 (fst s)))"

text \<open>Whether a frame is used depends on the reserved bytes alone.\<close>

lemma is_used_cong:
  assumes "pmm_wf p" "g < 64 * bitmap_size_u64 p" "\<forall>x \<in> pmm_reserved p. m' x = m x"
  shows "is_used p m' g = is_used p m g"
proof -
  have g: "g div 64 < bitmap_size_u64 p" using assms(2) by (rule div64_less)
  have "m' (word_ptr p (g div 64) + of_nat i) = m (word_ptr p (g div 64) + of_nat i)" if "i < 8" for i
    using word_ptr_in_bitmap [OF assms(1) g] in_range_self [of i 8 "word_ptr p (g div 64)"] that assms(3)
    by (simp add: pmm_reserved_def)
  then have "load_bytes m' (word_ptr p (g div 64)) 8 = load_bytes m (word_ptr p (g div 64)) 8"
    by (rule load_bytes_cong)
  then show ?thesis by (simp add: is_used_def load64_def)
qed

lemma pmm_store_effect:
  assumes "pmm_window_inv h (p, m)" "\<forall>x \<in> pmm_reserved p. m' x = m x"
  shows "pmm_window_inv h (p, m') \<and> pmm_avail (p, m') = pmm_avail (p, m)"
proof -
  have wf: "pmm_wf p" using assms(1) by (simp add: pmm_window_inv_def pmm_state_inv_def pmm_inv_def)
  have "free_frames p m' = free_frames p m"
    using is_used_cong [OF wf _ assms(2)] total_le_bits [OF wf] by (auto simp: free_frames_def)
  then show ?thesis
    using assms(1) is_used_cong [OF wf _ assms(2)]
    by (simp add: pmm_window_inv_def pmm_state_inv_def pmm_inv_def pmm_avail_def)
qed

lemma pmm_free_window:
  assumes "pmm_window_inv h s" "f \<in> pmm_avail s"
  shows "window_fits h f \<and> window h f \<inter> pmm_reserved (fst s) = {}"
proof -
  obtain g where g: "f = frame_addr g" "g \<in> free_frames (fst s) (snd s)" using assms(2) by (auto simp: pmm_avail_def)
  have "g < total_frames (fst s)" "pmm_inv (fst s) (snd s)" "unat h + total_frames (fst s) * 4096 \<le> 2 ^ 64"
    using g(2) assms(1) by (auto simp: free_frames_def pmm_window_inv_def pmm_state_inv_def)
  moreover from this have "unat f = g * 4096"
    using g(1) by (simp add: unat_frame_addr pmm_inv_def pmm_wf_def)
  ultimately have fits: "window_fits h f" using mult_le_mono1 [of "Suc g" "total_frames (fst s)" 4096] by (simp add: window_fits_def)
  have ap: "apart (f + h) 4096 (bitmap (fst s)) (8 * bitmap_size_u64 (fst s))"
    using assms(1) g by (simp add: pmm_window_inv_def)
  have "\<not> in_range (f + h) 4096 x" if "x \<in> pmm_reserved (fst s)" for x
    using that ap by (auto simp: pmm_reserved_def apart_def in_range_iff)
  then show ?thesis using fits by (auto simp: window_def)
qed

lemma pmm_allocate_window:
  assumes "pmm_window_inv h s" "allocate_frame s = (r, s')"
  shows "pmm_window_inv h s'" "fst s' = fst s" "x \<notin> pmm_reserved (fst s) \<Longrightarrow> snd s' x = snd s x"
proof -
  obtain p m where s: "s = (p, m)" by (cases s)
  have inv: "pmm_inv p m" using assms(1) by (simp add: s pmm_window_inv_def pmm_state_inv_def)
  then have wf: "pmm_wf p" by (simp add: pmm_inv_def)
  let ?f = "Min (free_frames p m)"
  have s': "s' = (if free_frames p m = {} then (p, m) else (p, mark_used p ?f m))"
    using allocate_frame_effect [OF inv] assms(2) by (auto simp: s split: if_splits)
  then show "fst s' = fst s" by (simp add: s)
  show "pmm_window_inv h s'"
  proof (cases "free_frames p m = {}")
    case False
    then have lt: "?f < total_frames p" using Min_in [of "free_frames p m"] by (simp add: free_frames_def)
    show ?thesis
      using assms(1) False s' pmm_inv_mark_used [OF inv lt] free_frames_mark_used [OF wf lt, of m]
      by (simp add: s pmm_window_inv_def pmm_state_inv_def)
  qed (use s' assms(1) s in simp)
  show "snd s' x = snd s x" if "x \<notin> pmm_reserved (fst s)"
  proof (cases "free_frames p m = {}")
    case False
    then have "?f < total_frames p" using Min_in [of "free_frames p m"] by (simp add: free_frames_def)
    then have "?f < 64 * bitmap_size_u64 p" using total_le_bits [OF wf] by linarith
    then show ?thesis
      using only_bitmap_mark(1) [OF wf, of ?f m] that False s' by (simp add: s only_bitmap_def pmm_reserved_def)
  qed (use s' s in simp)
qed

interpretation pmmw: window_allocator allocate_frame pmm_avail "pmm_window_inv h" h pmm_reserved
  for h :: u64
proof
  fix s s' :: "BitmapPmm \<times> memory" and f x :: u64 and r a m m'
  assume inv: "pmm_window_inv h s"
  then have st: "pmm_state_inv s" by (simp add: pmm_window_inv_def)
  show "finite (pmm_avail s)" using st by (rule pmm.finite_avail)
  show "f \<in> pmm_avail s \<Longrightarrow> 4096 dvd unat f" using st by (rule pmm.avail_aligned)
  show "allocate_frame s = (None, s') \<Longrightarrow> pmm_avail s = {} \<and> s' = s" using st by (rule pmm.allocate_None)
  show "allocate_frame s = (Some f, s') \<Longrightarrow> f \<in> pmm_avail s \<and> pmm_avail s' = pmm_avail s - {f} \<and> pmm_window_inv h s'"
    using pmm.allocate_Some [OF st] pmm_allocate_window(1) [OF inv] by blast
  show "allocate_frame s = (r, s') \<Longrightarrow>
      fst s' = fst s \<and> (\<forall>x. x \<notin> pmm_reserved (fst s) \<longrightarrow> snd s' x = snd s x)"
    using pmm_allocate_window(2,3) [OF inv] by blast
  show "f \<in> pmm_avail s \<Longrightarrow> window_fits h f \<and> window h f \<inter> pmm_reserved (fst s) = {}"
    using inv by (rule pmm_free_window)
next
  fix a m m'
  assume "pmm_window_inv h (a, m)" "\<forall>x \<in> pmm_reserved a. m' x = m x"
  then show "pmm_window_inv h (a, m') \<and> pmm_avail (a, m') = pmm_avail (a, m)" by (rule pmm_store_effect)
qed

text \<open>
  The same with memory \<open>A\<close> set apart, which neither the bitmap nor a free frame touches: an allocator that never
  hands it out, so that whatever the clients write, it holds the bytes it has in the state \<open>s0\<close> at the start.
\<close>

definition pmm_guard_inv :: "u64 \<Rightarrow> u64 set \<Rightarrow> BitmapPmm \<times> memory \<Rightarrow> BitmapPmm \<times> memory \<Rightarrow> bool" where
  "pmm_guard_inv h A s0 s \<longleftrightarrow> pmm_window_inv h s \<and> fst s = fst s0 \<and> A \<inter> pmm_reserved (fst s) = {} \<and>
     (\<forall>f \<in> pmm_avail s. window h f \<inter> A = {}) \<and> (\<forall>y \<in> A. snd s y = snd s0 y)"

definition pmm_guarded :: "u64 set \<Rightarrow> BitmapPmm \<Rightarrow> u64 set" where
  "pmm_guarded A p = pmm_reserved p \<union> A"

interpretation guard: window_allocator allocate_frame pmm_avail "pmm_guard_inv h A s0" h "pmm_guarded A"
  for h :: u64 and A :: "u64 set" and s0 :: "BitmapPmm \<times> memory"
proof
  fix s s' :: "BitmapPmm \<times> memory" and f :: u64 and r
  assume inv: "pmm_guard_inv h A s0 s"
  then have w: "pmm_window_inv h s" and A: "A \<inter> pmm_reserved (fst s) = {}" "\<forall>f \<in> pmm_avail s. window h f \<inter> A = {}" "\<forall>y \<in> A. snd s y = snd s0 y" "fst s = fst s0"
    by (auto simp: pmm_guard_inv_def)
  show "finite (pmm_avail s)" using w by (rule pmmw.finite_avail)
  show "f \<in> pmm_avail s \<Longrightarrow> 4096 dvd unat f" using w by (rule pmmw.avail_aligned)
  show "allocate_frame s = (None, s') \<Longrightarrow> pmm_avail s = {} \<and> s' = s" using w by (rule pmmw.allocate_None)
  show eff: "fst s' = fst s \<and> (\<forall>x. x \<notin> pmm_guarded A (fst s) \<longrightarrow> snd s' x = snd s x)" if "allocate_frame s = (r, s')"
    using pmmw.allocate_effect [OF w that] by (simp add: pmm_guarded_def)
  show "f \<in> pmm_avail s \<and> pmm_avail s' = pmm_avail s - {f} \<and> pmm_guard_inv h A s0 s'" if a: "allocate_frame s = (Some f, s')"
  proof -
    have "fst s' = fst s" "\<forall>y \<in> A. snd s' y = snd s y" using pmmw.allocate_effect [OF w a] A(1) by auto
    then show ?thesis using pmmw.allocate_Some [OF w a] A by (simp add: pmm_guard_inv_def)
  qed
  show "f \<in> pmm_avail s \<Longrightarrow> window_fits h f \<and> window h f \<inter> pmm_guarded A (fst s) = {}"
    using pmmw.avail_window [OF w] A(2) by (auto simp: pmm_guarded_def)
next
  fix a m m' assume inv: "pmm_guard_inv h A s0 (a, m)" and same: "\<forall>x \<in> pmm_guarded A a. m' x = m x"
  have "pmm_window_inv h (a, m') \<and> pmm_avail (a, m') = pmm_avail (a, m)"
    using inv same by (intro pmmw.store_effect) (auto simp: pmm_guard_inv_def pmm_guarded_def)
  then show "pmm_guard_inv h A s0 (a, m') \<and> pmm_avail (a, m') = pmm_avail (a, m)"
    using inv same by (auto simp: pmm_guard_inv_def pmm_guarded_def)
qed

text \<open>All memory but the bitmap and the free frames can be set apart; then the frames in use are those that were free.\<close>

definition pmm_untouched :: "u64 \<Rightarrow> BitmapPmm \<times> memory \<Rightarrow> u64 set" where
  "pmm_untouched h s = {y. y \<notin> pmm_reserved (fst s) \<and> (\<forall>f \<in> pmm_avail s. y \<notin> window h f)}"

lemma pmm_guard_start: "pmm_window_inv h s \<Longrightarrow> pmm_guard_inv h (pmm_untouched h s) s s"
  by (auto simp: pmm_guard_inv_def pmm_untouched_def)

lemma frame_was_free:
  assumes "pmm_window_inv h s" "window_fits h f" "window h f \<inter> pmm_guarded (pmm_untouched h s) (fst s) = {}"
  shows "f \<in> pmm_avail s"
proof -
  have "f + h \<in> window h f" using window_member [of 0 f h] by simp
  then have "f + h \<notin> pmm_guarded (pmm_untouched h s) (fst s)" using assms(3) by blast
  then obtain g where g: "g \<in> pmm_avail s" "f + h \<in> window h g" by (auto simp: pmm_guarded_def pmm_untouched_def)
  have "window_fits h g" using pmmw.avail_window [OF assms(1) g(1)] by blast
  then have "f = g" using windows_disjoint [of h g f 0] assms(2) g(2) by auto
  then show ?thesis using g(1) by simp
qed

text \<open>Initialisation establishes the interface.\<close>

lemma pmm_init_window:
  assumes layout: "pmm_layout a len s h mx m" and fill: "pmm_fill_ok a len s h mx m"
    and init: "init_internal self a len s h mx m = Inr (p, m1)"
  shows "pmm_window_inv h (p, m1)"
proof -
  note eff = init_internal_effect [OF layout fill init] and reg = init_internal_region [OF layout init]
  have win: "unat h + total_frames p * 4096 \<le> 2 ^ 64"
    using layout div_mult_mod_eq [of "unat mx" 4096] init_internal_shape(1) [OF init]
    unfolding pmm_layout_def by linarith
  have "apart (frame_addr f + h) 4096 (bitmap p) (8 * bitmap_size_u64 p)" if "f \<in> free_frames p m1" for f
  proof (rule frame_apart_bitmap [OF reg(1,6,3) _ _ win])
    show "f < total_frames p" using that by (simp add: free_frames_def)
    show "f \<notin> bitmap_frames p" using that unfolding eff(2) by blast
  qed
  then show ?thesis using eff(1) win by (simp add: pmm_window_inv_def pmm_state_inv_def)
qed

section \<open>An example\<close>

text \<open>Page tables as a map, and a memory of 32 MiB with every frame free.\<close>

definition ex_map_to ::
  "u64 \<Rightarrow> u64 \<Rightarrow> page_flags \<Rightarrow> 'a allocator \<Rightarrow> (u64 \<rightharpoonup> u64 \<times> page_flags) \<Rightarrow> 'a \<times> memory \<Rightarrow>
   ((u64 \<rightharpoonup> u64 \<times> page_flags) \<times> ('a \<times> memory)) option" where
  "ex_map_to page frame flags allocate pt s = (if pt page = None then Some (pt(page \<mapsto> (frame, flags)), s) else None)"

definition ex_x86 :: "(u64 \<rightharpoonup> u64 \<times> page_flags, 'a) x86_64" where
  "ex_x86 = \<lparr>virt_addr_new = Some, containing_address = page_of, range_inclusive = pages_between,
     translate_page = (\<lambda>pt page. map_option fst (pt page)), map_to = ex_map_to,
     flags_of = (\<lambda>pt page. case pt page of Some (f, flags) \<Rightarrow> flags | None \<Rightarrow> {})\<rparr>"

definition ex_vm :: "(u64 \<rightharpoonup> u64 \<times> page_flags, BitmapPmm) vm" where
  "ex_vm = \<lparr>tables = Map.empty,
     manager = \<lparr>bitmap = 0xFFFFC00000000000, total_frames = 8192, bitmap_size_u64 = 128, bitmap_start_addr = 0xFFFFC00000000000\<rparr>,
     vmem = (\<lambda>_. 0)\<rparr>"

lemma ex_x86_ok: "x86_64_ok ex_x86"
  unfolding x86_64_ok_def
proof (intro conjI allI impI)
  fix page frame flags allocate pt s pt' s'
  assume "map_to ex_x86 page frame flags allocate pt s = Some (pt', s')"
  then have e: "pt' = pt(page \<mapsto> (frame, flags))" "s' = s" by (auto simp: ex_x86_def ex_map_to_def split: if_splits)
  show "translate_page ex_x86 pt' = (translate_page ex_x86 pt)(page \<mapsto> frame)"
    "flags_of ex_x86 pt' = (flags_of ex_x86 pt)(page := flags)" by (auto simp: ex_x86_def e fun_eq_iff)
  show "\<exists>n fs. allocate_n allocate n s = (fs, s')" by (intro exI [of _ 0]) (simp add: e)
qed (simp_all add: ex_x86_def)

lemma ex_progress: "map_to_progress ex_x86 allocate avail U"
  by (simp add: map_to_progress_def ex_x86_def ex_map_to_def)

lemma ex_vm_pmm:
  "pmm_window_inv 0xFFFF800000000000 (manager ex_vm, vmem ex_vm)" "card (pmm_avail (manager ex_vm, vmem ex_vm)) = 8192"
proof -
  let ?p = "manager ex_vm" and ?m = "vmem ex_vm"
  have "load64 (\<lambda>_. 0) a = 0" for a
    by (rule bit_word_eqI) (simp add: load64_def bit_le_word)
  then have free: "free_frames ?p ?m = {..<8192}" by (auto simp: free_frames_def is_used_def ex_vm_def)
  have inv: "pmm_inv ?p ?m" by (auto simp: pmm_inv_def pmm_wf_def ex_vm_def div_ceil_def)
  have "apart (frame_addr f + 0xFFFF800000000000) 4096 0xFFFFC00000000000 1024" if "f < 8192" for f
  proof -
    have "unat (frame_addr f) = f * 4096" using that by (simp add: unat_frame_addr)
    moreover from this have "unat (frame_addr f + 0xFFFF800000000000) = f * 4096 + 0xFFFF800000000000"
      using that by (subst unat_add_small) auto
    ultimately show ?thesis using that by (simp add: apart_def)
  qed
  then show "pmm_window_inv 0xFFFF800000000000 (?p, ?m)"
    using inv free by (simp add: pmm_window_inv_def pmm_state_inv_def) (simp add: ex_vm_def)
  show "card (pmm_avail (?p, ?m)) = 8192"
    using card_image [OF inj_on_subset [OF inj_frame_addr free_frames_small [OF inv]]] free by (simp add: pmm_avail_def)
qed

end
