(* ===== verification/Elf_Loader.thy ===== *)
theory Elf_Loader
  imports Pmm_Window
begin

text \<open>
  The user ELF loader, \<open>kernel/src/elf_loader.rs\<close>: loading the segments of an executable, mapping
  the pools for \<open>mmap\<close> and \<open>brk\<close>, and the two relocation passes. A parsed ELF file is the
  record of what the accessors of the \<open>xmas_elf\<close> crate return for it; the parser is a parameter.
  The loader is generic in the frame allocator, as in the source; the theorems use it with the
  physical memory manager. Log messages are left out.
\<close>

section \<open>ELF files\<close>

datatype program_type = Load | Dynamic | Other_Type

text \<open>\<open>ph_type\<close> is \<open>None\<close> when \<open>get_type()\<close> is an error.\<close>

record ProgramHeader =
  ph_type :: "program_type option"
  virtual_addr :: u64
  mem_size :: u64
  file_size :: u64
  ph_file_offset :: u64
  ph_is_write :: bool
  ph_is_execute :: bool

record Rela =
  r_type :: u32
  r_offset :: u64
  r_addend :: u64

text \<open>\<open>rela_sections\<close> holds, for every section, its entries if its data is \<open>Rela64\<close>.\<close>

record ElfFile =
  elf_magic :: "u8 list"
  is_shared_object :: bool
  entry_point :: u64
  ph_offset :: u64
  ph_count :: u16
  ph_entry_size :: u16
  program_iter :: "ProgramHeader list"
  rela_sections :: "Rela list option list"
  elf_input :: "u8 list"

definition USER_BASE_ADDR :: u64 where "USER_BASE_ADDR = 0x400000"
definition USER_STACK_BOTTOM :: u64 where "USER_STACK_BOTTOM = 0x7FFFFFFF0000"
definition USER_STACK_SIZE :: u64 where "USER_STACK_SIZE = 16 * 4096"

section \<open>Loading a segment\<close>

definition segment_flags :: "ProgramHeader \<Rightarrow> page_flags" where
  "segment_flags ph =
     (let page_flags = {PRESENT, USER_ACCESSIBLE};
          page_flags = (if ph_is_write ph then page_flags \<union> {WRITABLE} else page_flags)
      in if \<not> ph_is_execute ph then page_flags \<union> {NO_EXECUTE} else page_flags)"

lemma page_offset_less: "unat ((a :: u64) mod 4096) < 4096"
  by (simp add: unat_mod)

text \<open>The copy loop: \<open>rest\<close> is \<open>file_data[copied..]\<close>. Each round copies up to the end of the
  page, so the loop ends.\<close>

function (sequential) copy_to_pages ::
  "('pt, 'a) x86_64 \<Rightarrow> u64 \<Rightarrow> u64 \<Rightarrow> u8 list \<Rightarrow> ('pt, 'a) vm \<Rightarrow> panic + ('pt, 'a) vm" where
  "copy_to_pages x hhdm current_vaddr [] s = Inr s"
| "copy_to_pages x hhdm current_vaddr (b # bs) s =
     (let rest = b # bs
      in and_then (page_at x current_vaddr) (\<lambda>page.
         let page_offset = current_vaddr mod 4096;
             bytes_in_page = min (4096 - unat page_offset) (length rest)
         in and_then (expect ''Page should be mapped'' (translate_page x (tables s) page)) (\<lambda>frame.
              copy_to_pages x hhdm (current_vaddr + of_nat bytes_in_page) (drop bytes_in_page rest)
                (s\<lparr>vmem := store_bytes (vmem s) (frame + hhdm + page_offset) (take bytes_in_page rest)\<rparr>))))"
  by pat_completeness auto

termination copy_to_pages
  by (relation "measure (\<lambda>(x, hhdm, a, rest, s). length rest)") (use page_offset_less in \<open>auto simp: Let_def\<close>)

definition load_segment ::
  "('pt, 'a) x86_64 \<Rightarrow> 'a allocator \<Rightarrow> u64 \<Rightarrow> ElfFile \<Rightarrow> ProgramHeader \<Rightarrow> u64 \<Rightarrow> ('pt, 'a) vm \<Rightarrow> panic + ('pt, 'a) vm" where
  "load_segment x allocate hhdm elf ph base_addr s =
     (let segment_vaddr = base_addr + virtual_addr ph;
          segment_memsz = mem_size ph;
          segment_filesz = file_size ph;
          segment_offset = unat (ph_file_offset ph)
      in if segment_memsz = 0 then Inr s
         else
           and_then (page_at x segment_vaddr) (\<lambda>start_page.
           let end_addr = segment_vaddr + segment_memsz
           in and_then (page_at x (if end_addr = 0 then 0 else end_addr - 1)) (\<lambda>end_page.
              and_then (for_each
                  (map_if_needed x allocate hhdm ''Failed to allocate frame for ELF segment''
                     ''Failed to map ELF segment page'' (segment_flags ph))
                  (range_inclusive x start_page end_page) s) (\<lambda>s.
              if segment_filesz > 0
              then let data_end = usize_add segment_offset (unat segment_filesz)
                   in if segment_offset \<le> data_end \<and> data_end \<le> length (elf_input elf)
                      then copy_to_pages x hhdm segment_vaddr
                             (take (data_end - segment_offset) (drop segment_offset (elf_input elf))) s
                      else Inl (Panic ''slice index out of range'')
              else Inr s))))"

section \<open>Loading the executable\<close>

definition MMAP_POOL_START :: u64 where "MMAP_POOL_START = 0x480000"
definition MMAP_POOL_END :: u64 where "MMAP_POOL_END = 0x500000"
definition HEAP_START :: u64 where "HEAP_START = 0x8000000"
definition HEAP_END :: u64 where "HEAP_END = 0x8100000"

definition pool_flags :: page_flags where
  "pool_flags = {PRESENT, USER_ACCESSIBLE, WRITABLE, NO_EXECUTE}"

definition map_pool ::
  "('pt, 'a) x86_64 \<Rightarrow> 'a allocator \<Rightarrow> u64 \<Rightarrow> string \<Rightarrow> string \<Rightarrow> u64 \<Rightarrow> u64 \<Rightarrow> ('pt, 'a) vm \<Rightarrow> panic + ('pt, 'a) vm" where
  "map_pool x allocate hhdm alloc_msg map_msg pool_start pool_end s =
     and_then (page_at x pool_start) (\<lambda>start_page.
     and_then (page_at x (pool_end - 1)) (\<lambda>end_page.
       for_each (map_if_needed x allocate hhdm alloc_msg map_msg pool_flags) (range_inclusive x start_page end_page) s))"

definition load_user_elf ::
  "(u8 list \<Rightarrow> ElfFile option) \<Rightarrow> ('pt, 'a) x86_64 \<Rightarrow> 'a allocator \<Rightarrow> u64 \<Rightarrow> u8 list \<Rightarrow> ('pt, 'a) vm \<Rightarrow>
   panic + (u64 \<times> ('pt, 'a) vm)" where
  "load_user_elf elf_file_new x allocate hhdm USER_ELF_BYTES s =
     and_then (expect ''Failed to parse ELF file'' (elf_file_new USER_ELF_BYTES)) (\<lambda>elf.
     if elf_magic elf \<noteq> [0x7F, 0x45, 0x4C, 0x46] then Inl (Panic ''Invalid ELF magic'')
     else
       let base_addr = (if is_shared_object elf then USER_BASE_ADDR else 0)
       in and_then (for_each
            (\<lambda>program_header s.
               if ph_type program_header = Some Load
               then load_segment x allocate hhdm elf program_header base_addr s else Inr s)
            (program_iter elf) s) (\<lambda>s.
          and_then (map_pool x allocate hhdm ''Failed to allocate frame for mmap pool'' ''Failed to map mmap pool page''
            MMAP_POOL_START MMAP_POOL_END s) (\<lambda>s.
          and_then (map_pool x allocate hhdm ''Failed to allocate frame for heap'' ''Failed to map heap page''
            HEAP_START HEAP_END s) (\<lambda>s.
          and_then (expect ''VirtAddr::new'' (virt_addr_new x (base_addr + entry_point elf))) (\<lambda>entry.
            Inr (entry, s))))))"

section \<open>Relocation\<close>

record reloc_counts =
  total_relocs :: nat
  applied_relocs :: nat
  skipped_relocs :: nat

definition process_rela ::
  "('pt, 'a) x86_64 \<Rightarrow> u64 \<Rightarrow> u64 \<Rightarrow> Rela \<Rightarrow> ('pt, 'a) vm \<times> reloc_counts \<Rightarrow> panic + ('pt, 'a) vm \<times> reloc_counts" where
  "process_rela x hhdm base_addr rela sc =
     (let (s, c) = sc; c = c\<lparr>total_relocs := usize_add (total_relocs c) 1\<rparr>
      in if r_type rela = 8
         then let target_vaddr = base_addr + r_offset rela;
                  value = base_addr + r_addend rela
              in and_then (page_at x target_vaddr) (\<lambda>page.
                 let page_offset = target_vaddr mod 4096
                 in case translate_page x (tables s) page of
                      Some frame \<Rightarrow>
                        Inr (s\<lparr>vmem := store64 (vmem s) (frame + hhdm + page_offset) value\<rparr>,
                             c\<lparr>applied_relocs := usize_add (applied_relocs c) 1\<rparr>)
                    | None \<Rightarrow> Inr (s, c\<lparr>skipped_relocs := usize_add (skipped_relocs c) 1\<rparr>))
         else Inr (s, c))"

definition process_relocations ::
  "('pt, 'a) x86_64 \<Rightarrow> u64 \<Rightarrow> ElfFile \<Rightarrow> u64 \<Rightarrow> ('pt, 'a) vm \<Rightarrow> panic + ('pt, 'a) vm \<times> reloc_counts" where
  "process_relocations x hhdm elf base_addr s =
     for_each (\<lambda>section sc. case section of
                 Some rela_entries \<Rightarrow> for_each (process_rela x hhdm base_addr) rela_entries sc
               | None \<Rightarrow> Inr sc)
       (rela_sections elf) (s, \<lparr>total_relocs = 0, applied_relocs = 0, skipped_relocs = 0\<rparr>)"

definition is_address_tag :: "u64 \<Rightarrow> bool" where
  "is_address_tag d_tag \<longleftrightarrow>
     d_tag \<in> {3, 4, 5, 6, 7, 12, 13, 17, 23, 25, 26, 0x6ffffef5, 0x6ffffff0, 0x6ffffffe, 0x6ffffff9}"

text \<open>The loop over the dynamic entries; \<open>n\<close> entries are left. A page that is not mapped is passed
  over, a null tag ends the loop.\<close>

fun relocate_entries ::
  "('pt, 'a) x86_64 \<Rightarrow> u64 \<Rightarrow> u64 \<Rightarrow> u64 \<Rightarrow> nat \<Rightarrow> ('pt, 'a) vm \<Rightarrow> panic + ('pt, 'a) vm" where
  "relocate_entries x hhdm base_addr entry_vaddr 0 s = Inr s"
| "relocate_entries x hhdm base_addr entry_vaddr (Suc n) s =
     and_then (page_at x entry_vaddr) (\<lambda>page.
     let page_offset = entry_vaddr mod 4096
     in case translate_page x (tables s) page of
          None \<Rightarrow> relocate_entries x hhdm base_addr (entry_vaddr + 16) n s
        | Some frame \<Rightarrow>
            let entry_ptr = frame + hhdm + page_offset;
                d_tag = load64 (vmem s) entry_ptr;
                d_val = load64 (vmem s) (entry_ptr + 8)
            in if d_tag = 0 then Inr s
               else if d_tag = 0x6ffffff9 then relocate_entries x hhdm base_addr (entry_vaddr + 16) n s
               else if is_address_tag d_tag \<and> d_val \<noteq> 0
               then relocate_entries x hhdm base_addr (entry_vaddr + 16) n
                      (s\<lparr>vmem := store64 (vmem s) (entry_ptr + 8) (d_val + base_addr)\<rparr>)
               else relocate_entries x hhdm base_addr (entry_vaddr + 16) n s)"

text \<open>Only the first dynamic segment is relocated.\<close>

definition relocate_dynamic_segment ::
  "('pt, 'a) x86_64 \<Rightarrow> u64 \<Rightarrow> ElfFile \<Rightarrow> u64 \<Rightarrow> ('pt, 'a) vm \<Rightarrow> panic + ('pt, 'a) vm" where
  "relocate_dynamic_segment x hhdm elf base_addr s =
     (case find (\<lambda>ph. ph_type ph = Some Dynamic) (program_iter elf) of
        None \<Rightarrow> Inr s
      | Some ph \<Rightarrow>
          relocate_entries x hhdm base_addr (base_addr + virtual_addr ph) (unat (mem_size ph) div 16) s)"

section \<open>The specification: a program image\<close>

definition segment_pages :: "ProgramHeader \<Rightarrow> u64 \<Rightarrow> u64 list" where
  "segment_pages ph base =
     (let v = base + virtual_addr ph in pages_between (page_of v) (page_of (v + mem_size ph - 1)))"

definition segment_data :: "ElfFile \<Rightarrow> ProgramHeader \<Rightarrow> u8 list" where
  "segment_data elf ph = take (unat (file_size ph)) (drop (unat (ph_file_offset ph)) (elf_input elf))"

text \<open>A segment adds its pages, zeroed where they are new, and stores its data at its address.\<close>

definition image_segment :: "ElfFile \<Rightarrow> u64 \<Rightarrow> ProgramHeader \<Rightarrow> (u64 \<rightharpoonup> u8) \<Rightarrow> (u64 \<rightharpoonup> u8)" where
  "image_segment elf base ph img =
     (if mem_size ph = 0 then img
      else image_store (base + virtual_addr ph) (segment_data elf ph) (fold image_map (segment_pages ph base) img))"

definition load_base :: "ElfFile \<Rightarrow> u64" where
  "load_base elf = (if is_shared_object elf then USER_BASE_ADDR else 0)"

definition load_headers :: "ElfFile \<Rightarrow> ProgramHeader list" where
  "load_headers elf = filter (\<lambda>ph. ph_type ph = Some Load) (program_iter elf)"

definition pool_pages :: "u64 list" where
  "pool_pages = pages_between MMAP_POOL_START (MMAP_POOL_END - 4096)"

definition heap_pages :: "u64 list" where
  "heap_pages = pages_between HEAP_START (HEAP_END - 4096)"

definition elf_image :: "ElfFile \<Rightarrow> (u64 \<rightharpoonup> u8)" where
  "elf_image elf =
     fold image_map heap_pages (fold image_map pool_pages
       (fold (image_segment elf (load_base elf)) (load_headers elf) Map.empty))"

text \<open>The executables the loader is for: a segment's memory does not wrap around, holds its file
  data, and lies on the pages \<open>U\<close>.\<close>

definition segment_ok :: "u64 set \<Rightarrow> ElfFile \<Rightarrow> u64 \<Rightarrow> ProgramHeader \<Rightarrow> bool" where
  "segment_ok U elf base ph \<longleftrightarrow>
     unat (base + virtual_addr ph) + unat (mem_size ph) < 2 ^ 64 \<and> file_size ph \<le> mem_size ph \<and>
     unat (ph_file_offset ph) + unat (file_size ph) \<le> length (elf_input elf) \<and> length (elf_input elf) < 2 ^ 64 \<and>
     (mem_size ph \<noteq> 0 \<longrightarrow> set (segment_pages ph base) \<subseteq> U)"

text \<open>A page has the flags of the first segment on it, else those of the pools.\<close>

definition segment_covers :: "u64 \<Rightarrow> u64 \<Rightarrow> ProgramHeader \<Rightarrow> bool" where
  "segment_covers base page ph \<longleftrightarrow> mem_size ph \<noteq> 0 \<and> page \<in> set (segment_pages ph base)"

definition elf_page_flags :: "ElfFile \<Rightarrow> u64 \<Rightarrow> page_flags" where
  "elf_page_flags elf page =
     (case find (segment_covers (load_base elf) page) (load_headers elf) of
        Some ph \<Rightarrow> segment_flags ph
      | None \<Rightarrow> pool_flags)"

definition elf_pages :: "ElfFile \<Rightarrow> u64 set" where
  "elf_pages elf =
     {q. \<exists>ph \<in> set (load_headers elf). segment_covers (load_base elf) q ph} \<union> set pool_pages \<union> set heap_pages"

text \<open>An upper bound for the number of pages mapped; each takes a frame and at most three tables.\<close>

definition headers_page_count :: "u64 \<Rightarrow> ProgramHeader list \<Rightarrow> nat" where
  "headers_page_count base phs = sum_list (map (\<lambda>ph. length (segment_pages ph base)) phs)"

definition elf_page_count :: "ElfFile \<Rightarrow> nat" where
  "elf_page_count elf =
     headers_page_count (load_base elf) (load_headers elf) + length pool_pages + length heap_pages"

section \<open>Images\<close>

lemma fold_image_map:
  "fold image_map pages img a = (if page_of a \<in> set pages \<and> img a = None then Some 0 else img a)"
  by (induction pages arbitrary: img) (auto simp: image_map_def)

lemma image_store_Nil [simp]: "image_store a [] img = img"
  by (simp add: image_store_def)

lemma image_store_append:
  assumes "length xs + length ys \<le> 2 ^ 64"
  shows "image_store a (xs @ ys) img = image_store (a + of_nat (length xs)) ys (image_store a xs img)"
proof
  fix b :: u64
  define k where "k = unat (b - a)"
  have "k < 2 ^ 64" using unat_lt_64 [of "b - a"] by (simp add: k_def)
  show "image_store a (xs @ ys) img b = image_store (a + of_nat (length xs)) ys (image_store a xs img) b"
  proof (cases "ys = []")
    case False
    then have lx: "length xs < 2 ^ 64" using assms by (cases ys) auto
    have d: "b - (a + of_nat (length xs)) = (b - a) - of_nat (length xs)" by simp
    have ux: "unat (of_nat (length xs) :: u64) = length xs" using lx by (rule unat_of_nat_small)
    show ?thesis
    proof (cases "k < length xs")
      case True
      then have "\<not> (of_nat (length xs) :: u64) \<le> b - a" using ux by (simp add: word_le_nat_alt k_def)
      then have "unat (b - (a + of_nat (length xs))) = 2 ^ 64 + k - length xs"
        unfolding d using ux by (simp add: unat_sub_if' word_le_nat_alt k_def)
      then have "\<not> unat (b - (a + of_nat (length xs))) < length ys" using assms lx by simp
      then show ?thesis using True by (simp add: image_store_def k_def nth_append)
    next
      case False
      then have "(of_nat (length xs) :: u64) \<le> b - a" using ux by (simp add: word_le_nat_alt k_def)
      then have "unat (b - (a + of_nat (length xs))) = k - length xs"
        unfolding d using ux by (simp add: unat_sub_small k_def)
      then show ?thesis using False by (auto simp: image_store_def k_def nth_append)
    qed
  qed simp
qed

section \<open>Copying through the page tables\<close>

lemma page_at_ok: "x86_64_ok x \<Longrightarrow> virt_addr_new x a = Some a \<Longrightarrow> page_at x a = Inr (page_of a)"
  by (simp add: page_at_def x86_64_ok_def)

lemma offset_word: "(a :: u64) mod 4096 = of_nat (unat a mod 4096)"
  by (simp add: word_unat_eq_iff unat_mod unat_of_nat_small)

text \<open>The pages of a segment are those of its addresses.\<close>

lemma segment_pages_aligned: "q \<in> set (segment_pages ph base) \<Longrightarrow> 4096 dvd unat q"
  by (simp add: segment_pages_def Let_def set_pages_between)

lemma last_byte: "i < unat n \<Longrightarrow> (v :: u64) + n - 1 = v + of_nat (unat n - 1)"
  by (simp add: of_nat_diff)

lemma segment_page:
  assumes "unat (base + virtual_addr ph) + unat (mem_size ph) < 2 ^ 64" "i < unat (mem_size ph)"
  shows "page_of (base + virtual_addr ph + of_nat i) \<in> set (segment_pages ph base)"
proof -
  define v where "v = base + virtual_addr ph"
  have u: "unat (v + of_nat i) = unat v + i" using assms by (intro unat_add_of_nat_small) (simp add: v_def)
  have e: "unat (v + mem_size ph - 1) = unat v + (unat (mem_size ph) - 1)"
    unfolding last_byte [OF assms(2)] using assms by (intro unat_add_of_nat_small) (simp add: v_def)
  have "v \<le> v + of_nat i" "v + of_nat i \<le> v + mem_size ph - 1"
    using u e assms(2) by (simp_all add: word_le_nat_alt)
  then show ?thesis
    by (simp add: segment_pages_def Let_def v_def [symmetric] set_pages_between page_of_mono)
qed

context window_allocator
begin

lemma copy_to_pages_effect:
  assumes x: "x86_64_ok x"
    and mapped: "\<forall>i < length rest. page_of (cur + of_nat i) \<in> U \<and>
      translate_page x (tables s) (page_of (cur + of_nat i)) \<noteq> None \<and>
      virt_addr_new x (cur + of_nat i) = Some (cur + of_nat i)"
    and wrap: "unat cur + length rest < 2 ^ 64" and ok: "owned x U s"
  shows "\<exists>m. copy_to_pages x hhdm cur rest s = Inr (s\<lparr>vmem := m\<rparr>) \<and> owned x U (s\<lparr>vmem := m\<rparr>) \<and>
    user_image x hhdm U (s\<lparr>vmem := m\<rparr>) = image_store cur rest (user_image x hhdm U s) \<and>
    avail (manager s, m) = avail (manager s, vmem s)"
  using mapped wrap ok
proof (induction "length rest" arbitrary: cur rest s rule: less_induct)
  case less
  show ?case
  proof (cases rest)
    case Nil
    have "s\<lparr>vmem := vmem s\<rparr> = s" by simp
    then show ?thesis using Nil less.prems(3) by (intro exI [of _ "vmem s"]) simp
  next
    case (Cons b bs)
    define d where "d = unat cur mod 4096"
    define n where "n = min (4096 - d) (length rest)"
    define p where "p = page_of cur"
    have d: "d < 4096" by (simp add: d_def)
    then have n: "0 < n" "n \<le> length rest" "d + n \<le> 4096" using Cons by (auto simp: n_def)
    have "p \<in> U" "translate_page x (tables s) p \<noteq> None" and va: "virt_addr_new x cur = Some cur"
      using less.prems(1) [rule_format, of 0] Cons by (auto simp: p_def)
    then obtain f where p: "p \<in> U" "translate_page x (tables s) p = Some f" "4096 dvd unat p" by (auto simp: p_def)
    have cur: "cur = p + of_nat d"
      using page_split [of cur] page_of_add(2) [OF p(3) d] by (simp add: word_unat_eq_iff p_def d_def)
    define s1 where "s1 = s\<lparr>vmem := store_bytes (vmem s) (f + hhdm + of_nat d) (take n rest)\<rparr>"
    have s1: "owned x U s1" "user_image x hhdm U s1 = image_store cur (take n rest) (user_image x hhdm U s)"
      using store_in_page [OF less.prems(3) p, of d "take n rest"] n by (auto simp: s1_def cur)
    have shift: "cur + of_nat n + of_nat i = cur + of_nat (n + i)" for i by simp
    have "\<forall>i < length (drop n rest). page_of (cur + of_nat n + of_nat i) \<in> U \<and>
        translate_page x (tables s1) (page_of (cur + of_nat n + of_nat i)) \<noteq> None \<and>
        virt_addr_new x (cur + of_nat n + of_nat i) = Some (cur + of_nat n + of_nat i)"
      unfolding shift using less.prems(1) n(2) by (simp add: s1_def del: of_nat_add)
    moreover have "unat (cur + of_nat n) + length (drop n rest) < 2 ^ 64"
      using less.prems(2) n(2) by (subst unat_add_of_nat_small) auto
    moreover have "length (drop n rest) < length rest" using n by simp
    ultimately obtain m where m: "copy_to_pages x hhdm (cur + of_nat n) (drop n rest) s1 = Inr (s1\<lparr>vmem := m\<rparr>)"
      "owned x U (s1\<lparr>vmem := m\<rparr>)" "avail (manager s1, m) = avail (manager s1, vmem s1)"
      "user_image x hhdm U (s1\<lparr>vmem := m\<rparr>) = image_store (cur + of_nat n) (drop n rest) (user_image x hhdm U s1)"
      using less.hyps [OF _ _ _ s1(1), of "drop n rest" "cur + of_nat n"] by blast
    have "copy_to_pages x hhdm cur rest s = copy_to_pages x hhdm (cur + of_nat n) (drop n rest) s1"
    proof -
      have "cur mod 4096 = of_nat d" "unat (of_nat d :: u64) = d"
        using d by (simp_all add: d_def offset_word [symmetric] unat_mod)
      then show ?thesis
        unfolding Cons using p(2) by (simp add: page_at_ok [OF x va] p_def [symmetric] Let_def s1_def n_def Cons)
    qed
    moreover have "image_store cur rest (user_image x hhdm U s) =
        image_store (cur + of_nat n) (drop n rest) (user_image x hhdm U s1)"
      using image_store_append [of "take n rest" "drop n rest" cur] less.prems(2) n(2) s1(2) by simp
    moreover have "avail (manager s, vmem s1) = avail (manager s, vmem s)"
    proof -
      have "y \<in> reserved (manager s) \<Longrightarrow> vmem s1 y = vmem s y" for y
        using ownedD(2) [OF less.prems(3) p(1,2)] in_range_sub [of "f + hhdm" d n y 4096] n
        by (auto simp: s1_def window_def intro!: store_bytes_out)
      then show ?thesis using store_effect [of "manager s" "vmem s" "vmem s1"] less.prems(3) by (auto simp: owned_def)
    qed
    ultimately show ?thesis using m by (intro exI [of _ m]) (simp add: s1_def)
  qed
qed

lemma load_segment_effect:
  assumes x: "x86_64_ok x" "map_to_progress x allocate avail U" and va: "\<forall>a. page_of a \<in> U \<longrightarrow> virt_addr_new x a = Some a"
    and ok: "owned x U s" and seg: "segment_ok U elf base ph"
    and frames: "4 * length (segment_pages ph base) \<le> card (avail (manager s, vmem s))"
  shows "\<exists>s'. load_segment x allocate hhdm elf ph base s = Inr s' \<and> owned x U s' \<and>
    user_image x hhdm U s' = image_segment elf base ph (user_image x hhdm U s) \<and>
    card (avail (manager s, vmem s)) \<le> card (avail (manager s', vmem s')) + 4 * length (segment_pages ph base) \<and>
    flags_of x (tables s') = (\<lambda>q. if mem_size ph \<noteq> 0 \<and> q \<in> set (segment_pages ph base) - dom (translate_page x (tables s))
      then segment_flags ph else flags_of x (tables s) q) \<and>
    dom (translate_page x (tables s')) =
      (if mem_size ph = 0 then {} else set (segment_pages ph base)) \<union> dom (translate_page x (tables s))"
proof (cases "mem_size ph = 0")
  case True
  then show ?thesis using ok by (simp add: load_segment_def image_segment_def)
next
  case False
  define v where "v = base + virtual_addr ph"
  define pages where "pages = segment_pages ph base"
  have fit: "unat v + unat (mem_size ph) < 2 ^ 64" and size: "unat (file_size ph) \<le> unat (mem_size ph)"
    and infile: "unat (ph_file_offset ph) + unat (file_size ph) \<le> length (elf_input elf)" "length (elf_input elf) < 2 ^ 64"
    and inU: "set pages \<subseteq> U"
    using seg False by (auto simp: segment_ok_def v_def pages_def word_le_nat_alt)
  have pos: "0 < unat (mem_size ph)" using False by (simp add: unat_gt_0)
  have page: "page_of (v + of_nat i) \<in> set pages" if "i < unat (mem_size ph)" for i
    using segment_page [OF _ that] fit by (simp add: v_def pages_def)
  have last: "v + mem_size ph - 1 = v + of_nat (unat (mem_size ph) - 1)" by (rule last_byte [OF pos])
  have nz: "v + mem_size ph \<noteq> 0" using fit pos unat_add_small [of v "mem_size ph"] by (metis add_gr_0 less_numeral_extra(3) unat_0)
  have starts: "page_at x v = Inr (page_of v)" "page_at x (v + mem_size ph - 1) = Inr (page_of (v + mem_size ph - 1))"
    using page [of 0] page [of "unat (mem_size ph) - 1", folded last] pos inU va by (auto intro!: page_at_ok [OF x(1)])
  have range: "range_inclusive x (page_of v) (page_of (v + mem_size ph - 1)) = pages"
    using x(1) by (simp add: x86_64_ok_def pages_def segment_pages_def v_def Let_def)
  have pg: "\<forall>q \<in> set pages. q \<in> U \<and> 4096 dvd unat q" using inU segment_pages_aligned by (auto simp: pages_def)
  obtain s1 where s1: "for_each (map_if_needed x allocate hhdm ''Failed to allocate frame for ELF segment''
       ''Failed to map ELF segment page'' (segment_flags ph)) pages s = Inr s1"
    "card (avail (manager s, vmem s)) \<le> card (avail (manager s1, vmem s1)) + 4 * length pages"
    using map_range_progress [OF x ok pg] frames unfolding pages_def by blast
  note e1 = map_range_effect [OF x(1) ok pg s1(1)]
  have data: "length (segment_data elf ph) = unat (file_size ph)" using infile by (simp add: segment_data_def)
  have dom1: "set pages \<subseteq> dom (translate_page x (tables s1))" and own1: "owned x U s1"
    using e1 by blast+
  have "page_of (v + of_nat i) \<in> U \<and> translate_page x (tables s1) (page_of (v + of_nat i)) \<noteq> None \<and>
      virt_addr_new x (v + of_nat i) = Some (v + of_nat i)" if "i < length (segment_data elf ph)" for i
  proof -
    have "page_of (v + of_nat i) \<in> set pages" using that data size by (intro page) linarith
    then show ?thesis using inU dom1 va by blast
  qed
  moreover have "unat v + length (segment_data elf ph) < 2 ^ 64" using fit size data by linarith
  ultimately obtain m where m: "copy_to_pages x hhdm v (segment_data elf ph) s1 = Inr (s1\<lparr>vmem := m\<rparr>)"
    "owned x U (s1\<lparr>vmem := m\<rparr>)" "avail (manager s1, m) = avail (manager s1, vmem s1)"
    "user_image x hhdm U (s1\<lparr>vmem := m\<rparr>) = image_store v (segment_data elf ph) (user_image x hhdm U s1)"
    using copy_to_pages_effect [OF x(1) _ _ own1, of "segment_data elf ph" v] by blast
  have "load_segment x allocate hhdm elf ph base s = Inr (s1\<lparr>vmem := m\<rparr>)"
  proof (cases "file_size ph > 0")
    case True
    have "usize_add (unat (ph_file_offset ph)) (unat (file_size ph)) = unat (ph_file_offset ph) + unat (file_size ph)"
      using infile by (intro usize_add_small) linarith
    then show ?thesis
      using False True starts range s1(1) m(1) nz infile(1)
      by (simp add: load_segment_def Let_def v_def [symmetric] segment_data_def)
  next
    case False
    then have "segment_data elf ph = []" using data by (simp add: word_less_nat_alt)
    then show ?thesis
      using \<open>mem_size ph \<noteq> 0\<close> False starts range s1(1) m(1) nz by (simp add: load_segment_def Let_def v_def [symmetric])
  qed
  moreover have "image_segment elf base ph (user_image x hhdm U s) =
      image_store v (segment_data elf ph) (user_image x hhdm U s1)"
    using False e1 by (simp add: image_segment_def v_def pages_def)
  ultimately show ?thesis using False m e1 s1(2) by (simp add: pages_def)
qed

lemma load_segments_effect:
  assumes x: "x86_64_ok x" "map_to_progress x allocate avail U" and va: "\<forall>a. page_of a \<in> U \<longrightarrow> virt_addr_new x a = Some a"
    and "owned x U s" "\<forall>ph \<in> set phs. segment_ok U elf base ph"
    and "4 * headers_page_count base phs \<le> card (avail (manager s, vmem s))"
  shows "\<exists>s'. for_each (\<lambda>ph. load_segment x allocate hhdm elf ph base) phs s = Inr s' \<and> owned x U s' \<and>
    user_image x hhdm U s' = fold (image_segment elf base) phs (user_image x hhdm U s) \<and>
    card (avail (manager s, vmem s)) \<le> card (avail (manager s', vmem s')) + 4 * headers_page_count base phs \<and>
    dom (translate_page x (tables s')) = {q. \<exists>ph \<in> set phs. segment_covers base q ph} \<union> dom (translate_page x (tables s)) \<and>
    (\<forall>q. q \<notin> dom (translate_page x (tables s)) \<longrightarrow> flags_of x (tables s') q =
       (case find (segment_covers base q) phs of Some ph \<Rightarrow> segment_flags ph | None \<Rightarrow> flags_of x (tables s) q)) \<and>
    (\<forall>q \<in> dom (translate_page x (tables s)). flags_of x (tables s') q = flags_of x (tables s) q)"
  using assms(4-)
proof (induction phs arbitrary: s)
  case Nil
  then show ?case by (simp add: headers_page_count_def)
next
  case (Cons ph phs)
  have "segment_ok U elf base ph" "4 * length (segment_pages ph base) \<le> card (avail (manager s, vmem s))"
    using Cons.prems(2,3) by (auto simp: headers_page_count_def)
  from load_segment_effect [OF x va Cons.prems(1) this]
  obtain s1 where s1: "load_segment x allocate hhdm elf ph base s = Inr s1" "owned x U s1"
    "user_image x hhdm U s1 = image_segment elf base ph (user_image x hhdm U s)"
    "card (avail (manager s, vmem s)) \<le> card (avail (manager s1, vmem s1)) + 4 * length (segment_pages ph base)"
    "flags_of x (tables s1) = (\<lambda>q. if mem_size ph \<noteq> 0 \<and> q \<in> set (segment_pages ph base) - dom (translate_page x (tables s))
      then segment_flags ph else flags_of x (tables s) q)"
    "dom (translate_page x (tables s1)) =
      (if mem_size ph = 0 then {} else set (segment_pages ph base)) \<union> dom (translate_page x (tables s))"
    by blast
  have d1: "q \<in> dom (translate_page x (tables s1)) \<longleftrightarrow> segment_covers base q ph \<or> q \<in> dom (translate_page x (tables s))" for q
    unfolding s1(6) by (auto simp: segment_covers_def)
  have f1: "flags_of x (tables s1) q =
      (if segment_covers base q ph \<and> q \<notin> dom (translate_page x (tables s)) then segment_flags ph else flags_of x (tables s) q)" for q
    unfolding s1(5) by (auto simp: segment_covers_def)
  have "\<forall>ph \<in> set phs. segment_ok U elf base ph" "4 * headers_page_count base phs \<le> card (avail (manager s1, vmem s1))"
    using Cons.prems(2,3) s1(4) by (auto simp: headers_page_count_def)
  from Cons.IH [OF s1(2) this]
  obtain s' where s': "for_each (\<lambda>ph. load_segment x allocate hhdm elf ph base) phs s1 = Inr s'" "owned x U s'"
    "user_image x hhdm U s' = fold (image_segment elf base) phs (user_image x hhdm U s1)"
    "card (avail (manager s1, vmem s1)) \<le> card (avail (manager s', vmem s')) + 4 * headers_page_count base phs"
    "dom (translate_page x (tables s')) = {q. \<exists>ph \<in> set phs. segment_covers base q ph} \<union> dom (translate_page x (tables s1))"
    "\<forall>q. q \<notin> dom (translate_page x (tables s1)) \<longrightarrow> flags_of x (tables s') q =
       (case find (segment_covers base q) phs of Some ph \<Rightarrow> segment_flags ph | None \<Rightarrow> flags_of x (tables s1) q)"
    "\<forall>q \<in> dom (translate_page x (tables s1)). flags_of x (tables s') q = flags_of x (tables s1) q"
    by blast
  have "dom (translate_page x (tables s')) =
      {q. \<exists>ph \<in> set (ph # phs). segment_covers base q ph} \<union> dom (translate_page x (tables s))"
    unfolding s'(5) using d1 by auto
  moreover have "flags_of x (tables s') q = (case find (segment_covers base q) (ph # phs) of
      Some ph \<Rightarrow> segment_flags ph | None \<Rightarrow> flags_of x (tables s) q)" if q: "q \<notin> dom (translate_page x (tables s))" for q
  proof (cases "segment_covers base q ph")
    case True
    then show ?thesis using s'(7) d1 f1 q by auto
  next
    case False
    then show ?thesis using s'(6) [rule_format, of q] d1 [of q] f1 [of q] q by (simp split: option.split)
  qed
  moreover have "flags_of x (tables s') q = flags_of x (tables s) q" if "q \<in> dom (translate_page x (tables s))" for q
    using s'(7) d1 f1 that by auto
  moreover have "for_each (\<lambda>ph. load_segment x allocate hhdm elf ph base) (ph # phs) s = Inr s'" using s1(1) s'(1) by simp
  moreover have "user_image x hhdm U s' = fold (image_segment elf base) (ph # phs) (user_image x hhdm U s)"
    using s1(3) s'(3) by simp
  moreover have "card (avail (manager s, vmem s)) \<le> card (avail (manager s', vmem s')) + 4 * headers_page_count base (ph # phs)"
    using s1(4) s'(4) by (simp add: headers_page_count_def)
  ultimately show ?case using s'(2) by blast
qed

lemma map_pool_effect:
  assumes x: "x86_64_ok x" "map_to_progress x allocate avail U" and va: "\<forall>a. page_of a \<in> U \<longrightarrow> virt_addr_new x a = Some a"
    and ok: "owned x U s" and al: "4096 dvd unat lo" "page_of (hi - 1) = last_page" "lo \<le> last_page"
    and U: "set (pages_between lo last_page) \<subseteq> U"
    and frames: "4 * length (pages_between lo last_page) \<le> card (avail (manager s, vmem s))"
  shows "\<exists>s'. map_pool x allocate hhdm m1 m2 lo hi s = Inr s' \<and> owned x U s' \<and>
    user_image x hhdm U s' = fold image_map (pages_between lo last_page) (user_image x hhdm U s) \<and>
    card (avail (manager s, vmem s)) \<le> card (avail (manager s', vmem s')) + 4 * length (pages_between lo last_page) \<and>
    dom (translate_page x (tables s')) = set (pages_between lo last_page) \<union> dom (translate_page x (tables s)) \<and>
    flags_of x (tables s') = (\<lambda>q. if q \<in> set (pages_between lo last_page) - dom (translate_page x (tables s))
      then pool_flags else flags_of x (tables s) q)"
proof -
  let ?ps = "pages_between lo last_page"
  have al2: "4096 dvd unat last_page" using al(2) page_of_aligned by metis
  have ps: "set ?ps = {q. 4096 dvd unat q \<and> lo \<le> q \<and> q \<le> last_page}" by (rule set_pages_between [OF al(1) al2])
  then have pg: "\<forall>q \<in> set ?ps. q \<in> U \<and> 4096 dvd unat q" using U by auto
  have "lo \<in> U" "page_of (hi - 1) \<in> U" using U ps al(1,2,3) al2 by auto
  then have ends: "page_at x lo = Inr lo" "page_at x (hi - 1) = Inr last_page"
    using page_at_ok [OF x(1), of lo] page_at_ok [OF x(1), of "hi - 1"] va al(2) page_of_page [OF al(1)] by simp_all
  obtain s' where s': "for_each (map_if_needed x allocate hhdm m1 m2 pool_flags) ?ps s = Inr s'"
    "card (avail (manager s, vmem s)) \<le> card (avail (manager s', vmem s')) + 4 * length ?ps"
    using map_range_progress [OF x ok pg frames] by blast
  have "map_pool x allocate hhdm m1 m2 lo hi s = Inr s'"
    using s'(1) ends x(1) by (simp add: map_pool_def x86_64_ok_def)
  then show ?thesis using map_range_effect [OF x(1) ok pg s'(1)] s'(2) by blast
qed

end

lemma pool_bounds:
  "4096 dvd unat MMAP_POOL_START" "page_of (MMAP_POOL_END - 1) = MMAP_POOL_END - 4096" "MMAP_POOL_START \<le> MMAP_POOL_END - 4096"
  "4096 dvd unat HEAP_START" "page_of (HEAP_END - 1) = HEAP_END - 4096" "HEAP_START \<le> HEAP_END - 4096"
  by (simp_all add: MMAP_POOL_START_def MMAP_POOL_END_def HEAP_START_def HEAP_END_def page_of_def)

lemma for_each_filter: "for_each (\<lambda>y s. if P y then f y s else Inr s) xs s = for_each f (filter P xs) s"
  by (induction xs arbitrary: s) (auto simp: fun_eq_iff intro!: arg_cong [where f = "and_then _"])

lemmas map_pool_mmap = window_allocator.map_pool_effect [OF _ _ _ _ _ pool_bounds(1-3), folded pool_pages_def]

lemmas map_pool_heap = window_allocator.map_pool_effect [OF _ _ _ _ _ pool_bounds(4-6), folded heap_pages_def]

context window_allocator
begin

lemma load_user_elf_effect:
  assumes x: "x86_64_ok x" "map_to_progress x allocate avail U" and va: "\<forall>a. page_of a \<in> U \<longrightarrow> virt_addr_new x a = Some a"
    and ok: "owned x U s" and fresh: "\<forall>q \<in> elf_pages elf. translate_page x (tables s) q = None"
    and elf: "elf_file_new bytes = Some elf" "elf_magic elf = [0x7F, 0x45, 0x4C, 0x46]"
      "\<forall>ph \<in> set (load_headers elf). segment_ok U elf (load_base elf) ph"
      "virt_addr_new x (load_base elf + entry_point elf) = Some (load_base elf + entry_point elf)"
    and pools: "set pool_pages \<subseteq> U" "set heap_pages \<subseteq> U"
    and frames: "4 * elf_page_count elf \<le> card (avail (manager s, vmem s))"
  shows "\<exists>s'. load_user_elf elf_file_new x allocate hhdm bytes s = Inr (load_base elf + entry_point elf, s') \<and>
    owned x U s' \<and>
    user_image x hhdm U s' = fold image_map heap_pages (fold image_map pool_pages
       (fold (image_segment elf (load_base elf)) (load_headers elf) (user_image x hhdm U s))) \<and>
    card (avail (manager s, vmem s)) \<le> card (avail (manager s', vmem s')) + 4 * elf_page_count elf \<and>
    dom (translate_page x (tables s')) = elf_pages elf \<union> dom (translate_page x (tables s)) \<and>
    (\<forall>q. flags_of x (tables s') q = (if q \<in> elf_pages elf then elf_page_flags elf q else flags_of x (tables s) q))"
proof -
  let ?b = "load_base elf" and ?hs = "load_headers elf"
  have "4 * headers_page_count ?b ?hs \<le> card (avail (manager s, vmem s))" using frames by (simp add: elf_page_count_def)
  from load_segments_effect [OF x va ok elf(3) this]
  obtain s1 where s1: "for_each (\<lambda>ph. load_segment x allocate hhdm elf ph ?b) ?hs s = Inr s1" "owned x U s1"
    "user_image x hhdm U s1 = fold (image_segment elf ?b) ?hs (user_image x hhdm U s)"
    "card (avail (manager s, vmem s)) \<le> card (avail (manager s1, vmem s1)) + 4 * headers_page_count ?b ?hs"
    "dom (translate_page x (tables s1)) = {q. \<exists>ph \<in> set ?hs. segment_covers ?b q ph} \<union> dom (translate_page x (tables s))"
    "\<forall>q. q \<notin> dom (translate_page x (tables s)) \<longrightarrow> flags_of x (tables s1) q =
       (case find (segment_covers ?b q) ?hs of Some ph \<Rightarrow> segment_flags ph | None \<Rightarrow> flags_of x (tables s) q)"
    "\<forall>q \<in> dom (translate_page x (tables s)). flags_of x (tables s1) q = flags_of x (tables s) q"
    by blast
  have "4 * length pool_pages \<le> card (avail (manager s1, vmem s1))" using frames s1(4) by (simp add: elf_page_count_def)
  from map_pool_mmap [OF window_allocator_axioms x va s1(2) pools(1) this]
  obtain s2 where s2: "map_pool x allocate hhdm ''Failed to allocate frame for mmap pool'' ''Failed to map mmap pool page''
      MMAP_POOL_START MMAP_POOL_END s1 = Inr s2" "owned x U s2"
    "user_image x hhdm U s2 = fold image_map pool_pages (user_image x hhdm U s1)"
    "card (avail (manager s1, vmem s1)) \<le> card (avail (manager s2, vmem s2)) + 4 * length pool_pages"
    "dom (translate_page x (tables s2)) = set pool_pages \<union> dom (translate_page x (tables s1))"
    "flags_of x (tables s2) = (\<lambda>q. if q \<in> set pool_pages - dom (translate_page x (tables s1))
      then pool_flags else flags_of x (tables s1) q)" by blast
  have "4 * length heap_pages \<le> card (avail (manager s2, vmem s2))" using frames s1(4) s2(4) by (simp add: elf_page_count_def)
  from map_pool_heap [OF window_allocator_axioms x va s2(2) pools(2) this]
  obtain s3 where s3: "map_pool x allocate hhdm ''Failed to allocate frame for heap'' ''Failed to map heap page''
      HEAP_START HEAP_END s2 = Inr s3" "owned x U s3"
    "user_image x hhdm U s3 = fold image_map heap_pages (user_image x hhdm U s2)"
    "card (avail (manager s2, vmem s2)) \<le> card (avail (manager s3, vmem s3)) + 4 * length heap_pages"
    "dom (translate_page x (tables s3)) = set heap_pages \<union> dom (translate_page x (tables s2))"
    "flags_of x (tables s3) = (\<lambda>q. if q \<in> set heap_pages - dom (translate_page x (tables s2))
      then pool_flags else flags_of x (tables s2) q)" by blast
  have "load_user_elf elf_file_new x allocate hhdm bytes s = Inr (?b + entry_point elf, s3)"
  proof -
    have "for_each (\<lambda>ph s. if ph_type ph = Some Load then load_segment x allocate hhdm elf ph ?b s else Inr s)
        (program_iter elf) s = Inr s1"
      unfolding for_each_filter using s1(1) by (simp add: load_headers_def)
    then show ?thesis
      using elf s2(1) s3(1) by (simp add: load_user_elf_def Let_def load_base_def [symmetric])
  qed
  moreover have "dom (translate_page x (tables s3)) = elf_pages elf \<union> dom (translate_page x (tables s))"
    unfolding s3(5) s2(5) s1(5) elf_pages_def by blast
  moreover have "flags_of x (tables s3) q = (if q \<in> elf_pages elf then elf_page_flags elf q else flags_of x (tables s) q)" for q
  proof (cases "q \<in> dom (translate_page x (tables s))")
    case True
    then have "q \<notin> elf_pages elf" using fresh by auto
    then show ?thesis using True s1(5,7) s2(5,6) s3(6) by auto
  next
    case False
    then show ?thesis
    proof (cases "find (segment_covers ?b q) ?hs")
      case None
      then have "\<not> (\<exists>ph \<in> set ?hs. segment_covers ?b q ph)" by (simp add: find_None_iff)
      then show ?thesis
        using None False s1(5) s1(6) [rule_format, OF False] s2(5,6) s3(6) by (simp add: elf_pages_def elf_page_flags_def)
    next
      case (Some ph)
      then have "\<exists>ph \<in> set ?hs. segment_covers ?b q ph" by (metis find_Some_iff nth_mem)
      then show ?thesis
        using Some False s1(5) s1(6) [rule_format, OF False] s2(5,6) s3(6) by (auto simp: elf_pages_def elf_page_flags_def)
    qed
  qed
  moreover have "card (avail (manager s, vmem s)) \<le> card (avail (manager s3, vmem s3)) + 4 * elf_page_count elf"
    using s1(4) s2(4) s3(4) by (simp add: elf_page_count_def)
  ultimately show ?thesis using s3(2,3) s2(3) s1(3) by auto
qed

end

end
