(* ===== verification/User_Stack.thy ===== *)
theory User_Stack
  imports Elf_Loader
begin

text \<open>
  The initial user stack, \<open>setup_user_stack\<close> of \<open>kernel/src/elf_loader.rs\<close>: the stack pages, then
  the argument count, the empty argument and environment vectors and the auxiliary vector that the
  C library of the program reads. The specification decodes the stack the way a program does.
\<close>

section \<open>Writing the stack\<close>

definition write_to_stack ::
  "('pt, 'a) x86_64 \<Rightarrow> u64 \<Rightarrow> u64 \<Rightarrow> u64 \<Rightarrow> ('pt, 'a) vm \<Rightarrow> panic + ('pt, 'a) vm" where
  "write_to_stack x hhdm addr value s =
     and_then (page_at x addr) (\<lambda>page.
     let page_offset = addr mod 4096
     in case translate_page x (tables s) page of
          Some frame \<Rightarrow> Inr (s\<lparr>vmem := store64 (vmem s) (frame + hhdm + page_offset) value\<rparr>)
        | None \<Rightarrow> Inr s)"

definition AT_NULL :: u64 where "AT_NULL = 0"
definition AT_PHDR :: u64 where "AT_PHDR = 3"
definition AT_PHENT :: u64 where "AT_PHENT = 4"
definition AT_PHNUM :: u64 where "AT_PHNUM = 5"
definition AT_PAGESZ :: u64 where "AT_PAGESZ = 6"
definition AT_BASE :: u64 where "AT_BASE = 7"
definition AT_ENTRY :: u64 where "AT_ENTRY = 9"
definition AT_RANDOM :: u64 where "AT_RANDOM = 25"

text \<open>The calls of \<open>write_to_stack\<close>, in order: the address, with the value of \<open>offset\<close> at the call,
  and the value.\<close>

definition stack_writes :: "u64 \<Rightarrow> u64 \<Rightarrow> u64 \<Rightarrow> u64 \<Rightarrow> u64 \<Rightarrow> (u64 \<times> u64) list" where
  "stack_writes sp phdr_addr phent phnum entry_addr =
     [(sp + 0, 0), (sp + 8, 0), (sp + 16, 0),
      (sp + 24, AT_PHDR), (sp + 24 + 8, phdr_addr),
      (sp + 40, AT_PHENT), (sp + 40 + 8, phent),
      (sp + 56, AT_PHNUM), (sp + 56 + 8, phnum),
      (sp + 72, AT_PAGESZ), (sp + 72 + 8, 4096),
      (sp + 88, AT_BASE), (sp + 88 + 8, 0),
      (sp + 104, AT_ENTRY), (sp + 104 + 8, entry_addr),
      (sp + 120, AT_RANDOM), (sp + 120 + 8, sp + 240),
      (sp + 136, AT_NULL), (sp + 136 + 8, 0)]"

definition setup_user_stack ::
  "(u8 list \<Rightarrow> ElfFile option) \<Rightarrow> ('pt, 'a) x86_64 \<Rightarrow> 'a allocator \<Rightarrow> u64 \<Rightarrow> u8 list \<Rightarrow> ('pt, 'a) vm \<Rightarrow>
   panic + (u64 \<times> ('pt, 'a) vm)" where
  "setup_user_stack elf_file_new x allocate hhdm USER_ELF_BYTES s =
     (let stack_start = USER_STACK_BOTTOM - USER_STACK_SIZE;
          stack_end = USER_STACK_BOTTOM
      in and_then (page_at x stack_start) (\<lambda>start_page.
         and_then (page_at x (stack_end - 1)) (\<lambda>end_page.
         and_then (for_each
            (map_new_page x allocate hhdm ''Failed to allocate frame for user stack'' ''Failed to map user stack page''
               {PRESENT, USER_ACCESSIBLE, WRITABLE, NO_EXECUTE})
            (range_inclusive x start_page end_page) s) (\<lambda>s.
         and_then (expect ''Failed to parse ELF'' (elf_file_new USER_ELF_BYTES)) (\<lambda>elf.
         let phdr_offset = ph_offset elf;
             phnum = ucast (ph_count elf);
             phent = ucast (ph_entry_size elf);
             entry = entry_point elf;
             base_addr = (if is_shared_object elf then USER_BASE_ADDR else 0);
             phdr_addr = base_addr + phdr_offset;
             entry_addr = base_addr + entry;
             stack_top = USER_STACK_BOTTOM;
             sp = (stack_top - 256) AND NOT 0xF
         in and_then (for_each (\<lambda>(addr, value). write_to_stack x hhdm addr value)
              (stack_writes sp phdr_addr phent phnum entry_addr) s) (\<lambda>s.
            and_then (expect ''VirtAddr::new'' (virt_addr_new x sp)) (\<lambda>v. Inr (v, s))))))))"

section \<open>The specification: how a program reads its stack\<close>

definition stack_pages :: "u64 list" where
  "stack_pages = pages_between (USER_STACK_BOTTOM - USER_STACK_SIZE) (USER_STACK_BOTTOM - 4096)"

definition initial_sp :: u64 where
  "initial_sp = USER_STACK_BOTTOM - 256"

definition image_word :: "(u64 \<rightharpoonup> u8) \<Rightarrow> u64 \<Rightarrow> u64 option" where
  "image_word img a =
     (if \<forall>i \<in> set [0..<8]. img (a + of_nat i) \<noteq> None
      then Some (le_word (map (\<lambda>i. the (img (a + of_nat i))) [0..<8])) else None)"

text \<open>The words of a vector up to a null word, and the words after it.\<close>

fun read_vector :: "nat \<Rightarrow> (u64 \<rightharpoonup> u8) \<Rightarrow> u64 \<Rightarrow> (u64 list \<times> u64) option" where
  "read_vector 0 img a = None"
| "read_vector (Suc n) img a =
     (case image_word img a of
        None \<Rightarrow> None
      | Some w \<Rightarrow> if w = 0 then Some ([], a + 8)
                  else map_option (\<lambda>(ws, b). (w # ws, b)) (read_vector n img (a + 8)))"

fun read_auxv :: "nat \<Rightarrow> (u64 \<rightharpoonup> u8) \<Rightarrow> u64 \<Rightarrow> (u64 \<times> u64) list option" where
  "read_auxv 0 img a = None"
| "read_auxv (Suc n) img a =
     (case (image_word img a, image_word img (a + 8)) of
        (Some t, Some v) \<Rightarrow> if t = AT_NULL then Some [] else map_option (\<lambda>r. (t, v) # r) (read_auxv n img (a + 16))
      | _ \<Rightarrow> None)"

record startup =
  su_argc :: u64
  su_argv :: "u64 list"
  su_envp :: "u64 list"
  su_auxv :: "(u64 \<times> u64) list"

text \<open>Start-up code finds the argument count at the stack pointer, then the arguments, the
  environment and the auxiliary vector; \<open>n\<close> bounds the length of each.\<close>

definition read_startup :: "nat \<Rightarrow> (u64 \<rightharpoonup> u8) \<Rightarrow> u64 \<Rightarrow> startup option" where
  "read_startup n img sp =
     (case image_word img sp of
        None \<Rightarrow> None
      | Some argc \<Rightarrow>
          (case read_vector n img (sp + 8) of
             None \<Rightarrow> None
           | Some (argv, a) \<Rightarrow>
               (case read_vector n img a of
                  None \<Rightarrow> None
                | Some (envp, b) \<Rightarrow>
                    map_option (\<lambda>auxv. \<lparr>su_argc = argc, su_argv = argv, su_envp = envp, su_auxv = auxv\<rparr>)
                      (read_auxv n img b))))"

text \<open>What the set-up makes of an image.\<close>

definition stack_image :: "ElfFile \<Rightarrow> (u64 \<rightharpoonup> u8) \<Rightarrow> (u64 \<rightharpoonup> u8)" where
  "stack_image elf img =
     fold (\<lambda>(a, w). image_store a (le_bytes 8 w))
       (stack_writes initial_sp (load_base elf + ph_offset elf) (ucast (ph_entry_size elf)) (ucast (ph_count elf))
          (load_base elf + entry_point elf))
       (fold image_map stack_pages img)"

section \<open>Words of an image\<close>

lemma image_word_same: "image_word (image_store a (le_bytes 8 w) img) a = Some w"
proof -
  have "map (\<lambda>i. the (image_store a (le_bytes 8 w) img (a + of_nat i))) [0..<8] = le_bytes 8 w"
    by (rule nth_equalityI) (auto simp: image_store_def unat_of_nat_small)
  moreover have "le_word (le_bytes 8 w) = w" by (simp add: le_word_le_bytes)
  ultimately show ?thesis
    by (simp only: image_word_def) (auto simp: image_store_def unat_of_nat_small)
qed

lemma image_word_other:
  assumes "8 \<le> unat (b - a)" "8 \<le> unat (a - b)"
  shows "image_word (image_store a (le_bytes 8 w) img) b = image_word img b"
proof -
  have out: "\<not> unat (b + of_nat i - a) < 8" if i: "i < 8" for i :: nat
  proof
    define d where "d = b + of_nat i - a"
    assume "unat (b + of_nat i - a) < 8"
    then have l: "unat d < 8" by (simp add: d_def)
    have ui: "unat (of_nat i :: u64) = i" using i by (intro unat_of_nat_small) simp
    have e: "b - a = d - of_nat i" "a - b = of_nat i - d" by (simp_all add: d_def)
    show False
    proof (cases "of_nat i \<le> d")
      case True
      then show ?thesis using assms(1) l unfolding e by (simp add: unat_sub_small)
    next
      case False
      then have "d \<le> of_nat i" by simp
      then show ?thesis using assms(2) i ui unfolding e by (simp add: unat_sub_small)
    qed
  qed
  then have same: "image_store a (le_bytes 8 w) img (b + of_nat i) = img (b + of_nat i)" if "i < 8" for i
    using that by (simp add: image_store_def)
  then have m: "map (\<lambda>i. the (image_store a (le_bytes 8 w) img (b + of_nat i))) [0..<8] =
      map (\<lambda>i. the (img (b + of_nat i))) [0..<8]"
    by (intro map_cong) auto
  show ?thesis unfolding image_word_def m using same by simp
qed

text \<open>The start-up information that is on the stack.\<close>

lemma read_startup_stack_image:
  assumes "8 \<le> n"
  shows "read_startup n (stack_image elf img) initial_sp = Some
    \<lparr>su_argc = 0, su_argv = [], su_envp = [], su_auxv =
      [(AT_PHDR, load_base elf + ph_offset elf), (AT_PHENT, ucast (ph_entry_size elf)), (AT_PHNUM, ucast (ph_count elf)),
       (AT_PAGESZ, 4096), (AT_BASE, 0), (AT_ENTRY, load_base elf + entry_point elf), (AT_RANDOM, initial_sp + 240)]\<rparr>"
proof -
  obtain k where n: "n = Suc (Suc (Suc (Suc (Suc (Suc (Suc (Suc k)))))))"
    using assms by (metis add_2_eq_Suc add_Suc le_Suc_ex numeral_Bit0 numeral_One one_add_one plus_1_eq_Suc)
  show ?thesis
    unfolding n by (simp add: read_startup_def stack_image_def stack_writes_def initial_sp_def USER_STACK_BOTTOM_def
      image_word_same image_word_other AT_NULL_def AT_PHDR_def AT_PHENT_def AT_PHNUM_def AT_PAGESZ_def AT_BASE_def
      AT_ENTRY_def AT_RANDOM_def)
qed

section \<open>Setting up the stack\<close>

lemma stack_bounds:
  "4096 dvd unat (USER_STACK_BOTTOM - USER_STACK_SIZE)" "page_of (USER_STACK_BOTTOM - 1) = USER_STACK_BOTTOM - 4096"
  "USER_STACK_BOTTOM - USER_STACK_SIZE \<le> USER_STACK_BOTTOM - 4096" "4096 dvd unat (USER_STACK_BOTTOM - 4096)"
  "(USER_STACK_BOTTOM - 256) AND NOT 0xF = initial_sp"
  by (simp_all add: USER_STACK_BOTTOM_def USER_STACK_SIZE_def initial_sp_def page_of_def)

lemma set_stack_pages:
  "set stack_pages = {q. 4096 dvd unat q \<and> USER_STACK_BOTTOM - USER_STACK_SIZE \<le> q \<and> q \<le> USER_STACK_BOTTOM - 4096}"
  unfolding stack_pages_def by (rule set_pages_between [OF stack_bounds(1,4)])

text \<open>Every word is written within the top page of the stack.\<close>

lemma stack_writes_in_page:
  assumes "(a, w) \<in> set (stack_writes initial_sp phdr phent phnum entry)"
  shows "page_of a = USER_STACK_BOTTOM - 4096" "unat a mod 4096 + 8 \<le> 4096"
  using assms by (auto simp: stack_writes_def initial_sp_def USER_STACK_BOTTOM_def page_of_def)

context window_allocator
begin

lemma map_new_range:
  assumes x: "x86_64_ok x" and "owned x U s" "\<forall>page \<in> set pages. page \<in> U \<and> 4096 dvd unat page"
    "distinct pages" "set pages \<inter> dom (translate_page x (tables s)) = {}"
  shows "for_each (map_new_page x allocate hhdm m1 m2 flags) pages s = for_each (map_if_needed x allocate hhdm m1 m2 flags) pages s"
  using assms(2-)
proof (induction pages arbitrary: s)
  case (Cons q qs)
  have same: "map_new_page x allocate hhdm m1 m2 flags q s = map_if_needed x allocate hhdm m1 m2 flags q s"
    using Cons.prems(4) by (auto simp: map_if_needed_def)
  show ?case
  proof (cases "map_if_needed x allocate hhdm m1 m2 flags q s")
    case (Inr s1)
    have q: "q \<in> U" "4096 dvd unat q" using Cons.prems(2) by auto
    note e1 = map_if_needed_effect [OF x Cons.prems(1) q Inr]
    have "set qs \<inter> dom (translate_page x (tables s1)) = {}" using e1 Cons.prems(3,4) by auto
    then have "for_each (map_new_page x allocate hhdm m1 m2 flags) qs s1 = for_each (map_if_needed x allocate hhdm m1 m2 flags) qs s1"
      using Cons.IH [of s1] Cons.prems(2,3) e1 by auto
    then show ?thesis using same Inr by simp
  qed (simp add: same)
qed simp

lemma write_to_stack_effect:
  assumes x: "x86_64_ok x" and va: "virt_addr_new x a = Some a" and ok: "owned x U s"
    and p: "page_of a \<in> U" "page_of a \<in> dom (translate_page x (tables s))" "unat a mod 4096 + 8 \<le> 4096"
  shows "\<exists>m. write_to_stack x hhdm a v s = Inr (s\<lparr>vmem := m\<rparr>) \<and> owned x U (s\<lparr>vmem := m\<rparr>) \<and>
    user_image x hhdm U (s\<lparr>vmem := m\<rparr>) = image_store a (le_bytes 8 v) (user_image x hhdm U s)"
proof -
  obtain f where f: "translate_page x (tables s) (page_of a) = Some f" using p(2) by blast
  define d where "d = unat a mod 4096"
  have a: "a = page_of a + of_nat d" unfolding d_def by (rule page_plus_offset)
  have "write_to_stack x hhdm a v s = Inr (s\<lparr>vmem := store_bytes (vmem s) (f + hhdm + of_nat d) (le_bytes 8 v)\<rparr>)"
    using f by (simp add: write_to_stack_def page_at_ok [OF x va] store64_def offset_word [of a] d_def [symmetric])
  then show ?thesis
    using store_in_page [OF ok p(1) f page_of_aligned, of d "le_bytes 8 v"] p(3) a by (auto simp: d_def [symmetric])
qed

lemma write_words_effect:
  assumes x: "x86_64_ok x" and "owned x U s"
    "\<forall>(a, w) \<in> set ws. virt_addr_new x a = Some a \<and> page_of a \<in> U \<and>
       page_of a \<in> dom (translate_page x (tables s)) \<and> unat a mod 4096 + 8 \<le> 4096"
  shows "\<exists>m. for_each (\<lambda>(a, w). write_to_stack x hhdm a w) ws s = Inr (s\<lparr>vmem := m\<rparr>) \<and> owned x U (s\<lparr>vmem := m\<rparr>) \<and>
    user_image x hhdm U (s\<lparr>vmem := m\<rparr>) = fold (\<lambda>(a, w). image_store a (le_bytes 8 w)) ws (user_image x hhdm U s)"
  using assms(2-)
proof (induction ws arbitrary: s)
  case Nil
  have "s\<lparr>vmem := vmem s\<rparr> = s" by simp
  then show ?case using Nil by (intro exI [of _ "vmem s"]) simp
next
  case (Cons q ws)
  obtain a w where q: "q = (a, w)" by (cases q)
  obtain m where m: "write_to_stack x hhdm a w s = Inr (s\<lparr>vmem := m\<rparr>)" "owned x U (s\<lparr>vmem := m\<rparr>)"
    "user_image x hhdm U (s\<lparr>vmem := m\<rparr>) = image_store a (le_bytes 8 w) (user_image x hhdm U s)"
    using write_to_stack_effect [OF x _ Cons.prems(1), of a w] Cons.prems(2) by (auto simp: q)
  obtain m' where "for_each (\<lambda>(a, w). write_to_stack x hhdm a w) ws (s\<lparr>vmem := m\<rparr>) = Inr (s\<lparr>vmem := m'\<rparr>)"
    "owned x U (s\<lparr>vmem := m'\<rparr>)" "user_image x hhdm U (s\<lparr>vmem := m'\<rparr>) =
       fold (\<lambda>(a, w). image_store a (le_bytes 8 w)) ws (user_image x hhdm U (s\<lparr>vmem := m\<rparr>))"
    using Cons.IH [OF m(2)] Cons.prems(2) by auto
  then show ?case using m by (intro exI [of _ m']) (simp add: q)
qed

lemma setup_user_stack_effect:
  assumes x: "x86_64_ok x" "map_to_progress x allocate avail U" and va: "\<forall>a. page_of a \<in> U \<longrightarrow> virt_addr_new x a = Some a"
    and ok: "owned x U s" and elf: "elf_file_new bytes = Some elf"
    and pages: "set stack_pages \<subseteq> U" "set stack_pages \<inter> dom (translate_page x (tables s)) = {}"
    and frames: "4 * length stack_pages \<le> card (avail (manager s, vmem s))"
  shows "\<exists>s'. setup_user_stack elf_file_new x allocate hhdm bytes s = Inr (initial_sp, s') \<and> owned x U s' \<and>
    user_image x hhdm U s' = stack_image elf (user_image x hhdm U s) \<and>
    flags_of x (tables s') = (\<lambda>q. if q \<in> set stack_pages then pool_flags else flags_of x (tables s) q)"
proof -
  have pg: "\<forall>q \<in> set stack_pages. q \<in> U \<and> 4096 dvd unat q" using pages(1) by (auto simp: set_stack_pages)
  have ends: "USER_STACK_BOTTOM - USER_STACK_SIZE \<in> set stack_pages" "USER_STACK_BOTTOM - 4096 \<in> set stack_pages"
    using stack_bounds by (simp_all add: set_stack_pages)
  have at: "page_at x (USER_STACK_BOTTOM - USER_STACK_SIZE) = Inr (USER_STACK_BOTTOM - USER_STACK_SIZE)"
    "page_at x (USER_STACK_BOTTOM - 1) = Inr (USER_STACK_BOTTOM - 4096)"
    using page_at_ok [OF x(1), of "USER_STACK_BOTTOM - USER_STACK_SIZE"] page_at_ok [OF x(1), of "USER_STACK_BOTTOM - 1"]
      va pages(1) ends stack_bounds page_of_page by auto
  let ?map = "map_if_needed x allocate hhdm ''Failed to allocate frame for user stack'' ''Failed to map user stack page'' pool_flags"
  obtain s1 where s1: "for_each ?map stack_pages s = Inr s1" using map_range_progress [OF x ok pg frames] by blast
  note e1 = map_range_effect [OF x(1) ok pg s1]
  have new: "for_each (map_new_page x allocate hhdm ''Failed to allocate frame for user stack'' ''Failed to map user stack page''
      pool_flags) stack_pages s = Inr s1"
    using map_new_range [OF x(1) ok pg] s1 pages(2) by (simp add: stack_pages_def distinct_pages_between)
  let ?ws = "stack_writes initial_sp (load_base elf + ph_offset elf) (ucast (ph_entry_size elf)) (ucast (ph_count elf))
    (load_base elf + entry_point elf)"
  have "virt_addr_new x a = Some a \<and> page_of a \<in> U \<and> page_of a \<in> dom (translate_page x (tables s1)) \<and> unat a mod 4096 + 8 \<le> 4096"
    if "(a, w) \<in> set ?ws" for a w
    using stack_writes_in_page [OF that] ends(2) pages(1) va e1 by auto
  then obtain m where m: "for_each (\<lambda>(a, w). write_to_stack x hhdm a w) ?ws s1 = Inr (s1\<lparr>vmem := m\<rparr>)" "owned x U (s1\<lparr>vmem := m\<rparr>)"
    "user_image x hhdm U (s1\<lparr>vmem := m\<rparr>) = fold (\<lambda>(a, w). image_store a (le_bytes 8 w)) ?ws (user_image x hhdm U s1)"
    using write_words_effect [OF x(1) conjunct1 [OF e1], of ?ws] by auto
  have "page_of initial_sp = USER_STACK_BOTTOM - 4096" by (simp add: initial_sp_def USER_STACK_BOTTOM_def page_of_def)
  then have "virt_addr_new x initial_sp = Some initial_sp" using va ends(2) pages(1) by auto
  moreover have "range_inclusive x (USER_STACK_BOTTOM - USER_STACK_SIZE) (USER_STACK_BOTTOM - 4096) = stack_pages"
    using x(1) by (simp add: x86_64_ok_def stack_pages_def)
  ultimately have "setup_user_stack elf_file_new x allocate hhdm bytes s = Inr (initial_sp, s1\<lparr>vmem := m\<rparr>)"
    using at new m(1) elf unfolding setup_user_stack_def Let_def stack_bounds(5)
    by (simp add: load_base_def [symmetric] pool_flags_def [symmetric])
  moreover have "flags_of x (tables s1) = (\<lambda>q. if q \<in> set stack_pages then pool_flags else flags_of x (tables s) q)"
  proof -
    have "set stack_pages - dom (translate_page x (tables s)) = set stack_pages" using pages(2) by blast
    then show ?thesis using e1 by metis
  qed
  moreover have "user_image x hhdm U s1 = fold image_map stack_pages (user_image x hhdm U s)" using e1 by blast
  ultimately show ?thesis using m(2,3) by (intro exI [of _ "s1\<lparr>vmem := m\<rparr>"]) (simp add: stack_image_def)
qed

end

end
