(* ===== verification/User_Process.thy ===== *)
theory User_Process
  imports User_Stack
begin

text \<open>
  A user program made ready to run: \<open>load_user_elf\<close> and then \<open>setup_user_stack\<close>, on the frames of
  the physical memory manager, as the kernel entry does it. The theorems say what the program finds
  when it starts: the image of its executable, the flags of its pages and its start-up information.
\<close>

definition start_user_process ::
  "(u8 list \<Rightarrow> ElfFile option) \<Rightarrow> ('pt, 'a) x86_64 \<Rightarrow> 'a allocator \<Rightarrow> u64 \<Rightarrow> u8 list \<Rightarrow> ('pt, 'a) vm \<Rightarrow>
   panic + (u64 \<times> u64 \<times> ('pt, 'a) vm)" where
  "start_user_process elf_file_new x allocate hhdm USER_ELF_BYTES s =
     and_then (load_user_elf elf_file_new x allocate hhdm USER_ELF_BYTES s) (\<lambda>(entry_point, s).
     and_then (setup_user_stack elf_file_new x allocate hhdm USER_ELF_BYTES s) (\<lambda>(user_stack_top, s).
       Inr (entry_point, user_stack_top, s)))"

text \<open>An executable for the pages \<open>U\<close> of user space: its segments, the pools and the stack lie
  there, and no segment or pool meets the stack.\<close>

definition elf_ok :: "u64 set \<Rightarrow> ElfFile \<Rightarrow> bool" where
  "elf_ok U elf \<longleftrightarrow>
     elf_magic elf = [0x7F, 0x45, 0x4C, 0x46] \<and>
     (\<forall>ph \<in> set (load_headers elf). segment_ok U elf (load_base elf) ph) \<and>
     page_of (load_base elf + entry_point elf) \<in> U \<and>
     set pool_pages \<subseteq> U \<and> set heap_pages \<subseteq> U \<and> set stack_pages \<subseteq> U \<and> set stack_pages \<inter> elf_pages elf = {}"

text \<open>The machine before: the memory manager is in order and has \<open>n\<close> frames, the addresses of user
  space are canonical, and nothing is mapped there yet.\<close>

definition user_space_empty ::
  "('pt, BitmapPmm) x86_64 \<Rightarrow> u64 \<Rightarrow> u64 set \<Rightarrow> nat \<Rightarrow> ('pt, BitmapPmm) vm \<Rightarrow> bool" where
  "user_space_empty x hhdm U n s \<longleftrightarrow>
     pmm_window_inv hhdm (manager s, vmem s) \<and> n \<le> card (pmm_avail (manager s, vmem s)) \<and>
     (\<forall>a. page_of a \<in> U \<longrightarrow> virt_addr_new x a = Some a) \<and>
     (\<forall>q \<in> U. translate_page x (tables s) q = None)"

lemma user_space_empty_owned:
  "user_space_empty x hhdm U n s \<Longrightarrow> pmmw.owned hhdm x U s"
  by (auto simp: user_space_empty_def pmmw.owned_def)

lemma user_space_empty_image: "user_space_empty x hhdm U n s \<Longrightarrow> user_image x hhdm U s = Map.empty"
  by (auto simp: user_space_empty_def user_image_def)

lemma elf_pages_in:
  assumes "elf_ok U elf"
  shows "elf_pages elf \<subseteq> U"
  using assms by (auto simp: elf_ok_def elf_pages_def segment_covers_def segment_ok_def)

lemma start_user_process_effect:
  assumes x: "x86_64_ok x" "map_to_progress x allocate_frame pmm_avail U" and elf: "elf_file_new bytes = Some elf" "elf_ok U elf"
    and s: "user_space_empty x hhdm U (4 * (elf_page_count elf + length stack_pages)) s"
  shows "\<exists>s'. start_user_process elf_file_new x allocate_frame hhdm bytes s = Inr (load_base elf + entry_point elf, initial_sp, s') \<and>
    pmmw.owned hhdm x U s' \<and> user_image x hhdm U s' = stack_image elf (elf_image elf) \<and>
    (\<forall>q \<in> elf_pages elf. flags_of x (tables s') q = elf_page_flags elf q) \<and>
    (\<forall>q \<in> set stack_pages. flags_of x (tables s') q = pool_flags)"
proof -
  note owned = user_space_empty_owned [OF s] and empty = user_space_empty_image [OF s]
  have va: "\<forall>a. page_of a \<in> U \<longrightarrow> virt_addr_new x a = Some a" and none: "\<forall>q \<in> U. translate_page x (tables s) q = None"
    and frames: "4 * (elf_page_count elf + length stack_pages) \<le> card (pmm_avail (manager s, vmem s))"
    using s by (auto simp: user_space_empty_def)
  have e: "elf_magic elf = [0x7F, 0x45, 0x4C, 0x46]" "\<forall>ph \<in> set (load_headers elf). segment_ok U elf (load_base elf) ph"
    "virt_addr_new x (load_base elf + entry_point elf) = Some (load_base elf + entry_point elf)"
    "set pool_pages \<subseteq> U" "set heap_pages \<subseteq> U" "set stack_pages \<subseteq> U" "set stack_pages \<inter> elf_pages elf = {}"
    using elf(2) va by (auto simp: elf_ok_def)
  have fresh: "\<forall>q \<in> elf_pages elf. translate_page x (tables s) q = None" using elf_pages_in [OF elf(2)] none by blast
  have "4 * elf_page_count elf \<le> card (pmm_avail (manager s, vmem s))" using frames by simp
  from pmmw.load_user_elf_effect [where bytes = bytes and elf_file_new = elf_file_new, OF x va owned fresh elf(1) e(1-5) this]
  obtain s1 where s1: "load_user_elf elf_file_new x allocate_frame hhdm bytes s = Inr (load_base elf + entry_point elf, s1)"
    "pmmw.owned hhdm x U s1" "user_image x hhdm U s1 = elf_image elf"
    "card (pmm_avail (manager s, vmem s)) \<le> card (pmm_avail (manager s1, vmem s1)) + 4 * elf_page_count elf"
    "dom (translate_page x (tables s1)) = elf_pages elf \<union> dom (translate_page x (tables s))"
    "\<forall>q. flags_of x (tables s1) q = (if q \<in> elf_pages elf then elf_page_flags elf q else flags_of x (tables s) q)"
    unfolding empty elf_image_def [symmetric] by blast
  have "set stack_pages \<inter> dom (translate_page x (tables s1)) = {}" using s1(5) e(6,7) none by auto
  moreover have "4 * length stack_pages \<le> card (pmm_avail (manager s1, vmem s1))" using frames s1(4) by simp
  ultimately obtain s2 where s2: "setup_user_stack elf_file_new x allocate_frame hhdm bytes s1 = Inr (initial_sp, s2)"
    "pmmw.owned hhdm x U s2" "user_image x hhdm U s2 = stack_image elf (user_image x hhdm U s1)"
    "flags_of x (tables s2) = (\<lambda>q. if q \<in> set stack_pages then pool_flags else flags_of x (tables s1) q)"
    using pmmw.setup_user_stack_effect [where bytes = bytes and elf_file_new = elf_file_new, OF x va s1(2) elf(1) e(6)] by blast
  have "start_user_process elf_file_new x allocate_frame hhdm bytes s = Inr (load_base elf + entry_point elf, initial_sp, s2)"
    using s1(1) s2(1) by (simp add: start_user_process_def)
  moreover have "flags_of x (tables s2) q = elf_page_flags elf q" if "q \<in> elf_pages elf" for q
    using that s2(4) s1(6) e(7) by auto
  ultimately show ?thesis using s2(2-4) s1(3) by auto
qed

text \<open>Any pages \<open>V\<close> around user space, with the frames behind them, keep their frames to themselves, and memory set apart is left alone.\<close>

lemma start_user_process_owned:
  assumes x: "x86_64_ok x" "map_to_progress x allocate_frame pmm_avail V" and elf: "elf_file_new bytes = Some elf" "elf_ok V elf"
    and va: "\<forall>a. page_of a \<in> V \<longrightarrow> virt_addr_new x a = Some a" and owned: "guard.owned hhdm A s0 x V s"
    and fresh: "\<forall>q \<in> elf_pages elf \<union> set stack_pages. translate_page x (tables s) q = None"
    and frames: "4 * (elf_page_count elf + length stack_pages) \<le> card (pmm_avail (manager s, vmem s))"
    and run: "start_user_process elf_file_new x allocate_frame hhdm bytes s = Inr (entry, sp, s')"
  shows "guard.owned hhdm A s0 x V s'"
proof -
  have e: "elf_magic elf = [0x7F, 0x45, 0x4C, 0x46]" "\<forall>ph \<in> set (load_headers elf). segment_ok V elf (load_base elf) ph"
    "virt_addr_new x (load_base elf + entry_point elf) = Some (load_base elf + entry_point elf)"
    "set pool_pages \<subseteq> V" "set heap_pages \<subseteq> V" "set stack_pages \<subseteq> V" "set stack_pages \<inter> elf_pages elf = {}"
    using elf(2) va by (auto simp: elf_ok_def)
  have "\<forall>q \<in> elf_pages elf. translate_page x (tables s) q = None" "4 * elf_page_count elf \<le> card (pmm_avail (manager s, vmem s))"
    using fresh frames by auto
  from guard.load_user_elf_effect [where bytes = bytes and elf_file_new = elf_file_new, OF x va owned this(1) elf(1) e(1-5) this(2)]
  obtain s1 where s1: "load_user_elf elf_file_new x allocate_frame hhdm bytes s = Inr (load_base elf + entry_point elf, s1)"
    "guard.owned hhdm A s0 x V s1"
    "card (pmm_avail (manager s, vmem s)) \<le> card (pmm_avail (manager s1, vmem s1)) + 4 * elf_page_count elf"
    "dom (translate_page x (tables s1)) = elf_pages elf \<union> dom (translate_page x (tables s))" by blast
  have "set stack_pages \<inter> dom (translate_page x (tables s1)) = {}" unfolding s1(4) using e(7) fresh by auto
  moreover have "4 * length stack_pages \<le> card (pmm_avail (manager s1, vmem s1))" using frames s1(3) by simp
  ultimately obtain s2 where "setup_user_stack elf_file_new x allocate_frame hhdm bytes s1 = Inr (initial_sp, s2)" "guard.owned hhdm A s0 x V s2"
    using guard.setup_user_stack_effect [where bytes = bytes and elf_file_new = elf_file_new, OF x va s1(2) elf(1) e(6)] by blast
  then show ?thesis using run s1(1) by (simp add: start_user_process_def)
qed

section \<open>The bytes of the segments\<close>

text \<open>The memory of two segments is disjoint.\<close>

definition segments_apart :: "ElfFile \<Rightarrow> bool" where
  "segments_apart elf \<longleftrightarrow>
     sorted_wrt (\<lambda>p q. apart (load_base elf + virtual_addr p) (unat (mem_size p)) (load_base elf + virtual_addr q) (unat (mem_size q)))
       (load_headers elf)"

definition in_file_part :: "u64 \<Rightarrow> u64 \<Rightarrow> ProgramHeader \<Rightarrow> bool" where
  "in_file_part base a ph \<longleftrightarrow> in_range (base + virtual_addr ph) (unat (file_size ph)) a"

lemma length_segment_data: "segment_ok U elf base ph \<Longrightarrow> length (segment_data elf ph) = unat (file_size ph)"
  by (auto simp: segment_ok_def segment_data_def)

lemma image_segment_at:
  assumes "segment_ok U elf base ph"
  shows "image_segment elf base ph img a =
    (if in_file_part base a ph then Some (elf_input elf ! (unat (ph_file_offset ph) + unat (a - (base + virtual_addr ph))))
     else if segment_covers base (page_of a) ph \<and> img a = None then Some 0 else img a)"
proof -
  have "in_file_part base a ph \<Longrightarrow> mem_size ph \<noteq> 0"
    using assms by (auto simp: in_file_part_def in_range_def segment_ok_def word_le_nat_alt)
  moreover have "segment_data elf ph ! unat (a - (base + virtual_addr ph)) =
      elf_input elf ! (unat (ph_file_offset ph) + unat (a - (base + virtual_addr ph)))" if "in_file_part base a ph"
    using that assms by (simp add: segment_data_def in_file_part_def in_range_def segment_ok_def)
  ultimately show ?thesis
    using length_segment_data [OF assms]
    by (auto simp: image_segment_def image_store_def fold_image_map in_file_part_def in_range_def segment_covers_def)
qed

lemma image_segments_elsewhere:
  assumes "\<forall>ph \<in> set phs. segment_ok U elf base ph" "\<forall>ph \<in> set phs. \<not> in_file_part base a ph"
  shows "fold (image_segment elf base) phs img a =
    (if img a = None \<and> (\<exists>ph \<in> set phs. segment_covers base (page_of a) ph) then Some 0 else img a)"
  using assms by (induction phs arbitrary: img) (auto simp: image_segment_at split: if_splits)

lemma image_segments_at:
  assumes "\<forall>ph \<in> set (ps @ ph # qs). segment_ok U elf base ph" "in_file_part base a ph"
    "\<forall>q \<in> set qs. \<not> in_file_part base a q"
  shows "fold (image_segment elf base) (ps @ ph # qs) img a =
    Some (elf_input elf ! (unat (ph_file_offset ph) + unat (a - (base + virtual_addr ph))))"
proof -
  have "segment_ok U elf base ph" using assms(1) by simp
  then show ?thesis
    using assms image_segments_elsewhere [of qs U elf base a] image_segment_at [of U elf base ph _ a] by simp
qed

text \<open>An address in the memory of one segment is in the file part of no other.\<close>

lemma apart_file_part:
  assumes "apart (base + virtual_addr p) (unat (mem_size p)) (base + virtual_addr q) (unat (mem_size q))"
    "segment_ok U elf base q" "i < unat (mem_size p)"
  shows "\<not> in_file_part base (base + virtual_addr p + of_nat i) q"
proof -
  have "apart (base + virtual_addr q) (unat (file_size q)) (base + virtual_addr p) (unat (mem_size p))"
    using assms(1,2) by (auto simp: apart_def segment_ok_def word_le_nat_alt)
  then show ?thesis unfolding in_file_part_def using assms(3) by (rule apart_not_in_range)
qed

lemma segment_bytes:
  assumes ok: "\<forall>ph \<in> set (load_headers elf). segment_ok U elf (load_base elf) ph" and ap: "segments_apart elf"
    and ph: "ph \<in> set (load_headers elf)" and i: "i < unat (mem_size ph)"
  shows "fold (image_segment elf (load_base elf)) (load_headers elf) Map.empty (load_base elf + virtual_addr ph + of_nat i) =
    Some (if i < unat (file_size ph) then elf_input elf ! (unat (ph_file_offset ph) + i) else 0)"
proof -
  let ?b = "load_base elf"
  let ?a = "?b + virtual_addr ph + of_nat i"
  obtain ps qs where sp: "load_headers elf = ps @ ph # qs" using split_list [OF ph] by blast
  have okh: "segment_ok U elf ?b ph" using ok ph by blast
  have lt: "i < 2 ^ 64" using i unat_lt_64 [of "mem_size ph"] by linarith
  have here: "in_file_part ?b ?a ph \<longleftrightarrow> i < unat (file_size ph)"
    using lt by (simp add: in_file_part_def in_range_def unat_of_nat_small)
  have others: "\<not> in_file_part ?b ?a q" if "q \<in> set ps \<union> set qs" for q
    using that ap ok sp i apart_file_part [of ?b ph q U elf i]
    unfolding segments_apart_def sp sorted_wrt_append by (auto simp: apart_sym)
  show ?thesis
  proof (cases "i < unat (file_size ph)")
    case True
    have "fold (image_segment elf ?b) (load_headers elf) Map.empty ?a =
        Some (elf_input elf ! (unat (ph_file_offset ph) + unat (?a - (?b + virtual_addr ph))))"
      unfolding sp using ok others here True by (intro image_segments_at [where U = U]) (auto simp: sp)
    then show ?thesis using True lt by (simp add: unat_of_nat_small)
  next
    case False
    have "segment_covers ?b (page_of ?a) ph"
      using segment_page [of ?b ph i] okh i by (auto simp: segment_covers_def segment_ok_def)
    moreover have "\<forall>q \<in> set (load_headers elf). \<not> in_file_part ?b ?a q" using others here False by (auto simp: sp)
    ultimately show ?thesis
      using image_segments_elsewhere [OF ok, of ?a Map.empty] False ph by auto
  qed
qed

section \<open>The stack and the segments\<close>

lemma image_store_other_page:
  assumes "unat b mod 4096 + length bs \<le> 4096" "page_of a \<noteq> page_of b"
  shows "image_store b bs img a = img a"
proof -
  define d where "d = unat b mod 4096"
  have b: "b = page_of b + of_nat d" unfolding d_def by (rule page_plus_offset)
  have "\<not> unat (a - b) < length bs"
  proof
    assume "unat (a - b) < length bs"
    then have "d + unat (a - b) < 4096" using assms(1) by (simp add: d_def)
    moreover have "a = page_of b + of_nat (d + unat (a - b))"
    proof -
      have "a = b + of_nat (unat (a - b))" by simp
      also have "\<dots> = page_of b + of_nat (d + unat (a - b))" by (subst b) (simp only: of_nat_add add.assoc)
      finally show ?thesis .
    qed
    ultimately show False using page_of_add(1) [OF page_of_aligned [of b]] assms(2) by metis
  qed
  then show ?thesis by (simp add: image_store_def)
qed

lemma stack_image_elsewhere:
  assumes "page_of a \<notin> set stack_pages"
  shows "stack_image elf img a = img a"
proof -
  have pa: "page_of a \<noteq> USER_STACK_BOTTOM - 4096" using assms stack_bounds(3,4) by (auto simp: set_stack_pages)
  have "fold (\<lambda>(b, w). image_store b (le_bytes 8 w)) ws im a = im a"
    if "\<forall>(b, w) \<in> set ws. page_of b = USER_STACK_BOTTOM - 4096 \<and> unat b mod 4096 + 8 \<le> 4096" for ws im
    using that by (induction ws arbitrary: im) (auto simp: image_store_other_page pa)
  moreover have "\<forall>(b, w) \<in> set (stack_writes initial_sp p q r e). page_of b = USER_STACK_BOTTOM - 4096 \<and> unat b mod 4096 + 8 \<le> 4096"
    for p q r e using stack_writes_in_page by fast
  ultimately have "stack_image elf img a = fold image_map stack_pages img a" unfolding stack_image_def by blast
  then show ?thesis using assms by (simp add: fold_image_map)
qed

text \<open>The words end below offset 160; the bytes for \<open>AT_RANDOM\<close> are at offset 240.\<close>

lemma stack_writes_below: "\<forall>(b, w) \<in> set (stack_writes initial_sp p q r e). unat (b - initial_sp) + 8 \<le> 160"
  by (simp add: stack_writes_def initial_sp_def USER_STACK_BOTTOM_def)

lemma image_store_above:
  assumes "unat (b - sp) + length bs \<le> j" "j < 2 ^ 64"
  shows "image_store b bs img (sp + of_nat j) = img (sp + of_nat j)"
proof -
  have "sp + of_nat j - b = of_nat j - (b - sp)" by simp
  moreover have "b - sp \<le> of_nat j" using assms by (simp add: word_le_nat_alt unat_of_nat_small)
  ultimately have "unat (sp + of_nat j - b) = j - unat (b - sp)"
    using assms(2) by (simp only: unat_sub_small unat_of_nat_small)
  then have "\<not> unat (sp + of_nat j - b) < length bs" using assms(1) by linarith
  then show ?thesis by (simp only: image_store_def if_False)
qed

lemma stack_image_random:
  assumes "i < 16" "\<forall>a. page_of a \<in> set stack_pages \<longrightarrow> img a = None"
  shows "stack_image elf img (initial_sp + of_nat (240 + i)) = Some 0"
proof -
  let ?a = "initial_sp + of_nat (240 + i)"
  have "fold (\<lambda>(b, w). image_store b (le_bytes 8 w)) ws im ?a = im ?a"
    if "\<forall>(b, w) \<in> set ws. unat (b - initial_sp) + 8 \<le> 160" for ws im
    using that assms(1) by (induction ws arbitrary: im) (auto simp: image_store_above simp del: of_nat_add)
  then have "stack_image elf img ?a = fold image_map stack_pages img ?a"
    unfolding stack_image_def using stack_writes_below by blast
  moreover have "page_of ?a \<in> set stack_pages"
  proof -
    have sp: "initial_sp = USER_STACK_BOTTOM - 4096 + of_nat 3840" by (simp add: initial_sp_def)
    have a: "?a = USER_STACK_BOTTOM - 4096 + of_nat (3840 + (240 + i))"
      unfolding sp by (simp only: of_nat_add add.assoc)
    have "page_of ?a = USER_STACK_BOTTOM - 4096"
      unfolding a by (rule page_of_add(1) [OF stack_bounds(4)]) (use assms(1) in simp)
    then show ?thesis using stack_bounds(3,4) by (simp add: set_stack_pages)
  qed
  ultimately show ?thesis using assms(2) by (simp add: fold_image_map)
qed

text \<open>A byte of the file lies on a page of its segment.\<close>

lemma file_part_covered:
  assumes "segment_ok U elf base ph" "in_file_part base a ph"
  shows "segment_covers base (page_of a) ph"
proof -
  define i where "i = unat (a - (base + virtual_addr ph))"
  have "i < unat (mem_size ph)" "a = base + virtual_addr ph + of_nat i"
    using assms by (auto simp: in_file_part_def in_range_def segment_ok_def word_le_nat_alt i_def)
  then show ?thesis using segment_page [of base ph i] assms(1) by (auto simp: segment_covers_def segment_ok_def)
qed

lemma image_segments_uncovered:
  assumes "\<forall>ph \<in> set phs. segment_ok U elf base ph" "\<forall>ph \<in> set phs. \<not> segment_covers base (page_of a) ph"
  shows "fold (image_segment elf base) phs Map.empty a = None"
  using assms file_part_covered [of U elf base _ a] by (subst image_segments_elsewhere [OF assms(1)]) auto

lemma elf_image_pages: "\<forall>ph \<in> set (load_headers elf). segment_ok U elf (load_base elf) ph \<Longrightarrow>
   page_of a \<notin> elf_pages elf \<Longrightarrow> elf_image elf a = None"
  using image_segments_uncovered [of "load_headers elf" U elf "load_base elf" a]
  by (auto simp: elf_image_def fold_image_map elf_pages_def)

lemma pool_page:
  assumes "0x480000 \<le> unat a" "unat a < 0x500000"
  shows "page_of a \<in> set pool_pages"
proof -
  have "0x480000 \<le> unat (page_of a)" "unat (page_of a) \<le> 0x4FF000"
    using assms page_split [of a] by (auto simp: unat_page_of)
  then show ?thesis
    unfolding pool_pages_def by (subst set_pages_between) (auto simp: MMAP_POOL_START_def MMAP_POOL_END_def word_le_nat_alt)
qed

text \<open>The pool for \<open>mmap\<close> is zeroed memory of the program, where no segment reaches into it.\<close>

lemma pool_byte:
  assumes ok: "elf_ok U elf" and q: "page_of a \<in> set pool_pages"
    and free: "\<forall>ph \<in> set (load_headers elf). \<not> segment_covers (load_base elf) (page_of a) ph"
  shows "stack_image elf (elf_image elf) a = Some 0" "elf_page_flags elf (page_of a) = pool_flags" "page_of a \<in> elf_pages elf"
proof -
  have segs: "\<forall>ph \<in> set (load_headers elf). segment_ok U elf (load_base elf) ph" and "set stack_pages \<inter> elf_pages elf = {}"
    using ok by (auto simp: elf_ok_def)
  then have "page_of a \<notin> set stack_pages" using q by (auto simp: elf_pages_def)
  then show "stack_image elf (elf_image elf) a = Some 0"
    using image_segments_uncovered [OF segs free] q by (simp add: stack_image_elsewhere elf_image_def fold_image_map)
  have "find (segment_covers (load_base elf) (page_of a)) (load_headers elf) = None" using free by (simp add: find_None_iff)
  then show "elf_page_flags elf (page_of a) = pool_flags" by (simp add: elf_page_flags_def)
  show "page_of a \<in> elf_pages elf" using q by (simp add: elf_pages_def)
qed

section \<open>An example\<close>

text \<open>An executable with one segment of four bytes and zeros after them.\<close>

definition ex_segment :: ProgramHeader where
  "ex_segment = \<lparr>ph_type = Some Load, virtual_addr = 0x401000, mem_size = 16, file_size = 4, ph_file_offset = 0,
     ph_is_write = False, ph_is_execute = True\<rparr>"

definition ex_elf :: ElfFile where
  "ex_elf = \<lparr>elf_magic = [0x7F, 0x45, 0x4C, 0x46], is_shared_object = False, entry_point = 0x401000, ph_offset = 64,
     ph_count = 1, ph_entry_size = 56, program_iter = [ex_segment], rela_sections = [], elf_input = [0x7F, 0x45, 0x4C, 0x46]\<rparr>"

definition ex_parse :: "u8 list \<Rightarrow> ElfFile option" where
  "ex_parse bytes = (if bytes = elf_input ex_elf then Some ex_elf else None)"

definition ex_user_pages :: "u64 set" where
  "ex_user_pages = {q. 4096 dvd unat q \<and> 0x400000 \<le> q \<and> q < 0x800000000000}"

lemma ex_segment_pages: "segment_pages ex_segment 0 = [0x401000]"
  by (simp add: segment_pages_def ex_segment_def Let_def pages_between_def page_of_def)

lemma ex_load: "load_base ex_elf = 0" "load_headers ex_elf = [ex_segment]"
  by (simp_all add: ex_elf_def load_base_def load_headers_def ex_segment_def)

lemma ex_parse: "ex_parse (elf_input ex_elf) = Some ex_elf"
  by (simp add: ex_parse_def)

lemma ex_entry: "load_base ex_elf + entry_point ex_elf = 0x401000" "initial_sp = 0x7FFFFFFEFF00"
  by (simp_all add: ex_elf_def load_base_def initial_sp_def USER_STACK_BOTTOM_def)

lemma pages_below:
  assumes "4096 dvd unat p" "4096 dvd unat r" "0x400000 \<le> p" "r < 0x800000000000"
  shows "set (pages_between p r) \<subseteq> ex_user_pages"
proof
  fix q assume "q \<in> set (pages_between p r)"
  then have q: "4096 dvd unat q" "p \<le> q" "q \<le> r" using assms by (auto simp: set_pages_between)
  show "q \<in> ex_user_pages" using q(1) order_trans [OF assms(3) q(2)] le_less_trans [OF q(3) assms(4)] by (simp add: ex_user_pages_def)
qed

lemma ex_pages_in: "set pool_pages \<subseteq> ex_user_pages" "set heap_pages \<subseteq> ex_user_pages" "set stack_pages \<subseteq> ex_user_pages"
  unfolding pool_pages_def heap_pages_def stack_pages_def
  by (rule pages_below; simp add: MMAP_POOL_START_def MMAP_POOL_END_def HEAP_START_def HEAP_END_def
      USER_STACK_BOTTOM_def USER_STACK_SIZE_def)+

lemma ex_elf_ok: "elf_ok ex_user_pages ex_elf"
proof -
  have "set stack_pages \<inter> set pool_pages = {}" "set stack_pages \<inter> set heap_pages = {}"
    unfolding pool_pages_def heap_pages_def set_stack_pages
    by (auto simp: set_pages_between MMAP_POOL_START_def MMAP_POOL_END_def HEAP_START_def HEAP_END_def
        USER_STACK_BOTTOM_def USER_STACK_SIZE_def word_le_nat_alt)
  moreover have "0x401000 \<notin> set stack_pages"
    by (simp add: set_stack_pages USER_STACK_BOTTOM_def USER_STACK_SIZE_def)
  moreover have "segment_ok ex_user_pages ex_elf 0 ex_segment"
    by (simp add: segment_ok_def ex_segment_pages) (simp add: ex_segment_def ex_elf_def ex_user_pages_def)
  ultimately show ?thesis
    using ex_pages_in ex_segment_pages
    by (auto simp: elf_ok_def ex_load elf_pages_def segment_covers_def) (auto simp: ex_elf_def ex_user_pages_def page_of_def)
qed

lemma ex_page_count: "4 * (elf_page_count ex_elf + length stack_pages) = 1604"
  by (simp add: elf_page_count_def headers_page_count_def ex_load ex_segment_pages pool_pages_def heap_pages_def stack_pages_def
      pages_between_def MMAP_POOL_START_def MMAP_POOL_END_def HEAP_START_def HEAP_END_def USER_STACK_BOTTOM_def USER_STACK_SIZE_def)

lemma ex_user_space_empty:
  "user_space_empty ex_x86 0xFFFF800000000000 ex_user_pages (4 * (elf_page_count ex_elf + length stack_pages)) ex_vm"
  unfolding ex_page_count using ex_vm_pmm by (simp add: user_space_empty_def ex_x86_def) (simp add: ex_vm_def)

lemma ex_process_runs:
  "\<exists>s'. start_user_process ex_parse ex_x86 allocate_frame 0xFFFF800000000000 (elf_input ex_elf) ex_vm =
     Inr (0x401000, 0x7FFFFFFEFF00, s')"
  using start_user_process_effect [where elf_file_new = ex_parse, OF ex_x86_ok ex_progress ex_parse ex_elf_ok ex_user_space_empty]
  unfolding ex_entry by blast

section \<open>Properties\<close>

text \<open>C5. With enough free frames, \<open>load_user_elf\<close> followed by \<open>setup_user_stack\<close> succeeds for a sound
  executable, whatever its segments, and user space then is exactly the specified image: the segments in file order,
  zeroed pages for the \<open>mmap\<close> and \<open>brk\<close> pools, and the initial stack, with nothing else mapped and with
  the flags of the first segment, the pools or the stack on each page. The entry point is the relocated one.\<close>

theorem start_user_process_ready:
  assumes "x86_64_ok x" "map_to_progress x allocate_frame pmm_avail U" "elf_file_new bytes = Some elf" "elf_ok U elf"
    and "user_space_empty x hhdm U (4 * (elf_page_count elf + length stack_pages)) s"
  shows "\<exists>s'. start_user_process elf_file_new x allocate_frame hhdm bytes s =
      Inr (load_base elf + entry_point elf, initial_sp, s') \<and>
    user_image x hhdm U s' = stack_image elf (elf_image elf) \<and>
    (\<forall>q \<in> elf_pages elf. flags_of x (tables s') q = elf_page_flags elf q) \<and>
    (\<forall>q \<in> set stack_pages. flags_of x (tables s') q = pool_flags)"
  using start_user_process_effect [where elf_file_new = elf_file_new and bytes = bytes, OF assms] by blast

theorem start_user_process_ready_witness:
  "\<exists>s'. start_user_process ex_parse ex_x86 allocate_frame 0xFFFF800000000000 (elf_input ex_elf) ex_vm = Inr (0x401000, 0x7FFFFFFEFF00, s') \<and>
    user_image ex_x86 0xFFFF800000000000 ex_user_pages s' = stack_image ex_elf (elf_image ex_elf)"
  using start_user_process_ready [where elf_file_new = ex_parse, OF ex_x86_ok ex_progress ex_parse ex_elf_ok ex_user_space_empty]
  unfolding ex_entry by blast

text \<open>C10. What the program finds in its segments: when the segments are disjoint in memory, every byte of
  a segment reads as the byte of the file, up to the file size, and as zero from there to the memory size,
  also where segments share a page.\<close>

theorem program_sees_segments:
  assumes "x86_64_ok x" "map_to_progress x allocate_frame pmm_avail U" "elf_file_new bytes = Some elf" "elf_ok U elf"
    and "user_space_empty x hhdm U (4 * (elf_page_count elf + length stack_pages)) s"
    and "start_user_process elf_file_new x allocate_frame hhdm bytes s = Inr (entry, sp, s')"
    and "segments_apart elf" "ph \<in> set (load_headers elf)" "i < unat (mem_size ph)"
  shows "user_image x hhdm U s' (load_base elf + virtual_addr ph + of_nat i) =
    Some (if i < unat (file_size ph) then elf_input elf ! (unat (ph_file_offset ph) + i) else 0)"
proof -
  let ?a = "load_base elf + virtual_addr ph + of_nat i"
  have ok: "\<forall>ph \<in> set (load_headers elf). segment_ok U elf (load_base elf) ph" and st: "set stack_pages \<inter> elf_pages elf = {}"
    using assms(4) by (auto simp: elf_ok_def)
  have "segment_covers (load_base elf) (page_of ?a) ph"
    using segment_page [of "load_base elf" ph i] ok assms(8,9) by (auto simp: segment_covers_def segment_ok_def)
  then have "page_of ?a \<notin> set stack_pages" using st assms(8) by (auto simp: elf_pages_def)
  then have "user_image x hhdm U s' ?a = elf_image elf ?a"
    using start_user_process_effect [where elf_file_new = elf_file_new and bytes = bytes, OF assms(1-5)] assms(6) by (auto simp: stack_image_elsewhere)
  then show ?thesis using segment_bytes [OF ok assms(7-9)] by (simp add: elf_image_def fold_image_map)
qed

theorem program_sees_segments_witness:
  "\<exists>s'. start_user_process ex_parse ex_x86 allocate_frame 0xFFFF800000000000 (elf_input ex_elf) ex_vm = Inr (0x401000, 0x7FFFFFFEFF00, s') \<and>
    user_image ex_x86 0xFFFF800000000000 ex_user_pages s' 0x401001 = Some 0x45 \<and>
    user_image ex_x86 0xFFFF800000000000 ex_user_pages s' 0x401005 = Some 0"
proof -
  obtain s' where s': "start_user_process ex_parse ex_x86 allocate_frame 0xFFFF800000000000 (elf_input ex_elf) ex_vm =
      Inr (0x401000, 0x7FFFFFFEFF00, s')"
    using ex_process_runs by blast
  have "segments_apart ex_elf" "ex_segment \<in> set (load_headers ex_elf)" by (simp_all add: segments_apart_def ex_load)
  from program_sees_segments [where elf_file_new = ex_parse, OF ex_x86_ok ex_progress ex_parse ex_elf_ok ex_user_space_empty s' this, of 1]
    program_sees_segments [where elf_file_new = ex_parse, OF ex_x86_ok ex_progress ex_parse ex_elf_ok ex_user_space_empty s' this, of 5] s'
  show ?thesis by (simp add: ex_load) (simp add: ex_segment_def ex_elf_def)
qed

text \<open>C12. What the program finds on its stack: reading upwards from the stack pointer as the start-up code
  of a C library does gives no arguments, an empty environment and the auxiliary vector with the relocated program
  headers and entry point, the page size and a pointer to sixteen bytes, all zero, for \<open>AT_RANDOM\<close>. The stack
  pointer is aligned to 16 bytes.\<close>

theorem program_reads_startup:
  assumes "x86_64_ok x" "map_to_progress x allocate_frame pmm_avail U" "elf_file_new bytes = Some elf" "elf_ok U elf"
    and "user_space_empty x hhdm U (4 * (elf_page_count elf + length stack_pages)) s"
    and "start_user_process elf_file_new x allocate_frame hhdm bytes s = Inr (entry, sp, s')"
  shows "16 dvd unat sp \<and>
    read_startup 8 (user_image x hhdm U s') sp = Some
      \<lparr>su_argc = 0, su_argv = [], su_envp = [], su_auxv =
        [(AT_PHDR, load_base elf + ph_offset elf), (AT_PHENT, ucast (ph_entry_size elf)), (AT_PHNUM, ucast (ph_count elf)),
         (AT_PAGESZ, 4096), (AT_BASE, 0), (AT_ENTRY, entry), (AT_RANDOM, sp + of_nat 240)]\<rparr> \<and>
    (\<forall>i < 16. user_image x hhdm U s' (sp + of_nat (240 + i)) = Some 0)"
proof -
  have r: "entry = load_base elf + entry_point elf" "sp = initial_sp" "user_image x hhdm U s' = stack_image elf (elf_image elf)"
    using start_user_process_effect [where elf_file_new = elf_file_new and bytes = bytes, OF assms(1-5)] assms(6) by auto
  have "\<forall>a. page_of a \<in> set stack_pages \<longrightarrow> elf_image elf a = None"
    using assms(4) elf_image_pages [of elf U] unfolding elf_ok_def by blast
  then have "stack_image elf (elf_image elf) (initial_sp + of_nat (240 + i)) = Some 0" if "i < 16" for i
    using stack_image_random [OF that] by blast
  moreover have "16 dvd unat initial_sp" by (simp add: initial_sp_def USER_STACK_BOTTOM_def)
  ultimately show ?thesis unfolding r using read_startup_stack_image [of 8 elf "elf_image elf"] by simp
qed

theorem program_reads_startup_witness:
  "\<exists>s'. start_user_process ex_parse ex_x86 allocate_frame 0xFFFF800000000000 (elf_input ex_elf) ex_vm = Inr (0x401000, 0x7FFFFFFEFF00, s') \<and>
    map_option su_auxv (read_startup 8 (user_image ex_x86 0xFFFF800000000000 ex_user_pages s') 0x7FFFFFFEFF00) =
      Some [(AT_PHDR, 64), (AT_PHENT, 56), (AT_PHNUM, 1), (AT_PAGESZ, 4096), (AT_BASE, 0), (AT_ENTRY, 0x401000),
            (AT_RANDOM, 0x7FFFFFFEFFF0)]"
proof -
  obtain s' where s': "start_user_process ex_parse ex_x86 allocate_frame 0xFFFF800000000000 (elf_input ex_elf) ex_vm =
      Inr (0x401000, 0x7FFFFFFEFF00, s')" using ex_process_runs by blast
  from program_reads_startup [where elf_file_new = ex_parse, OF ex_x86_ok ex_progress ex_parse ex_elf_ok ex_user_space_empty s'] s'
  show ?thesis by (simp add: ex_load) (simp add: ex_elf_def)
qed

text \<open>C22. The rights of the program's pages: all of them are present and open to user mode; if no segment
  is both writable and executable, no page is, however the segments share pages; and a page with no segment on it
  (the pools and the stack) is writable and not executable.\<close>

theorem program_pages_write_xor_execute:
  assumes "x86_64_ok x" "map_to_progress x allocate_frame pmm_avail U" "elf_file_new bytes = Some elf" "elf_ok U elf"
    and "user_space_empty x hhdm U (4 * (elf_page_count elf + length stack_pages)) s"
    and "start_user_process elf_file_new x allocate_frame hhdm bytes s = Inr (entry, sp, s')"
    and "\<forall>ph \<in> set (load_headers elf). \<not> (ph_is_write ph \<and> ph_is_execute ph)"
    and "q \<in> elf_pages elf \<union> set stack_pages"
  shows "PRESENT \<in> flags_of x (tables s') q \<and> USER_ACCESSIBLE \<in> flags_of x (tables s') q \<and>
    (WRITABLE \<in> flags_of x (tables s') q \<longrightarrow> NO_EXECUTE \<in> flags_of x (tables s') q) \<and>
    ((\<forall>ph \<in> set (load_headers elf). \<not> segment_covers (load_base elf) q ph) \<longrightarrow>
       WRITABLE \<in> flags_of x (tables s') q \<and> NO_EXECUTE \<in> flags_of x (tables s') q)"
proof -
  have "flags_of x (tables s') q = (if q \<in> set stack_pages then pool_flags else elf_page_flags elf q)"
    using start_user_process_effect [where elf_file_new = elf_file_new and bytes = bytes, OF assms(1-5)] assms(6,8) by auto
  moreover have "ph \<in> set (load_headers elf) \<and> segment_covers (load_base elf) q ph"
    if "find (segment_covers (load_base elf) q) (load_headers elf) = Some ph" for ph
    using that by (metis find_Some_iff nth_mem)
  ultimately show ?thesis
    using assms(7) by (auto simp: pool_flags_def elf_page_flags_def segment_flags_def Let_def split: option.splits)
qed

theorem program_pages_write_xor_execute_witness:
  "\<exists>s'. start_user_process ex_parse ex_x86 allocate_frame 0xFFFF800000000000 (elf_input ex_elf) ex_vm = Inr (0x401000, 0x7FFFFFFEFF00, s') \<and>
    USER_ACCESSIBLE \<in> flags_of (ex_x86 :: (_, BitmapPmm) x86_64) (tables s') 0x7FFFFFFEF000"
proof -
  obtain s' where s': "start_user_process ex_parse ex_x86 allocate_frame 0xFFFF800000000000 (elf_input ex_elf) ex_vm =
      Inr (0x401000, 0x7FFFFFFEFF00, s')" using ex_process_runs by blast
  have "\<forall>ph \<in> set (load_headers ex_elf). \<not> (ph_is_write ph \<and> ph_is_execute ph)" by (simp add: ex_load ex_segment_def)
  moreover have "0x7FFFFFFEF000 \<in> elf_pages ex_elf \<union> set stack_pages"
    by (simp add: set_stack_pages USER_STACK_BOTTOM_def USER_STACK_SIZE_def)
  ultimately show ?thesis
    using program_pages_write_xor_execute [where elf_file_new = ex_parse, OF ex_x86_ok ex_progress ex_parse ex_elf_ok ex_user_space_empty s']
      s' by blast
qed

end
