(* ===== verification/Relocation.thy ===== *)
theory Relocation
  imports User_Process
begin

text \<open>
  The two relocation passes of \<open>kernel/src/elf_loader.rs\<close>, \<open>process_relocations\<close> and
  \<open>relocate_dynamic_segment\<close>, seen from the program: what its image holds after a pass over the relative
  relocations and over the dynamic table. The loader defines both passes and leaves the work to the runtime of
  the program; the theorems say what a call would do.
\<close>

section \<open>The specification\<close>

definition rela_entries :: "ElfFile \<Rightarrow> Rela list" where
  "rela_entries elf = concat (map (\<lambda>sec. case sec of None \<Rightarrow> [] | Some rs \<Rightarrow> rs) (rela_sections elf))"

definition relative_relas :: "ElfFile \<Rightarrow> Rela list" where
  "relative_relas elf = filter (\<lambda>r. r_type r = 8) (rela_entries elf)"

text \<open>A relocation that can be applied: its target lies in user space and does not cross the end of its page.\<close>

definition rela_ok :: "u64 set \<Rightarrow> u64 \<Rightarrow> Rela \<Rightarrow> bool" where
  "rela_ok U base r \<longleftrightarrow> page_of (base + r_offset r) \<in> U \<and> unat (base + r_offset r) mod 4096 + 8 \<le> 4096"

definition store_rela :: "u64 \<Rightarrow> Rela \<Rightarrow> (u64 \<rightharpoonup> u8) \<Rightarrow> (u64 \<rightharpoonup> u8)" where
  "store_rela base r = image_store (base + r_offset r) (le_bytes 8 (base + r_addend r))"

definition relas_apart :: "u64 \<Rightarrow> Rela list \<Rightarrow> bool" where
  "relas_apart base = sorted_wrt (\<lambda>p q. 8 \<le> unat (base + r_offset p - (base + r_offset q)) \<and> 8 \<le> unat (base + r_offset q - (base + r_offset p)))"

text \<open>The relocations whose page is mapped; the pass skips the others.\<close>

definition mapped_relas :: "('pt, 'a) x86_64 \<Rightarrow> 'pt \<Rightarrow> u64 \<Rightarrow> Rela list \<Rightarrow> Rela list" where
  "mapped_relas x pt base = filter (\<lambda>r. page_of (base + r_offset r) \<in> dom (translate_page x pt))"

text \<open>The dynamic table, up to a null tag or \<open>n\<close> entries.\<close>

fun read_dynamic :: "nat \<Rightarrow> (u64 \<rightharpoonup> u8) \<Rightarrow> u64 \<Rightarrow> (u64 \<times> u64) list option" where
  "read_dynamic 0 img a = Some []"
| "read_dynamic (Suc n) img a =
     (case (image_word img a, image_word img (a + 8)) of
        (Some t, Some v) \<Rightarrow> if t = 0 then Some [] else map_option (\<lambda>r. (t, v) # r) (read_dynamic n img (a + 16))
      | _ \<Rightarrow> None)"

definition relocated_entry :: "u64 \<Rightarrow> u64 \<times> u64 \<Rightarrow> u64 \<times> u64" where
  "relocated_entry base = (\<lambda>(t, v). (t, if is_address_tag t \<and> t \<noteq> 0x6ffffff9 \<and> v \<noteq> 0 then v + base else v))"

section \<open>Relative relocations\<close>

lemma process_relocations_flat:
  "process_relocations x hhdm elf base s =
     for_each (process_rela x hhdm base) (rela_entries elf) (s, \<lparr>total_relocs = 0, applied_relocs = 0, skipped_relocs = 0\<rparr>)"
proof -
  have "for_each (\<lambda>sec sc. case sec of Some rs \<Rightarrow> for_each f rs sc | None \<Rightarrow> Inr sc) secs sc =
      for_each f (concat (map (\<lambda>sec. case sec of None \<Rightarrow> [] | Some rs \<Rightarrow> rs) secs)) sc" for f secs and sc :: "'s"
  proof (induction secs arbitrary: sc)
    case (Cons sec secs)
    then show ?case by (cases sec) (simp_all add: for_each_append Cons [abs_def])
  qed simp
  then show ?thesis by (simp add: process_relocations_def rela_entries_def)
qed

lemma process_rela_other:
  "r_type r \<noteq> 8 \<Longrightarrow> process_rela x hhdm base r (s, c) = Inr (s, c\<lparr>total_relocs := usize_add (total_relocs c) 1\<rparr>)"
  by (simp add: process_rela_def)

text \<open>A relative relocation is one write of \<open>write_to_stack\<close> and its account.\<close>

lemma process_rela_relative:
  assumes "x86_64_ok x" "virt_addr_new x (base + r_offset r) = Some (base + r_offset r)" "r_type r = 8"
  shows "process_rela x hhdm base r (s, c) =
    and_then (write_to_stack x hhdm (base + r_offset r) (base + r_addend r) s) (\<lambda>s'. Inr (s',
      if page_of (base + r_offset r) \<in> dom (translate_page x (tables s))
      then c\<lparr>total_relocs := usize_add (total_relocs c) 1, applied_relocs := usize_add (applied_relocs c) 1\<rparr>
      else c\<lparr>total_relocs := usize_add (total_relocs c) 1, skipped_relocs := usize_add (skipped_relocs c) 1\<rparr>))"
  using assms(3) by (auto simp: process_rela_def write_to_stack_def page_at_ok [OF assms(1,2)] Let_def split: option.splits)

lemma store_relas_elsewhere:
  "\<forall>r \<in> set rs. \<not> in_range (base + r_offset r) 8 b \<Longrightarrow> fold (store_rela base) rs img b = img b"
  by (induction rs arbitrary: img) (simp_all add: store_rela_def image_store_def in_range_def)

lemma store_relas_word_elsewhere:
  "\<forall>r \<in> set rs. 8 \<le> unat (base + r_offset r - b) \<and> 8 \<le> unat (b - (base + r_offset r)) \<Longrightarrow>
   image_word (fold (store_rela base) rs img) b = image_word img b"
  by (induction rs arbitrary: img) (simp_all add: store_rela_def image_word_other)

lemma store_relas_word:
  assumes "relas_apart base rs" "r \<in> set rs"
  shows "image_word (fold (store_rela base) rs img) (base + r_offset r) = Some (base + r_addend r)"
proof -
  obtain ps qs where rs: "rs = ps @ r # qs" using split_list [OF assms(2)] by blast
  have "\<forall>q \<in> set qs. 8 \<le> unat (base + r_offset q - (base + r_offset r)) \<and> 8 \<le> unat (base + r_offset r - (base + r_offset q))"
    using assms(1) by (auto simp: rs relas_apart_def sorted_wrt_append)
  then show ?thesis by (simp add: rs store_relas_word_elsewhere) (simp add: store_rela_def image_word_same)
qed

lemma relas_apart_filter: "relas_apart base rs \<Longrightarrow> relas_apart base (filter P rs)"
  unfolding relas_apart_def by (rule sorted_wrt_filter)

context window_allocator
begin

lemma process_relas_effect:
  assumes x: "x86_64_ok x" and va: "\<forall>a. page_of a \<in> U \<longrightarrow> virt_addr_new x a = Some a"
    and "owned x U s" "\<forall>r \<in> set rs. r_type r = 8 \<longrightarrow> rela_ok U base r"
    "total_relocs c + length rs < 2 ^ 64" "applied_relocs c \<le> total_relocs c" "skipped_relocs c \<le> total_relocs c"
  shows "\<exists>m. let rel = filter (\<lambda>r. r_type r = 8) rs; ap = mapped_relas x (tables s) base rel in
    for_each (process_rela x hhdm base) rs (s, c) = Inr (s\<lparr>vmem := m\<rparr>,
      c\<lparr>total_relocs := total_relocs c + length rs, applied_relocs := applied_relocs c + length ap,
        skipped_relocs := skipped_relocs c + (length rel - length ap)\<rparr>) \<and>
    owned x U (s\<lparr>vmem := m\<rparr>) \<and> user_image x hhdm U (s\<lparr>vmem := m\<rparr>) = fold (store_rela base) ap (user_image x hhdm U s)"
  using assms(3-)
proof (induction rs arbitrary: s c)
  case Nil
  have "s\<lparr>vmem := vmem s\<rparr> = s" by simp
  then show ?case using Nil by (intro exI [of _ "vmem s"]) (simp add: mapped_relas_def)
next
  case (Cons r rs)
  let ?a = "base + r_offset r"
  let ?rel = "filter (\<lambda>r. r_type r = 8) rs"
  have le: "length (mapped_relas x (tables s) base ?rel) \<le> length ?rel"
    unfolding mapped_relas_def by (rule length_filter_le)
  have t: "usize_add (total_relocs c) (Suc 0) = total_relocs c + 1" "usize_add (applied_relocs c) (Suc 0) = applied_relocs c + 1"
    "usize_add (skipped_relocs c) (Suc 0) = skipped_relocs c + 1"
    using Cons.prems(3-5) by (simp_all add: usize_add_small)
  consider (other) "r_type r \<noteq> 8" | (mapped) "r_type r = 8" "page_of ?a \<in> dom (translate_page x (tables s))"
    | (unmapped) "r_type r = 8" "page_of ?a \<notin> dom (translate_page x (tables s))" by blast
  then show ?case
  proof cases
    case other
    then show ?thesis
      using Cons.IH [OF Cons.prems(1), of "c\<lparr>total_relocs := total_relocs c + 1\<rparr>"] Cons.prems(2-5)
      by (auto simp: process_rela_other t Let_def)
  next
    case unmapped
    then have "rela_ok U base r" using Cons.prems(2) by simp
    then have v: "virt_addr_new x ?a = Some ?a" using va by (simp add: rela_ok_def)
    then have "write_to_stack x hhdm ?a (base + r_addend r) s = Inr s"
      using unmapped(2) by (auto simp: write_to_stack_def page_at_ok [OF x v] domIff)
    then have "process_rela x hhdm base r (s, c) =
        Inr (s, c\<lparr>total_relocs := total_relocs c + 1, skipped_relocs := skipped_relocs c + 1\<rparr>)"
      using process_rela_relative [where hhdm = hhdm and s = s and c = c, OF x v unmapped(1)] unmapped(2) by (simp add: t)
    then show ?thesis
      using Cons.IH [OF Cons.prems(1), of "c\<lparr>total_relocs := total_relocs c + 1, skipped_relocs := skipped_relocs c + 1\<rparr>"]
        Cons.prems(2-5) unmapped le
      by (auto simp: Let_def mapped_relas_def Suc_diff_le)
  next
    case mapped
    then have ok: "rela_ok U base r" using Cons.prems(2) by simp
    then have v: "virt_addr_new x ?a = Some ?a" using va by (simp add: rela_ok_def)
    obtain m where m: "write_to_stack x hhdm ?a (base + r_addend r) s = Inr (s\<lparr>vmem := m\<rparr>)" "owned x U (s\<lparr>vmem := m\<rparr>)"
      "user_image x hhdm U (s\<lparr>vmem := m\<rparr>) = store_rela base r (user_image x hhdm U s)"
      using write_to_stack_effect [OF x v Cons.prems(1) _ mapped(2)] ok unfolding rela_ok_def store_rela_def by blast
    have "process_rela x hhdm base r (s, c) =
        Inr (s\<lparr>vmem := m\<rparr>, c\<lparr>total_relocs := total_relocs c + 1, applied_relocs := applied_relocs c + 1\<rparr>)"
      using process_rela_relative [where hhdm = hhdm and s = s and c = c, OF x v mapped(1)] mapped(2) by (simp add: t m(1))
    then show ?thesis
      using Cons.IH [OF m(2), of "c\<lparr>total_relocs := total_relocs c + 1, applied_relocs := applied_relocs c + 1\<rparr>"]
        Cons.prems(2-5) mapped m(3)
      by (auto simp: Let_def mapped_relas_def)
  qed
qed

lemma process_relocations_effect:
  assumes x: "x86_64_ok x" and va: "\<forall>a. page_of a \<in> U \<longrightarrow> virt_addr_new x a = Some a" and ok: "owned x U s"
    and rel: "\<forall>r \<in> set (relative_relas elf). rela_ok U base r" "length (rela_entries elf) < 2 ^ 64"
  defines "ap \<equiv> mapped_relas x (tables s) base (relative_relas elf)"
  shows "\<exists>m. process_relocations x hhdm elf base s = Inr (s\<lparr>vmem := m\<rparr>,
      \<lparr>total_relocs = length (rela_entries elf), applied_relocs = length ap,
       skipped_relocs = length (relative_relas elf) - length ap\<rparr>) \<and>
    owned x U (s\<lparr>vmem := m\<rparr>) \<and> user_image x hhdm U (s\<lparr>vmem := m\<rparr>) = fold (store_rela base) ap (user_image x hhdm U s)"
proof -
  have "\<forall>r \<in> set (rela_entries elf). r_type r = 8 \<longrightarrow> rela_ok U base r" using rel(1) by (simp add: relative_relas_def)
  from process_relas_effect [OF x va ok this, of "\<lparr>total_relocs = 0, applied_relocs = 0, skipped_relocs = 0\<rparr>"] rel(2)
  show ?thesis by (simp add: process_relocations_flat relative_relas_def [symmetric] ap_def [symmetric] Let_def)
qed

end

section \<open>The dynamic table\<close>

lemma image_word_cong:
  "(\<And>i. i < 8 \<Longrightarrow> img (a + of_nat i) = img' (a + of_nat i)) \<Longrightarrow> image_word img a = image_word img' a"
proof -
  assume e: "\<And>i. i < 8 \<Longrightarrow> img (a + of_nat i) = img' (a + of_nat i)"
  then have m: "map (\<lambda>i. the (img (a + of_nat i))) [0..<8] = map (\<lambda>i. the (img' (a + of_nat i))) [0..<8]" by (intro map_cong) auto
  show ?thesis unfolding image_word_def m using e by simp
qed

lemma word_bytes_in_range:
  assumes "i < 8" "d + 8 \<le> n" "n \<le> 2 ^ 64"
  shows "in_range a n (a + of_nat d + of_nat i)"
  using in_range_self [of "d + i" n a] assms by (simp add: add.assoc)

lemma read_dynamic_cong:
  "16 * n < 2 ^ 64 \<Longrightarrow> (\<And>b. in_range a (16 * n) b \<Longrightarrow> img b = img' b) \<Longrightarrow> read_dynamic n img a = read_dynamic n img' a"
proof (induction n arbitrary: a)
  case (Suc n)
  have w: "image_word img (a + of_nat d) = image_word img' (a + of_nat d)" if "d + 8 \<le> 16" for d
    using that Suc.prems by (intro image_word_cong Suc.prems(2) word_bytes_in_range) simp_all
  have "read_dynamic n img (a + 16) = read_dynamic n img' (a + 16)"
  proof (rule Suc.IH)
    fix b assume b: "in_range (a + 16) (16 * n) b"
    have "in_range a (16 * Suc n) b"
      by (rule in_range_sub [where d = 16 and l = "16 * n"]) (use b Suc.prems(1) in simp_all)
    then show "img b = img' b" by (rule Suc.prems(2))
  qed (use Suc.prems(1) in simp)
  then show ?case using w [of 0] w [of 8] by (simp split: option.split)
qed simp

context window_allocator
begin

text \<open>A word read through the window is the word of the image.\<close>

lemma load_in_page:
  assumes p: "page_of a \<in> U" "translate_page x (tables s) (page_of a) = Some f" "unat a mod 4096 + 8 \<le> 4096"
  shows "image_word (user_image x hhdm U s) a = Some (load64 (vmem s) (f + hhdm + a mod 4096))"
proof -
  define d where "d = unat a mod 4096"
  have a: "a = page_of a + of_nat d" unfolding d_def by (rule page_plus_offset)
  have b: "user_image x hhdm U s (a + of_nat i) = Some (vmem s (f + hhdm + a mod 4096 + of_nat i))" if i: "i < 8" for i
  proof -
    have e: "a + of_nat i = page_of a + of_nat (d + i)" by (subst a) (simp only: of_nat_add add.assoc)
    have di: "d + i < 4096" using i p(3) by (simp add: d_def)
    have "unat (a + of_nat i) mod 4096 = d + i"
      unfolding e by (rule page_of_add(3) [OF page_of_aligned di])
    moreover have "page_of (a + of_nat i) = page_of a" unfolding e by (rule page_of_add(1) [OF page_of_aligned di])
    ultimately show ?thesis
      using p(1,2) by (simp add: user_image_def frame_byte_def offset_word [of a] d_def [symmetric] add.assoc)
  qed
  then have "map (\<lambda>i. the (user_image x hhdm U s (a + of_nat i))) [0..<8] = load_bytes (vmem s) (f + hhdm + a mod 4096) 8"
    unfolding load_bytes_def by (intro map_cong) auto
  then show ?thesis unfolding image_word_def load64_def using b by simp
qed

lemma image_word_mapped:
  assumes "image_word (user_image x hhdm U s) a = Some w"
  obtains f where "page_of a \<in> U" "translate_page x (tables s) (page_of a) = Some f"
proof -
  have "\<forall>i \<in> set [0..<8]. user_image x hhdm U s (a + of_nat i) \<noteq> None"
    using assms unfolding image_word_def by (meson option.distinct(1))
  then have "user_image x hhdm U s (a + of_nat 0) \<noteq> None" by (rule bspec) simp
  then show ?thesis using that by (auto simp: user_image_def split: if_splits)
qed

end

lemma half_aligned:
  assumes "16 dvd unat (a :: u64)"
  shows "unat a mod 4096 + 16 \<le> 4096" "page_of (a + 8) = page_of a" "unat (a + 8) mod 4096 = unat a mod 4096 + 8"
proof -
  define d where "d = unat a mod 4096"
  have "16 dvd d" using assms by (simp add: d_def dvd_mod_iff)
  moreover have "d < 4096" by (simp add: d_def)
  ultimately show d: "unat a mod 4096 + 16 \<le> 4096" unfolding d_def [symmetric] by (auto elim!: dvdE)
  have a: "a = page_of a + of_nat d" unfolding d_def by (rule page_plus_offset)
  have a8: "a + 8 = page_of a + of_nat (d + 8)" by (subst a) (simp add: add.assoc)
  have lt: "d + 8 < 4096" using d by (simp add: d_def)
  show "page_of (a + 8) = page_of a" unfolding a8 by (rule page_of_add(1) [OF page_of_aligned lt])
  show "unat (a + 8) mod 4096 = unat a mod 4096 + 8"
    unfolding a8 d_def [symmetric] by (rule page_of_add(3) [OF page_of_aligned lt])
qed

text \<open>The first entry of a table and the entries after it.\<close>

lemma entry_ranges:
  assumes "unat a + 16 * Suc n < 2 ^ 64"
  shows "unat (a + 16) = unat a + 16" "in_range (a + 16) (16 * n) b \<Longrightarrow> \<not> in_range (a + 8) 8 b"
    "in_range (a + 8) 8 b \<or> in_range (a + 16) (16 * n) b \<Longrightarrow> in_range a (16 * Suc n) b"
    "d \<le> 8 \<Longrightarrow> apart (a + 16) (16 * n) (a + of_nat d) 8"
proof -
  have u: "unat (a + of_nat d) = unat a + d" if "d \<le> 16" for d
    using that assms by (intro unat_add_of_nat_small) simp
  show u16: "unat (a + 16) = unat a + 16" using u [of 16] by simp
  have u8: "unat (a + 8) = unat a + 8" using u [of 8] by simp
  show "in_range (a + 16) (16 * n) b \<Longrightarrow> \<not> in_range (a + 8) 8 b"
    "in_range (a + 8) 8 b \<or> in_range (a + 16) (16 * n) b \<Longrightarrow> in_range a (16 * Suc n) b"
    using assms by (auto simp: in_range_iff u8 u16)
  show "apart (a + 16) (16 * n) (a + of_nat d) 8" if "d \<le> 8"
    using that assms u [of d] by (simp add: apart_def u16)
qed

lemma image_word_outside:
  assumes "\<And>b. \<not> in_range c n b \<Longrightarrow> img b = img' b" "apart c n a 8"
  shows "image_word img a = image_word img' a"
  using assms apart_not_in_range [OF assms(2)] by (intro image_word_cong) blast

context window_allocator
begin

text \<open>One entry of the table: the tag is read, and the value is relocated or left alone.\<close>

lemma relocate_entry:
  assumes x: "x86_64_ok x" and va: "\<forall>a. page_of a \<in> U \<longrightarrow> virt_addr_new x a = Some a" and ok: "owned x U s"
    and a: "16 dvd unat a" and w: "image_word (user_image x hhdm U s) a = Some t" "image_word (user_image x hhdm U s) (a + 8) = Some v"
  shows "\<exists>m. relocate_entries x hhdm base a (Suc n) s =
      (if t = 0 then Inr s else relocate_entries x hhdm base (a + 16) n (s\<lparr>vmem := m\<rparr>)) \<and>
    owned x U (s\<lparr>vmem := m\<rparr>) \<and>
    user_image x hhdm U (s\<lparr>vmem := m\<rparr>) =
      (if is_address_tag t \<and> t \<noteq> 0x6ffffff9 \<and> v \<noteq> 0 then image_store (a + 8) (le_bytes 8 (v + base)) (user_image x hhdm U s)
       else user_image x hhdm U s)"
proof -
  note h = half_aligned [OF a]
  obtain f where f: "page_of a \<in> U" "translate_page x (tables s) (page_of a) = Some f" using image_word_mapped [OF w(1)] by blast
  have f8: "page_of (a + 8) \<in> U" "translate_page x (tables s) (page_of (a + 8)) = Some f" using f h(2) by simp_all
  have e: "(a + 8) mod 4096 = a mod 4096 + 8" using h(3) by (simp add: offset_word [of "a + 8"] offset_word [of a])
  have rd: "load64 (vmem s) (f + hhdm + a mod 4096) = t" "load64 (vmem s) (f + hhdm + a mod 4096 + 8) = v"
    using load_in_page [OF f] load_in_page [OF f8] w h(1,3) by (simp_all add: e add.assoc)
  have page: "page_at x a = Inr (page_of a)" using page_at_ok [OF x] va f(1) by blast
  have same: "s\<lparr>vmem := vmem s\<rparr> = s" by simp
  show ?thesis
  proof (cases "t \<noteq> 0 \<and> is_address_tag t \<and> t \<noteq> 0x6ffffff9 \<and> v \<noteq> 0")
    case True
    let ?m = "store64 (vmem s) (f + hhdm + a mod 4096 + 8) (v + base)"
    have "relocate_entries x hhdm base a (Suc n) s = relocate_entries x hhdm base (a + 16) n (s\<lparr>vmem := ?m\<rparr>)"
      using True by (simp add: page f(2) rd Let_def)
    moreover have ptr: "f + hhdm + a mod 4096 + 8 = f + hhdm + of_nat (unat (a + 8) mod 4096)"
      using e offset_word [of "a + 8"] by (simp only: add.assoc)
    have fits: "unat (a + 8) mod 4096 + length (le_bytes 8 (v + base)) \<le> 4096" using h(1,3) by simp
    have "owned x U (s\<lparr>vmem := ?m\<rparr>) \<and> user_image x hhdm U (s\<lparr>vmem := ?m\<rparr>) =
        image_store (a + 8) (le_bytes 8 (v + base)) (user_image x hhdm U s)"
      using store_in_page [OF ok f8 page_of_aligned fits] unfolding store64_def ptr page_plus_offset [of "a + 8", symmetric] .
    ultimately show ?thesis using True by (intro exI [of _ ?m]) simp
  next
    case False
    then have "relocate_entries x hhdm base a (Suc n) s = (if t = 0 then Inr s else relocate_entries x hhdm base (a + 16) n s)"
      by (auto simp: page f(2) rd Let_def)
    then show ?thesis using False ok same by (intro exI [of _ "vmem s"]) (auto simp: is_address_tag_def)
  qed
qed

lemma relocate_entries_effect:
  assumes x: "x86_64_ok x" and va: "\<forall>a. page_of a \<in> U \<longrightarrow> virt_addr_new x a = Some a"
    and "owned x U s" "16 dvd unat a" "unat a + 16 * n < 2 ^ 64" "read_dynamic n (user_image x hhdm U s) a = Some es"
  shows "\<exists>m. relocate_entries x hhdm base a n s = Inr (s\<lparr>vmem := m\<rparr>) \<and> owned x U (s\<lparr>vmem := m\<rparr>) \<and>
    read_dynamic n (user_image x hhdm U (s\<lparr>vmem := m\<rparr>)) a = Some (map (relocated_entry base) es) \<and>
    (\<forall>b. \<not> in_range a (16 * n) b \<longrightarrow> user_image x hhdm U (s\<lparr>vmem := m\<rparr>) b = user_image x hhdm U s b)"
  using assms(3-)
proof (induction n arbitrary: a s es)
  case 0
  have "s\<lparr>vmem := vmem s\<rparr> = s" by simp
  then show ?case using 0 by (intro exI [of _ "vmem s"]) simp
next
  case (Suc n)
  let ?I = "user_image x hhdm U"
  have same: "s\<lparr>vmem := vmem s\<rparr> = s" by simp
  obtain t v where w: "image_word (?I s) a = Some t" "image_word (?I s) (a + 8) = Some v"
    using Suc.prems(4) by (auto split: option.splits)
  obtain m where m: "relocate_entries x hhdm base a (Suc n) s =
      (if t = 0 then Inr s else relocate_entries x hhdm base (a + 16) n (s\<lparr>vmem := m\<rparr>))" "owned x U (s\<lparr>vmem := m\<rparr>)"
    "?I (s\<lparr>vmem := m\<rparr>) = (if is_address_tag t \<and> t \<noteq> 0x6ffffff9 \<and> v \<noteq> 0
       then image_store (a + 8) (le_bytes 8 (v + base)) (?I s) else ?I s)"
    using relocate_entry [OF x va Suc.prems(1,2) w] by blast
  show ?case
  proof (cases "t = 0")
    case True
    then show ?thesis using Suc.prems m(1) w same by (intro exI [of _ "vmem s"]) auto
  next
    case False
    obtain es' where es: "es = (t, v) # es'" "read_dynamic n (?I s) (a + 16) = Some es'"
      using Suc.prems(4) w False by auto
    note ranges = entry_ranges [OF Suc.prems(3)]
    have out: "?I (s\<lparr>vmem := m\<rparr>) b = ?I s b" if "\<not> in_range (a + 8) 8 b" for b
      using that m(3) by (auto simp: image_store_def in_range_def)
    have "read_dynamic n (?I (s\<lparr>vmem := m\<rparr>)) (a + 16) = Some es'"
      unfolding es(2) [symmetric] using Suc.prems(3) ranges(2) out by (intro read_dynamic_cong) auto
    from Suc.IH [OF m(2) _ _ this] Suc.prems(2,3) ranges(1) obtain m' where m': "relocate_entries x hhdm base (a + 16) n (s\<lparr>vmem := m\<rparr>) = Inr (s\<lparr>vmem := m'\<rparr>)"
      "owned x U (s\<lparr>vmem := m'\<rparr>)" "read_dynamic n (?I (s\<lparr>vmem := m'\<rparr>)) (a + 16) = Some (map (relocated_entry base) es')"
      and frame: "\<And>b. \<not> in_range (a + 16) (16 * n) b \<Longrightarrow> ?I (s\<lparr>vmem := m'\<rparr>) b = ?I (s\<lparr>vmem := m\<rparr>) b"
      by auto
    have w1: "image_word (?I (s\<lparr>vmem := m\<rparr>)) a = Some t" "image_word (?I (s\<lparr>vmem := m\<rparr>)) (a + 8) = Some (snd (relocated_entry base (t, v)))"
      using w by (auto simp: m(3) relocated_entry_def image_word_same image_word_other)
    have w2: "image_word (?I (s\<lparr>vmem := m'\<rparr>)) (a + of_nat d) = image_word (?I (s\<lparr>vmem := m\<rparr>)) (a + of_nat d)" if "d \<le> 8" for d
      using frame ranges(4) [OF that] by (rule image_word_outside)
    have "read_dynamic (Suc n) (?I (s\<lparr>vmem := m'\<rparr>)) a = Some (map (relocated_entry base) es)"
      using w1 w2 [of 0] w2 [of 8] m'(3) False by (simp add: es(1) relocated_entry_def)
    moreover have "?I (s\<lparr>vmem := m'\<rparr>) b = ?I s b" if "\<not> in_range a (16 * Suc n) b" for b
      using frame out ranges(3) that by metis
    ultimately show ?thesis using m(1) m'(1,2) False by (intro exI [of _ m']) simp
  qed
qed

end

section \<open>An example\<close>

text \<open>A position-independent executable: a dynamic table with a string table and its end, and a word with a relocation.\<close>

definition ex_pie_segment :: ProgramHeader where
  "ex_pie_segment = \<lparr>ph_type = Some Load, virtual_addr = 0x1000, mem_size = 64, file_size = 17, ph_file_offset = 0,
     ph_is_write = True, ph_is_execute = False\<rparr>"

definition ex_pie_dynamic :: ProgramHeader where
  "ex_pie_dynamic = ex_pie_segment\<lparr>ph_type := Some Dynamic, mem_size := 32\<rparr>"

definition ex_pie :: ElfFile where
  "ex_pie = \<lparr>elf_magic = [0x7F, 0x45, 0x4C, 0x46], is_shared_object = True, entry_point = 0x1000, ph_offset = 64,
     ph_count = 2, ph_entry_size = 56, program_iter = [ex_pie_segment, ex_pie_dynamic],
     rela_sections = [None, Some [\<lparr>r_type = 8, r_offset = 0x1020, r_addend = 0x1000\<rparr>]],
     elf_input = [5, 0, 0, 0, 0, 0, 0, 0, 0x34, 0x12, 0, 0, 0, 0, 0, 0, 0]\<rparr>"

definition ex_pie_parse :: "u8 list \<Rightarrow> ElfFile option" where
  "ex_pie_parse bytes = (if bytes = elf_input ex_pie then Some ex_pie else None)"

lemma ex_pie_parse: "ex_pie_parse (elf_input ex_pie) = Some ex_pie"
  by (simp add: ex_pie_parse_def)

lemma ex_pie_load: "load_base ex_pie = 0x400000" "load_headers ex_pie = [ex_pie_segment]"
  by (simp_all add: ex_pie_def load_base_def load_headers_def ex_pie_segment_def ex_pie_dynamic_def USER_BASE_ADDR_def)

lemma ex_pie_pages: "segment_pages ex_pie_segment 0x400000 = [0x401000]"
  by (simp add: segment_pages_def ex_pie_segment_def Let_def pages_between_def page_of_def)

lemma ex_pie_ok: "elf_ok ex_user_pages ex_pie"
proof -
  have "segment_ok ex_user_pages ex_pie 0x400000 ex_pie_segment"
    by (simp add: segment_ok_def ex_pie_pages) (simp add: ex_pie_segment_def ex_pie_def ex_user_pages_def)
  moreover have "elf_pages ex_pie = elf_pages ex_elf"
    by (simp add: elf_pages_def segment_covers_def ex_pie_load ex_load ex_pie_pages ex_segment_pages)
       (simp add: ex_pie_segment_def ex_segment_def)
  ultimately show ?thesis
    using ex_elf_ok by (auto simp: elf_ok_def ex_pie_load) (auto simp: ex_pie_def ex_user_pages_def page_of_def)
qed

lemma ex_pie_space:
  "user_space_empty ex_x86 0xFFFF800000000000 ex_user_pages (4 * (elf_page_count ex_pie + length stack_pages)) ex_vm"
proof -
  have "elf_page_count ex_pie = elf_page_count ex_elf"
    by (simp add: elf_page_count_def headers_page_count_def ex_load ex_segment_pages ex_pie_load ex_pie_pages)
  then show ?thesis using ex_user_space_empty by simp
qed

lemma ex_pie_runs:
  obtains s' where "start_user_process ex_pie_parse ex_x86 allocate_frame 0xFFFF800000000000 (elf_input ex_pie) ex_vm =
     Inr (0x401000, 0x7FFFFFFEFF00, s')" "user_image ex_x86 0xFFFF800000000000 ex_user_pages s' = stack_image ex_pie (elf_image ex_pie)"
proof -
  have e: "load_base ex_pie + entry_point ex_pie = 0x401000" by (simp add: ex_pie_load) (simp add: ex_pie_def)
  show ?thesis
    using start_user_process_effect [where elf_file_new = ex_pie_parse, OF ex_x86_ok ex_progress ex_pie_parse ex_pie_ok ex_pie_space] that
    unfolding e ex_entry(2) by blast
qed

lemma ex_pie_bytes:
  assumes "i < 64"
  shows "stack_image ex_pie (elf_image ex_pie) (0x401000 + of_nat i) = Some (if i = 0 then 5 else if i = 8 then 0x34 else if i = 9 then 0x12 else 0)"
proof -
  let ?a = "0x401000 + of_nat i :: u64"
  have ok: "\<forall>ph \<in> set (load_headers ex_pie). segment_ok ex_user_pages ex_pie (load_base ex_pie) ph" and st: "set stack_pages \<inter> elf_pages ex_pie = {}"
    using ex_pie_ok by (auto simp: elf_ok_def)
  have h: "segments_apart ex_pie" "ex_pie_segment \<in> set (load_headers ex_pie)" by (simp_all add: segments_apart_def ex_pie_load)
  have i: "i < unat (mem_size ex_pie_segment)" using assms by (simp add: ex_pie_segment_def)
  have a: "load_base ex_pie + virtual_addr ex_pie_segment = 0x401000" by (simp add: ex_pie_load) (simp add: ex_pie_segment_def)
  have "page_of ?a = 0x401000" using page_of_add(1) [of "0x401000" i] assms by simp
  then have "segment_covers (load_base ex_pie) (page_of ?a) ex_pie_segment"
    unfolding ex_pie_load segment_covers_def by (simp add: ex_pie_pages) (simp add: ex_pie_segment_def)
  then have "page_of ?a \<notin> set stack_pages" using st h(2) by (auto simp: elf_pages_def)
  then have "stack_image ex_pie (elf_image ex_pie) ?a = Some (if i < 17 then elf_input ex_pie ! i else 0)"
    using segment_bytes [OF ok h i] unfolding a
    by (simp add: stack_image_elsewhere elf_image_def fold_image_map) (simp add: ex_pie_segment_def)
  moreover have "elf_input ex_pie ! i = (if i = 0 then 5 else if i = 8 then 0x34 else if i = 9 then 0x12 else 0)" if "i < 17"
    using that by (auto simp: ex_pie_def nth_Cons')
  ultimately show ?thesis by auto
qed

lemma ex_pie_dynamic_table:
  "read_dynamic 2 (stack_image ex_pie (elf_image ex_pie)) 0x401000 = Some [(5, 0x1234)]"
proof -
  define g :: "nat \<Rightarrow> u8" where "g i = (if i = 0 then 5 else if i = 8 then 0x34 else if i = 9 then 0x12 else 0)" for i
  have w: "image_word (stack_image ex_pie (elf_image ex_pie)) (0x401000 + of_nat d) = Some (le_word (map (\<lambda>i. g (d + i)) [0..<8]))"
    if d: "d \<le> 56" for d
  proof -
    have b: "stack_image ex_pie (elf_image ex_pie) (0x401000 + of_nat d + of_nat i) = Some (g (d + i))" if i: "i < 8" for i
    proof -
      have "d + i < 64" using i d by simp
      then show ?thesis unfolding add.assoc of_nat_add [symmetric] g_def by (rule ex_pie_bytes)
    qed
    have m: "map (\<lambda>i. the (stack_image ex_pie (elf_image ex_pie) (0x401000 + of_nat d + of_nat i))) [0..<8] = map (\<lambda>i. g (d + i)) [0..<8]"
      by (rule map_cong [OF refl]) (simp add: b)
    show ?thesis unfolding image_word_def m using b by simp
  qed
  have upt: "[0..<8] = [0, 1, 2, 3, 4, 5, 6, 7 :: nat]" by (simp add: upt_conv_Cons)
  have "image_word (stack_image ex_pie (elf_image ex_pie)) 0x401000 = Some 5" using w [of 0] by (simp add: upt g_def)
  moreover have "image_word (stack_image ex_pie (elf_image ex_pie)) 0x401008 = Some 0x1234" using w [of 8] by (simp add: upt g_def)
  moreover have "image_word (stack_image ex_pie (elf_image ex_pie)) 0x401010 = Some 0" using w [of 16] by (simp add: upt g_def)
  moreover have "image_word (stack_image ex_pie (elf_image ex_pie)) 0x401018 = Some 0" using w [of 24] by (simp add: upt g_def)
  ultimately have "read_dynamic (Suc (Suc 0)) (stack_image ex_pie (elf_image ex_pie)) 0x401000 = Some [(5, 0x1234)]" by simp
  then show ?thesis by (simp only: numeral_2_eq_2)
qed

section \<open>Properties\<close>

text \<open>C13. \<open>process_relocations\<close> on a loaded program, with relocations that lie in user space, within their pages and
  apart from each other: every relative relocation whose page is mapped leaves the load address plus its addend as the word
  at its target, every byte outside the targets and the page tables stay as they were, and the counters give
  the entries seen, applied and skipped.\<close>

theorem relative_relocations_applied:
  assumes "x86_64_ok x" "map_to_progress x allocate_frame pmm_avail U" "elf_file_new bytes = Some elf" "elf_ok U elf"
    and "user_space_empty x hhdm U (4 * (elf_page_count elf + length stack_pages)) s"
    and "start_user_process elf_file_new x allocate_frame hhdm bytes s = Inr (entry, sp, s')"
    and "\<forall>r \<in> set (relative_relas elf). rela_ok U (load_base elf) r" "relas_apart (load_base elf) (relative_relas elf)"
    and "length (rela_entries elf) < 2 ^ 64"
  shows "\<exists>s'' c. process_relocations x hhdm elf (load_base elf) s' = Inr (s'', c) \<and> tables s'' = tables s' \<and>
    (\<forall>r \<in> set (relative_relas elf). user_image x hhdm U s' (load_base elf + r_offset r) \<noteq> None \<longrightarrow>
       image_word (user_image x hhdm U s'') (load_base elf + r_offset r) = Some (load_base elf + r_addend r)) \<and>
    (\<forall>b. (\<forall>r \<in> set (relative_relas elf). \<not> in_range (load_base elf + r_offset r) 8 b) \<longrightarrow>
       user_image x hhdm U s'' b = user_image x hhdm U s' b) \<and>
    total_relocs c = length (rela_entries elf) \<and>
    applied_relocs c = length (filter (\<lambda>r. user_image x hhdm U s' (load_base elf + r_offset r) \<noteq> None) (relative_relas elf)) \<and>
    applied_relocs c + skipped_relocs c = length (relative_relas elf)"
proof -
  let ?b = "load_base elf" and ?I = "user_image x hhdm U"
  have ok: "pmmw.owned hhdm x U s'"
    using start_user_process_effect [where elf_file_new = elf_file_new and bytes = bytes, OF assms(1-5)] assms(6) by auto
  have va: "\<forall>a. page_of a \<in> U \<longrightarrow> virt_addr_new x a = Some a" using assms(5) by (simp add: user_space_empty_def)
  define ap where "ap = mapped_relas x (tables s') ?b (relative_relas elf)"
  obtain m where m: "process_relocations x hhdm elf ?b s' = Inr (s'\<lparr>vmem := m\<rparr>,
      \<lparr>total_relocs = length (rela_entries elf), applied_relocs = length ap,
       skipped_relocs = length (relative_relas elf) - length ap\<rparr>)"
    "?I (s'\<lparr>vmem := m\<rparr>) = fold (store_rela ?b) ap (?I s')"
    using pmmw.process_relocations_effect [OF assms(1) va ok assms(7,9)] unfolding ap_def by blast
  have ap: "ap = filter (\<lambda>r. ?I s' (?b + r_offset r) \<noteq> None) (relative_relas elf)"
    unfolding ap_def mapped_relas_def using assms(7) by (intro filter_cong) (auto simp: rela_ok_def user_image_dom)
  have "length ap \<le> length (relative_relas elf)" unfolding ap by (rule length_filter_le)
  moreover have "relas_apart ?b ap" unfolding ap by (rule relas_apart_filter [OF assms(8)])
  then have "image_word (?I (s'\<lparr>vmem := m\<rparr>)) (?b + r_offset r) = Some (?b + r_addend r)"
    if "r \<in> set (relative_relas elf)" "?I s' (?b + r_offset r) \<noteq> None" for r
    unfolding m(2) using that by (intro store_relas_word) (simp_all add: ap)
  moreover have "?I (s'\<lparr>vmem := m\<rparr>) b = ?I s' b" if "\<forall>r \<in> set (relative_relas elf). \<not> in_range (?b + r_offset r) 8 b" for b
    unfolding m(2) using that by (intro store_relas_elsewhere) (simp add: ap)
  ultimately show ?thesis using m(1) by (auto simp: ap)
qed

theorem relative_relocations_applied_witness:
  "\<exists>s' s'' c. start_user_process ex_pie_parse ex_x86 allocate_frame 0xFFFF800000000000 (elf_input ex_pie) ex_vm =
      Inr (0x401000, 0x7FFFFFFEFF00, s') \<and>
    process_relocations ex_x86 0xFFFF800000000000 ex_pie (load_base ex_pie) s' = Inr (s'', c) \<and> applied_relocs c = 1 \<and>
    image_word (user_image ex_x86 0xFFFF800000000000 ex_user_pages s'') 0x401020 = Some 0x401000"
proof -
  obtain s' where s': "start_user_process ex_pie_parse ex_x86 allocate_frame 0xFFFF800000000000 (elf_input ex_pie) ex_vm =
     Inr (0x401000, 0x7FFFFFFEFF00, s')" "user_image ex_x86 0xFFFF800000000000 ex_user_pages s' = stack_image ex_pie (elf_image ex_pie)"
    by (rule ex_pie_runs)
  have r: "rela_entries ex_pie = [\<lparr>r_type = 8, r_offset = 0x1020, r_addend = 0x1000\<rparr>]" by (simp add: rela_entries_def ex_pie_def)
  then have rr: "relative_relas ex_pie = [\<lparr>r_type = 8, r_offset = 0x1020, r_addend = 0x1000\<rparr>]" by (simp add: relative_relas_def)
  have h: "\<forall>r \<in> set (relative_relas ex_pie). rela_ok ex_user_pages (load_base ex_pie) r" "relas_apart (load_base ex_pie) (relative_relas ex_pie)"
    "length (rela_entries ex_pie) < 2 ^ 64"
    by (simp_all add: r rr ex_pie_load rela_ok_def relas_apart_def page_of_def ex_user_pages_def)
  have b: "stack_image ex_pie (elf_image ex_pie) 0x401020 \<noteq> None" using ex_pie_bytes [of 32] by simp
  show ?thesis
    using relative_relocations_applied [where elf_file_new = ex_pie_parse,
        OF ex_x86_ok ex_progress ex_pie_parse ex_pie_ok ex_pie_space s'(1) h] b s'
    unfolding s'(2) rr ex_pie_load by fastforce
qed

text \<open>C14. \<open>relocate_dynamic_segment\<close> on a loaded program whose dynamic table is mapped and aligned: reading the table
  afterwards gives the same tags in the same order, each value that is an address and not null moved by
  the load address, the relocation count and every other value unchanged, and no byte outside the table changes.\<close>

theorem dynamic_table_relocated:
  assumes "x86_64_ok x" "map_to_progress x allocate_frame pmm_avail U" "elf_file_new bytes = Some elf" "elf_ok U elf"
    and "user_space_empty x hhdm U (4 * (elf_page_count elf + length stack_pages)) s"
    and "start_user_process elf_file_new x allocate_frame hhdm bytes s = Inr (entry, sp, s')"
    and "find (\<lambda>ph. ph_type ph = Some Dynamic) (program_iter elf) = Some ph"
    and "16 dvd unat (load_base elf + virtual_addr ph)" "unat (load_base elf + virtual_addr ph) + unat (mem_size ph) < 2 ^ 64"
    and "read_dynamic (unat (mem_size ph) div 16) (user_image x hhdm U s') (load_base elf + virtual_addr ph) = Some es"
  shows "\<exists>s''. relocate_dynamic_segment x hhdm elf (load_base elf) s' = Inr s'' \<and> tables s'' = tables s' \<and>
    read_dynamic (unat (mem_size ph) div 16) (user_image x hhdm U s'') (load_base elf + virtual_addr ph) =
      Some (map (\<lambda>(t, v). (t, if is_address_tag t \<and> t \<noteq> 0x6ffffff9 \<and> v \<noteq> 0 then v + load_base elf else v)) es) \<and>
    (\<forall>b. \<not> in_range (load_base elf + virtual_addr ph) (unat (mem_size ph)) b \<longrightarrow>
       user_image x hhdm U s'' b = user_image x hhdm U s' b)"
proof -
  let ?a = "load_base elf + virtual_addr ph" and ?n = "unat (mem_size ph) div 16" and ?I = "user_image x hhdm U"
  have ok: "pmmw.owned hhdm x U s'"
    using start_user_process_effect [where elf_file_new = elf_file_new and bytes = bytes, OF assms(1-5)] assms(6) by auto
  have va: "\<forall>a. page_of a \<in> U \<longrightarrow> virt_addr_new x a = Some a" using assms(5) by (simp add: user_space_empty_def)
  have n: "16 * ?n \<le> unat (mem_size ph)" "unat ?a + 16 * ?n < 2 ^ 64" using assms(9) by simp_all
  obtain m where m: "relocate_entries x hhdm (load_base elf) ?a ?n s' = Inr (s'\<lparr>vmem := m\<rparr>)"
    "read_dynamic ?n (?I (s'\<lparr>vmem := m\<rparr>)) ?a = Some (map (relocated_entry (load_base elf)) es)"
    and fr: "\<And>b. \<not> in_range ?a (16 * ?n) b \<Longrightarrow> ?I (s'\<lparr>vmem := m\<rparr>) b = ?I s' b"
    using pmmw.relocate_entries_effect [OF assms(1) va ok assms(8) n(2) assms(10)] by blast
  have "\<not> in_range ?a (16 * ?n) b" if "\<not> in_range ?a (unat (mem_size ph)) b" for b
    using that n(1) by (simp add: in_range_def)
  then show ?thesis using m fr assms(7) by (auto simp: relocate_dynamic_segment_def relocated_entry_def)
qed

theorem dynamic_table_relocated_witness:
  "\<exists>s' s''. start_user_process ex_pie_parse ex_x86 allocate_frame 0xFFFF800000000000 (elf_input ex_pie) ex_vm =
      Inr (0x401000, 0x7FFFFFFEFF00, s') \<and>
    relocate_dynamic_segment ex_x86 0xFFFF800000000000 ex_pie (load_base ex_pie) s' = Inr s'' \<and>
    read_dynamic 2 (user_image ex_x86 0xFFFF800000000000 ex_user_pages s'') 0x401000 = Some [(5, 0x401234)]"
proof -
  obtain s' where s': "start_user_process ex_pie_parse ex_x86 allocate_frame 0xFFFF800000000000 (elf_input ex_pie) ex_vm =
     Inr (0x401000, 0x7FFFFFFEFF00, s')" "user_image ex_x86 0xFFFF800000000000 ex_user_pages s' = stack_image ex_pie (elf_image ex_pie)"
    by (rule ex_pie_runs)
  have f: "find (\<lambda>ph. ph_type ph = Some Dynamic) (program_iter ex_pie) = Some ex_pie_dynamic"
    by (simp add: ex_pie_def ex_pie_dynamic_def ex_pie_segment_def)
  have a: "load_base ex_pie + virtual_addr ex_pie_dynamic = 0x401000" "unat (mem_size ex_pie_dynamic) = 32"
    by (simp_all add: ex_pie_load) (simp_all add: ex_pie_dynamic_def ex_pie_segment_def)
  have h: "16 dvd unat (load_base ex_pie + virtual_addr ex_pie_dynamic)"
    "unat (load_base ex_pie + virtual_addr ex_pie_dynamic) + unat (mem_size ex_pie_dynamic) < 2 ^ 64"
    "read_dynamic (unat (mem_size ex_pie_dynamic) div 16) (user_image ex_x86 0xFFFF800000000000 ex_user_pages s')
       (load_base ex_pie + virtual_addr ex_pie_dynamic) = Some [(5, 0x1234)]"
    unfolding a s'(2) using ex_pie_dynamic_table by simp_all
  show ?thesis
    using dynamic_table_relocated [where elf_file_new = ex_pie_parse,
        OF ex_x86_ok ex_progress ex_pie_parse ex_pie_ok ex_pie_space s'(1) f h] s'(1)
    unfolding a by (auto simp: is_address_tag_def ex_pie_load)
qed

end
