(* ===== verification/Kernel_Heap.thy ===== *)
theory Kernel_Heap
  imports Pmm_Window Spinlock
begin

text \<open>
  The kernel heap, \<open>kernel/src/heap_allocator.rs\<close>: \<open>init_heap\<close> maps the pages of the heap and hands
  the region to the allocator, and \<open>SafeLockedHeap\<close> is the global allocator, which wraps the crate's
  free list with a spinlock and masked interrupts. The free list (\<open>linked_list_allocator::Heap\<close>) is a
  parameter: the record \<open>heap_crate\<close> of its operations on a state of type \<open>'h\<close>, and \<open>heap_crate_ok\<close>,
  which states what its documentation promises of them. Log messages are left out.
\<close>

section \<open>The locked heap\<close>

record Layout =
  layout_size :: nat
  layout_align :: nat

record 'h heap_crate =
  heap_init :: "u64 \<Rightarrow> nat \<Rightarrow> 'h \<Rightarrow> 'h"
  allocate_first_fit :: "Layout \<Rightarrow> 'h \<Rightarrow> u64 option \<times> 'h"
  heap_deallocate :: "u64 \<Rightarrow> Layout \<Rightarrow> 'h \<Rightarrow> 'h"

definition SafeLockedHeap_init :: "'h heap_crate \<Rightarrow> u64 \<Rightarrow> nat \<Rightarrow> 'h guarded \<Rightarrow> (unit \<times> 'h guarded) option" where
  "SafeLockedHeap_init hc start_addr len =
     without_interrupts (with_lock (\<lambda>fl. ((), heap_init hc start_addr len fl)))"

text \<open>The null pointer is \<open>0\<close>.\<close>

definition SafeLockedHeap_alloc :: "'h heap_crate \<Rightarrow> Layout \<Rightarrow> 'h guarded \<Rightarrow> (u64 \<times> 'h guarded) option" where
  "SafeLockedHeap_alloc hc layout =
     without_interrupts (with_lock (\<lambda>fl.
       let (r, fl) = allocate_first_fit hc layout fl in (case r of Some ptr \<Rightarrow> ptr | None \<Rightarrow> 0, fl)))"

definition SafeLockedHeap_dealloc :: "'h heap_crate \<Rightarrow> u64 \<Rightarrow> Layout \<Rightarrow> 'h guarded \<Rightarrow> (unit \<times> 'h guarded) option" where
  "SafeLockedHeap_dealloc hc ptr layout =
     without_interrupts (\<lambda>h.
       if ptr \<noteq> 0 then with_lock (\<lambda>fl. ((), heap_deallocate hc ptr layout fl)) h else Some ((), h))"

section \<open>Initialisation\<close>

definition KERNEL_HEAP_START :: u64 where "KERNEL_HEAP_START = 0xFFFF900000000000"
definition KERNEL_HEAP_SIZE :: nat where "KERNEL_HEAP_SIZE = 100 * 1024"

text \<open>\<open>Map_Failed\<close> is the error of \<open>map_to\<close>, whatever it is.\<close>

datatype MapToError = FrameAllocationFailed | Map_Failed

definition map_heap_page ::
  "('pt, 'a) x86_64 \<Rightarrow> 'a allocator \<Rightarrow> u64 \<Rightarrow> ('pt, 'a) vm \<Rightarrow> MapToError + ('pt, 'a) vm" where
  "map_heap_page x allocate page s =
     (let (r, s) = alloc_frame allocate s
      in case r of
           None \<Rightarrow> Inl FrameAllocationFailed
         | Some frame \<Rightarrow>
             (case map_frame x allocate page frame {PRESENT, WRITABLE} s of
                None \<Rightarrow> Inl Map_Failed
              | Some s \<Rightarrow> Inr s))"

datatype heap_error = Heap_Error MapToError | Heap_Panic panic | Heap_Deadlock

definition init_heap ::
  "('pt, 'a) x86_64 \<Rightarrow> 'a allocator \<Rightarrow> 'h heap_crate \<Rightarrow> ('pt, 'a) vm \<Rightarrow> 'h guarded \<Rightarrow>
   heap_error + (('pt, 'a) vm \<times> 'h guarded)" where
  "init_heap x allocate hc s h =
     (case virt_addr_new x KERNEL_HEAP_START of
        None \<Rightarrow> Inl (Heap_Panic (Panic ''VirtAddr::new''))
      | Some heap_start \<Rightarrow>
          let heap_end = heap_start + of_nat KERNEL_HEAP_SIZE - 1;
              heap_start_page = containing_address x heap_start;
              heap_end_page = containing_address x heap_end
          in (case for_each (map_heap_page x allocate) (range_inclusive x heap_start_page heap_end_page) s of
                Inl e \<Rightarrow> Inl (Heap_Error e)
              | Inr s \<Rightarrow>
                  (case SafeLockedHeap_init hc KERNEL_HEAP_START KERNEL_HEAP_SIZE h of
                     None \<Rightarrow> Inl Heap_Deadlock
                   | Some (_, h) \<Rightarrow> Inr (s, h))))"

text \<open>The pages of the heap: 100 KiB are 25 of them.\<close>

definition kernel_heap_pages :: "u64 list" where
  "kernel_heap_pages = pages_between KERNEL_HEAP_START (KERNEL_HEAP_START + 0x18000)"

lemma heap_bounds:
  "4096 dvd unat KERNEL_HEAP_START" "page_of KERNEL_HEAP_START = KERNEL_HEAP_START"
  "page_of (KERNEL_HEAP_START + of_nat KERNEL_HEAP_SIZE - 1) = KERNEL_HEAP_START + 0x18000"
  "4096 dvd unat (KERNEL_HEAP_START + 0x18000)" "length kernel_heap_pages = 25"
  by (simp_all add: KERNEL_HEAP_START_def KERNEL_HEAP_SIZE_def page_of_def kernel_heap_pages_def pages_between_def)

lemma set_kernel_heap_pages:
  "set kernel_heap_pages = {q. 4096 dvd unat q \<and> KERNEL_HEAP_START \<le> q \<and> q \<le> KERNEL_HEAP_START + 0x18000}"
  unfolding kernel_heap_pages_def by (rule set_pages_between [OF heap_bounds(1,4)])

section \<open>Mapping the heap\<close>

context window_allocator
begin

lemma map_heap_pages_effect:
  assumes x: "x86_64_ok x" "map_to_progress x allocate avail U"
    and "owned x U s" "set pages \<subseteq> U" "distinct pages" "set pages \<inter> dom (translate_page x (tables s)) = {}"
    and "4 * length pages \<le> card (avail (manager s, vmem s))"
  shows "\<exists>s'. for_each (map_heap_page x allocate) pages s = Inr s' \<and> owned x U s' \<and>
    dom (translate_page x (tables s')) = set pages \<union> dom (translate_page x (tables s)) \<and>
    flags_of x (tables s') = (\<lambda>q. if q \<in> set pages then {PRESENT, WRITABLE} else flags_of x (tables s) q) \<and>
    card (avail (manager s, vmem s)) \<le> card (avail (manager s', vmem s')) + 4 * length pages"
  using assms(3-)
proof (induction pages arbitrary: s)
  case (Cons q qs)
  have q: "q \<in> U" "translate_page x (tables s) q = None" "4 \<le> card (avail (manager s, vmem s))"
    using Cons.prems by auto
  obtain f s1 s2 where f: "alloc_frame allocate s = (Some f, s1)" "map_frame x allocate q f {PRESENT, WRITABLE} s1 = Some s2"
    "card (avail (manager s, vmem s)) \<le> card (avail (manager s2, vmem s2)) + 4"
    by (rule alloc_map_progress [OF x Cons.prems(1) q, of "{PRESENT, WRITABLE}"]) (rule that)
  note e = alloc_map_effect [OF x(1) Cons.prems(1) q(1,2) f(1,2)]
  have step: "map_heap_page x allocate q s = Inr s2" using f(1,2) by (simp add: map_heap_page_def)
  have "set qs \<inter> dom (translate_page x (tables s2)) = {}" using e(4) Cons.prems(3,4) by auto
  moreover have "4 * length qs \<le> card (avail (manager s2, vmem s2))" using f(3) Cons.prems(5) by simp
  ultimately obtain s' where s': "for_each (map_heap_page x allocate) qs s2 = Inr s'" "owned x U s'"
    "dom (translate_page x (tables s')) = set qs \<union> dom (translate_page x (tables s2))"
    "flags_of x (tables s') = (\<lambda>q. if q \<in> set qs then {PRESENT, WRITABLE} else flags_of x (tables s2) q)"
    "card (avail (manager s2, vmem s2)) \<le> card (avail (manager s', vmem s')) + 4 * length qs"
    using Cons.IH [OF e(1)] Cons.prems(2,3) by auto
  have "dom (translate_page x (tables s')) = set (q # qs) \<union> dom (translate_page x (tables s))" unfolding s'(3) e(4) by auto
  moreover have "flags_of x (tables s') = (\<lambda>r. if r \<in> set (q # qs) then {PRESENT, WRITABLE} else flags_of x (tables s) r)"
    unfolding s'(4) e(3) by (auto simp: fun_eq_iff)
  ultimately show ?case using step s'(1,2,5) f(3) by auto
qed simp

lemma init_heap_effect:
  assumes x: "x86_64_ok x" "map_to_progress x allocate avail U" and va: "virt_addr_new x KERNEL_HEAP_START = Some KERNEL_HEAP_START"
    and ok: "owned x U s" and pages: "set kernel_heap_pages \<subseteq> U" "set kernel_heap_pages \<inter> dom (translate_page x (tables s)) = {}"
    and frames: "100 \<le> card (avail (manager s, vmem s))" and lock: "\<not> locked h"
  shows "\<exists>s'. init_heap x allocate hc s h =
      Inr (s', h\<lparr>contents := heap_init hc KERNEL_HEAP_START KERNEL_HEAP_SIZE (contents h)\<rparr>) \<and> owned x U s' \<and>
    dom (translate_page x (tables s')) = set kernel_heap_pages \<union> dom (translate_page x (tables s)) \<and>
    flags_of x (tables s') = (\<lambda>q. if q \<in> set kernel_heap_pages then {PRESENT, WRITABLE} else flags_of x (tables s) q) \<and>
    card (avail (manager s, vmem s)) \<le> card (avail (manager s', vmem s')) + 100"
proof -
  have "distinct kernel_heap_pages" by (simp add: kernel_heap_pages_def distinct_pages_between)
  then obtain s' where s': "for_each (map_heap_page x allocate) kernel_heap_pages s = Inr s'" "owned x U s'"
    "dom (translate_page x (tables s')) = set kernel_heap_pages \<union> dom (translate_page x (tables s))"
    "flags_of x (tables s') = (\<lambda>q. if q \<in> set kernel_heap_pages then {PRESENT, WRITABLE} else flags_of x (tables s) q)"
    "card (avail (manager s, vmem s)) \<le> card (avail (manager s', vmem s')) + 100"
    using map_heap_pages_effect [OF x ok pages(1) _ pages(2)] frames by (auto simp: heap_bounds(5))
  have "range_inclusive x (containing_address x KERNEL_HEAP_START)
      (containing_address x (KERNEL_HEAP_START + of_nat KERNEL_HEAP_SIZE - 1)) = kernel_heap_pages"
    using x(1) by (simp only: x86_64_ok_def heap_bounds kernel_heap_pages_def)
  moreover have "SafeLockedHeap_init hc KERNEL_HEAP_START KERNEL_HEAP_SIZE h =
      Some ((), h\<lparr>contents := heap_init hc KERNEL_HEAP_START KERNEL_HEAP_SIZE (contents h)\<rparr>)"
    using lock by (simp add: SafeLockedHeap_init_def)
  ultimately have "init_heap x allocate hc s h =
      Inr (s', h\<lparr>contents := heap_init hc KERNEL_HEAP_START KERNEL_HEAP_SIZE (contents h)\<rparr>)"
    using va s'(1) by (simp add: init_heap_def Let_def)
  then show ?thesis using s'(2-5) by blast
qed

end

section \<open>The contract of the free list\<close>

text \<open>\<open>region\<close> and \<open>live\<close> observe the memory a heap manages and the blocks that are handed out. A
  block is aligned, lies in the region and meets no live block; freeing a live block removes it.\<close>

definition block_in :: "u64 \<Rightarrow> nat \<Rightarrow> u64 \<times> nat \<Rightarrow> bool" where
  "block_in a n b \<longleftrightarrow> unat a \<le> unat (fst b) \<and> unat (fst b) + snd b \<le> unat a + n"

definition heap_crate_ok :: "'h heap_crate \<Rightarrow> ('h \<Rightarrow> u64 \<times> nat) \<Rightarrow> ('h \<Rightarrow> (u64 \<times> nat) set) \<Rightarrow> bool" where
  "heap_crate_ok hc region live \<longleftrightarrow>
     (\<forall>a n fl. region (heap_init hc a n fl) = (a, n) \<and> live (heap_init hc a n fl) = {}) \<and>
     (\<forall>l fl p fl'. allocate_first_fit hc l fl = (Some p, fl') \<longrightarrow>
        p \<noteq> 0 \<and> layout_align l dvd unat p \<and> block_in (fst (region fl)) (snd (region fl)) (p, layout_size l) \<and>
        (\<forall>(q, k) \<in> live fl. apart p (layout_size l) q k) \<and>
        live fl' = insert (p, layout_size l) (live fl) \<and> region fl' = region fl) \<and>
     (\<forall>l fl fl'. allocate_first_fit hc l fl = (None, fl') \<longrightarrow> live fl' = live fl \<and> region fl' = region fl) \<and>
     (\<forall>p l fl. (p, layout_size l) \<in> live fl \<longrightarrow>
        live (heap_deallocate hc p l fl) = live fl - {(p, layout_size l)} \<and> region (heap_deallocate hc p l fl) = region fl)"

lemma heap_crate_laws:
  assumes "heap_crate_ok hc region live"
  shows "allocate_first_fit hc l fl = (Some p, fl') \<Longrightarrow>
      p \<noteq> 0 \<and> layout_align l dvd unat p \<and> block_in (fst (region fl)) (snd (region fl)) (p, layout_size l) \<and>
      (\<forall>(q, k) \<in> live fl. apart p (layout_size l) q k) \<and>
      live fl' = insert (p, layout_size l) (live fl) \<and> region fl' = region fl"
    "allocate_first_fit hc l fl = (None, fl') \<Longrightarrow> live fl' = live fl \<and> region fl' = region fl"
    "(p, layout_size l) \<in> live fl \<Longrightarrow>
      live (heap_deallocate hc p l fl) = live fl - {(p, layout_size l)} \<and> region (heap_deallocate hc p l fl) = region fl"
  by (rule assms [unfolded heap_crate_ok_def, THEN conjunct2, THEN conjunct1, THEN spec, THEN spec, THEN spec, THEN spec, THEN mp],
      assumption,
      rule assms [unfolded heap_crate_ok_def, THEN conjunct2, THEN conjunct2, THEN conjunct1, THEN spec, THEN spec, THEN spec, THEN mp],
      assumption,
      rule assms [unfolded heap_crate_ok_def, THEN conjunct2, THEN conjunct2, THEN conjunct2, THEN spec, THEN spec, THEN spec, THEN mp],
      assumption)

text \<open>A session of the kernel with its allocator: \<open>init\<close> once, then any allocations, and frees of live
  blocks with the layout they were allocated with, or of the null pointer.\<close>

inductive heap_session ::
  "'h heap_crate \<Rightarrow> ('h \<Rightarrow> (u64 \<times> nat) set) \<Rightarrow> 'h guarded \<Rightarrow> 'h guarded \<Rightarrow> bool"
  for hc live h0 where
  session_init: "SafeLockedHeap_init hc KERNEL_HEAP_START KERNEL_HEAP_SIZE h0 = Some ((), h) \<Longrightarrow> heap_session hc live h0 h"
| session_alloc: "heap_session hc live h0 h \<Longrightarrow> SafeLockedHeap_alloc hc l h = Some (p, h') \<Longrightarrow> heap_session hc live h0 h'"
| session_free: "heap_session hc live h0 h \<Longrightarrow> p = 0 \<or> (p, layout_size l) \<in> live (contents h) \<Longrightarrow>
    SafeLockedHeap_dealloc hc p l h = Some ((), h') \<Longrightarrow> heap_session hc live h0 h'"

definition blocks_ok :: "(u64 \<times> nat) set \<Rightarrow> bool" where
  "blocks_ok bs \<longleftrightarrow> (\<forall>b \<in> bs. block_in KERNEL_HEAP_START KERNEL_HEAP_SIZE b) \<and>
     (\<forall>b \<in> bs. \<forall>c \<in> bs. b \<noteq> c \<longrightarrow> apart (fst b) (snd b) (fst c) (snd c))"

definition heap_inv :: "('h \<Rightarrow> u64 \<times> nat) \<Rightarrow> ('h \<Rightarrow> (u64 \<times> nat) set) \<Rightarrow> 'h guarded \<Rightarrow> 'h guarded \<Rightarrow> bool" where
  "heap_inv region live h0 h \<longleftrightarrow> \<not> locked h \<and> interrupts_on h = interrupts_on h0 \<and>
     region (contents h) = (KERNEL_HEAP_START, KERNEL_HEAP_SIZE) \<and> blocks_ok (live (contents h))"

lemma SafeLockedHeap_alloc_eq:
  "\<not> locked h \<Longrightarrow> SafeLockedHeap_alloc hc l h =
   (let (r, fl) = allocate_first_fit hc l (contents h)
    in Some (case r of Some p \<Rightarrow> p | None \<Rightarrow> 0, h\<lparr>contents := fl\<rparr>))"
  by (simp add: SafeLockedHeap_alloc_def case_prod_beta Let_def)

lemma SafeLockedHeap_dealloc_eq:
  "\<not> locked h \<Longrightarrow> SafeLockedHeap_dealloc hc p l h =
   Some ((), if p = 0 then h else h\<lparr>contents := heap_deallocate hc p l (contents h)\<rparr>)"
  by (cases h) (simp add: SafeLockedHeap_dealloc_def without_interrupts_def)

lemma blocks_ok_insert:
  assumes "blocks_ok bs" "block_in KERNEL_HEAP_START KERNEL_HEAP_SIZE (p, n)" "\<forall>(q, k) \<in> bs. apart p n q k"
  shows "blocks_ok (insert (p, n) bs)"
  using assms apart_sym by (auto simp: blocks_ok_def)

lemma heap_alloc_step:
  assumes crate: "heap_crate_ok hc region live" and inv: "heap_inv region live h0 h" and run: "SafeLockedHeap_alloc hc l h = Some (p, h')"
  shows "heap_inv region live h0 h'"
    "p \<noteq> 0 \<Longrightarrow> layout_align l dvd unat p \<and> live (contents h') = insert (p, layout_size l) (live (contents h)) \<and>
       (\<forall>(q, k) \<in> live (contents h). apart p (layout_size l) q k)"
    "p = 0 \<Longrightarrow> live (contents h') = live (contents h)"
proof -
  obtain r fl where a: "allocate_first_fit hc l (contents h) = (r, fl)" by fastforce
  have unlocked: "\<not> locked h" using inv by (simp add: heap_inv_def)
  have eq: "p = (case r of Some p \<Rightarrow> p | None \<Rightarrow> 0)" "h' = h\<lparr>contents := fl\<rparr>"
    using run by (auto simp: SafeLockedHeap_alloc_eq [OF unlocked] a)
  have all: "heap_inv region live h0 h' \<and> (p \<noteq> 0 \<longrightarrow> layout_align l dvd unat p \<and>
      live (contents h') = insert (p, layout_size l) (live (contents h)) \<and>
      (\<forall>(q, k) \<in> live (contents h). apart p (layout_size l) q k)) \<and> (p = 0 \<longrightarrow> live (contents h') = live (contents h))"
  proof (cases r)
    case None
    then have "live fl = live (contents h) \<and> region fl = region (contents h)"
      using a by (intro heap_crate_laws(2) [OF crate]) simp
    then show ?thesis using inv None eq by (simp add: heap_inv_def)
  next
    case (Some q)
    then have fit: "allocate_first_fit hc l (contents h) = (Some q, fl)" using a by simp
    note law = heap_crate_laws(1) [OF crate fit]
    have old: "blocks_ok (live (contents h))" "region (contents h) = (KERNEL_HEAP_START, KERNEL_HEAP_SIZE)"
      using inv by (simp_all add: heap_inv_def)
    have live: "live fl = insert (q, layout_size l) (live (contents h))" using law by blast
    have "block_in KERNEL_HEAP_START KERNEL_HEAP_SIZE (q, layout_size l)" using law old(2) by simp
    moreover have "\<forall>(q', k) \<in> live (contents h). apart q (layout_size l) q' k" using law by blast
    ultimately have "blocks_ok (live fl)" unfolding live by (rule blocks_ok_insert [OF old(1)])
    moreover have "region fl = (KERNEL_HEAP_START, KERNEL_HEAP_SIZE)" using law old(2) by (elim conjE) (simp only:)
    ultimately have "heap_inv region live h0 h'" using inv eq(2) by (simp add: heap_inv_def)
    moreover have pq: "p = q" "contents h' = fl" using Some eq by simp_all
    moreover have "q \<noteq> 0" "layout_align l dvd unat q" using conjunct1 [OF law] conjunct1 [OF conjunct2 [OF law]] by auto
    ultimately show ?thesis using live \<open>\<forall>(q', k) \<in> live (contents h). apart q (layout_size l) q' k\<close> unfolding pq by blast
  qed
  show "heap_inv region live h0 h'" by (rule conjunct1 [OF all])
  show "p \<noteq> 0 \<Longrightarrow> layout_align l dvd unat p \<and> live (contents h') = insert (p, layout_size l) (live (contents h)) \<and>
       (\<forall>(q, k) \<in> live (contents h). apart p (layout_size l) q k)"
    by (rule mp [OF conjunct1 [OF conjunct2 [OF all]]])
  show "p = 0 \<Longrightarrow> live (contents h') = live (contents h)" by (rule mp [OF conjunct2 [OF conjunct2 [OF all]]])
qed

lemma heap_session_inv:
  assumes crate: "heap_crate_ok hc region live" and "heap_session hc live h0 h" and "\<not> locked h0"
  shows "heap_inv region live h0 h"
  using assms(2)
proof (induction rule: heap_session.induct)
  case (session_init h)
  then have "h = h0\<lparr>contents := heap_init hc KERNEL_HEAP_START KERNEL_HEAP_SIZE (contents h0)\<rparr>"
    using assms(3) by (auto simp: SafeLockedHeap_init_def)
  then show ?case using crate assms(3) by (simp add: heap_inv_def heap_crate_ok_def blocks_ok_def)
next
  case (session_alloc h l p h')
  then show ?case using heap_alloc_step(1) [OF crate] by blast
next
  case (session_free h p l h')
  have unlocked: "\<not> locked h" using session_free.IH by (simp add: heap_inv_def)
  have h': "h' = (if p = 0 then h else h\<lparr>contents := heap_deallocate hc p l (contents h)\<rparr>)"
    using session_free.hyps(3) by (simp add: SafeLockedHeap_dealloc_eq [OF unlocked])
  show ?case
  proof (cases "p = 0")
    case False
    then have "live (heap_deallocate hc p l (contents h)) = live (contents h) - {(p, layout_size l)} \<and>
        region (heap_deallocate hc p l (contents h)) = region (contents h)"
      using session_free.hyps(2) by (intro heap_crate_laws(3) [OF crate]) simp
    then show ?thesis using session_free.IH False by (simp add: h' heap_inv_def blocks_ok_def)
  qed (use session_free.IH h' in simp)
qed

text \<open>The bytes of a block of the heap lie on its pages.\<close>

lemma block_page:
  assumes "block_in KERNEL_HEAP_START KERNEL_HEAP_SIZE (p, n)" "i < n"
  shows "page_of (p + of_nat i) \<in> set kernel_heap_pages"
proof -
  have s: "unat KERNEL_HEAP_START = 0xFFFF900000000000" "KERNEL_HEAP_SIZE = 0x19000"
    by (simp_all add: KERNEL_HEAP_START_def KERNEL_HEAP_SIZE_def)
  have u: "unat (p + of_nat i) = unat p + i"
    using assms s unat_lt_64 [of p] by (intro unat_add_of_nat_small) (simp add: block_in_def)
  have lo: "0xFFFF900000000000 div 4096 \<le> unat (p + of_nat i) div 4096"
    using assms s u by (intro div_le_mono) (simp add: block_in_def)
  have hi: "unat (p + of_nat i) div 4096 \<le> (0xFFFF900000000000 + 0x18FFF) div 4096"
    using assms s u by (intro div_le_mono) (simp add: block_in_def)
  have "unat (KERNEL_HEAP_START + 0x18000) = 0xFFFF900000018000" by (simp add: KERNEL_HEAP_START_def)
  then show ?thesis using lo hi s by (simp add: set_kernel_heap_pages word_le_nat_alt unat_page_of)
qed

section \<open>An example\<close>

text \<open>A free list that places a block after all live ones.\<close>

type_synonym ex_free_list = "(u64 \<times> nat) \<times> (u64 \<times> nat) list"

definition ex_fit :: "Layout \<Rightarrow> ex_free_list \<Rightarrow> u64" where
  "ex_fit l fl =
     (let top = fold max (map (\<lambda>(p, n). unat p + n) (snd fl)) (unat (fst (fst fl)))
      in of_nat (div_ceil top (layout_align l) * layout_align l))"

definition ex_heap :: "ex_free_list heap_crate" where
  "ex_heap = \<lparr>heap_init = (\<lambda>a n fl. ((a, n), [])),
     allocate_first_fit = (\<lambda>l fl. let p = ex_fit l fl in
       if p \<noteq> 0 \<and> layout_align l dvd unat p \<and> block_in (fst (fst fl)) (snd (fst fl)) (p, layout_size l) \<and>
          list_all (\<lambda>(q, k). apart p (layout_size l) q k) (snd fl)
       then (Some p, (fst fl, (p, layout_size l) # snd fl)) else (None, fl)),
     heap_deallocate = (\<lambda>p l fl. (fst fl, removeAll (p, layout_size l) (snd fl)))\<rparr>"

lemma ex_heap_ok: "heap_crate_ok ex_heap fst (\<lambda>fl. set (snd fl))"
  unfolding heap_crate_ok_def
proof (intro conjI allI impI)
  fix l fl p fl'
  assume "allocate_first_fit ex_heap l fl = (Some p, fl')"
  then have e: "p \<noteq> 0" "layout_align l dvd unat p" "block_in (fst (fst fl)) (snd (fst fl)) (p, layout_size l)"
    "list_all (\<lambda>(q, k). apart p (layout_size l) q k) (snd fl)" "fl' = (fst fl, (p, layout_size l) # snd fl)"
    by (auto simp: ex_heap_def Let_def split: if_splits)
  show "p \<noteq> 0" "layout_align l dvd unat p" "block_in (fst (fst fl)) (snd (fst fl)) (p, layout_size l)"
    by (fact e)+
  show "\<forall>(q, k) \<in> set (snd fl). apart p (layout_size l) q k" using e(4) by (simp add: list_all_iff)
  show "set (snd fl') = insert (p, layout_size l) (set (snd fl))" "fst fl' = fst fl" by (simp_all add: e(5))
qed (auto simp: ex_heap_def Let_def split: if_splits)

section \<open>Properties\<close>

text \<open>C17. The kernel heap, whatever the kernel does with it: in every session of allocations and frees
  after \<open>init\<close>, the lock is free and the interrupt flag as it was between the calls, the live blocks are disjoint,
  and every allocation returns, with a null pointer or with an aligned block that overlaps no live block and whose
  bytes all lie on the pages that \<open>init_heap\<close> maps.\<close>

theorem kernel_heap_session:
  assumes "heap_crate_ok hc region live" "heap_session hc live h0 h" "\<not> locked h0"
  shows "\<not> locked h \<and> interrupts_on h = interrupts_on h0 \<and>
    (\<forall>b \<in> live (contents h). \<forall>c \<in> live (contents h). b \<noteq> c \<longrightarrow> apart (fst b) (snd b) (fst c) (snd c)) \<and>
    (\<exists>p h'. SafeLockedHeap_alloc hc l h = Some (p, h') \<and>
       (p \<noteq> 0 \<longrightarrow> layout_align l dvd unat p \<and> (\<forall>(q, k) \<in> live (contents h). apart p (layout_size l) q k) \<and>
          (\<forall>i < layout_size l. page_of (p + of_nat i) \<in> set kernel_heap_pages)))"
proof -
  note inv = heap_session_inv [OF assms]
  have unlocked: "\<not> locked h" using inv by (simp add: heap_inv_def)
  obtain p h' where a: "SafeLockedHeap_alloc hc l h = Some (p, h')"
    by (cases "allocate_first_fit hc l (contents h)") (auto simp: SafeLockedHeap_alloc_eq [OF unlocked])
  have "page_of (p + of_nat i) \<in> set kernel_heap_pages" if "p \<noteq> 0" "i < layout_size l" for i
  proof -
    have "live (contents h') = insert (p, layout_size l) (live (contents h))"
      using heap_alloc_step(2) [OF assms(1) inv a that(1)] by (elim conjE)
    moreover have "blocks_ok (live (contents h'))" using heap_alloc_step(1) [OF assms(1) inv a] by (simp add: heap_inv_def)
    ultimately have "block_in KERNEL_HEAP_START KERNEL_HEAP_SIZE (p, layout_size l)" by (simp add: blocks_ok_def)
    then show ?thesis using that(2) by (rule block_page)
  qed
  moreover have "layout_align l dvd unat p \<and> (\<forall>(q, k) \<in> live (contents h). apart p (layout_size l) q k)" if "p \<noteq> 0"
    using heap_alloc_step(2) [OF assms(1) inv a that] by (elim conjE) (intro conjI)
  moreover have "blocks_ok (live (contents h))" "interrupts_on h = interrupts_on h0" using inv by (simp_all add: heap_inv_def)
  ultimately show ?thesis using a unlocked unfolding blocks_ok_def by (intro conjI exI [of _ p] exI [of _ h']) simp_all
qed

theorem kernel_heap_session_witness:
  "\<exists>h p h'. heap_session ex_heap (\<lambda>fl. set (snd fl)) \<lparr>interrupts_on = True, locked = False, contents = ((0, 0), [])\<rparr> h \<and>
     SafeLockedHeap_alloc ex_heap \<lparr>layout_size = 24, layout_align = 8\<rparr> h = Some (p, h') \<and> interrupts_on h"
proof -
  define h0 :: "ex_free_list guarded" where "h0 = \<lparr>interrupts_on = True, locked = False, contents = ((0, 0), [])\<rparr>"
  define h where "h = h0\<lparr>contents := ((KERNEL_HEAP_START, KERNEL_HEAP_SIZE), [])\<rparr>"
  have "SafeLockedHeap_init ex_heap KERNEL_HEAP_START KERNEL_HEAP_SIZE h0 = Some ((), h)"
    by (simp add: SafeLockedHeap_init_def ex_heap_def h_def h0_def)
  then have s: "heap_session ex_heap (\<lambda>fl. set (snd fl)) h0 h" by (rule heap_session.session_init)
  have "\<not> locked h0" "interrupts_on h" by (simp_all add: h0_def h_def)
  then show ?thesis
    using kernel_heap_session [OF ex_heap_ok s, of "\<lparr>layout_size = 24, layout_align = 8\<rparr>"] s unfolding h0_def by blast
qed

text \<open>C24. With 100 free frames, \<open>init_heap\<close> succeeds: it maps exactly the 25 pages of the heap, present and
  writable and not open to user mode, on frames of their own that are no longer free, and hands the region to the
  allocator. With no free frame it returns \<open>FrameAllocationFailed\<close> and does not panic.\<close>

theorem init_heap_maps_pages:
  assumes "x86_64_ok x" "map_to_progress x allocate_frame pmm_avail (set kernel_heap_pages)"
    and "virt_addr_new x KERNEL_HEAP_START = Some KERNEL_HEAP_START" "\<not> locked h"
    and "pmm_window_inv hhdm (manager s, vmem s)" "\<forall>q \<in> set kernel_heap_pages. translate_page x (tables s) q = None"
  shows "(100 \<le> card (pmm_avail (manager s, vmem s)) \<longrightarrow>
     (\<exists>s' h'. init_heap x allocate_frame hc s h = Inr (s', h') \<and>
        contents h' = heap_init hc KERNEL_HEAP_START KERNEL_HEAP_SIZE (contents h) \<and>
        dom (translate_page x (tables s')) = set kernel_heap_pages \<union> dom (translate_page x (tables s)) \<and>
        (\<forall>q \<in> set kernel_heap_pages. flags_of x (tables s') q = {PRESENT, WRITABLE} \<and>
           the (translate_page x (tables s') q) \<notin> pmm_avail (manager s', vmem s')) \<and>
        inj_on (translate_page x (tables s')) (set kernel_heap_pages))) \<and>
    (pmm_avail (manager s, vmem s) = {} \<longrightarrow> init_heap x allocate_frame hc s h = Inl (Heap_Error FrameAllocationFailed))"
proof (intro conjI impI)
  have owned: "pmmw.owned hhdm x (set kernel_heap_pages) s" using assms(5,6) by (simp add: pmmw.owned_def)
  have none: "set kernel_heap_pages \<inter> dom (translate_page x (tables s)) = {}" using assms(6) by auto
  assume "100 \<le> card (pmm_avail (manager s, vmem s))"
  from pmmw.init_heap_effect [OF assms(1-3) owned subset_refl none this assms(4)]
  obtain s' where s': "init_heap x allocate_frame hc s h =
      Inr (s', h\<lparr>contents := heap_init hc KERNEL_HEAP_START KERNEL_HEAP_SIZE (contents h)\<rparr>)"
    "pmmw.owned hhdm x (set kernel_heap_pages) s'"
    "dom (translate_page x (tables s')) = set kernel_heap_pages \<union> dom (translate_page x (tables s))"
    "flags_of x (tables s') = (\<lambda>q. if q \<in> set kernel_heap_pages then {PRESENT, WRITABLE} else flags_of x (tables s) q)" by blast
  have mapped: "\<exists>f. translate_page x (tables s') q = Some f" if "q \<in> set kernel_heap_pages" for q
    using that s'(3) by (metis UnCI domD)
  have "inj_on (translate_page x (tables s')) (set kernel_heap_pages)"
    by (rule inj_onI) (metis mapped pmmw.owned_inj [OF s'(2)])
  moreover have "the (translate_page x (tables s') q) \<notin> pmm_avail (manager s', vmem s')" if "q \<in> set kernel_heap_pages" for q
    using pmmw.ownedD(3) [OF s'(2) that] mapped [OF that] by auto
  ultimately show "\<exists>s' h'. init_heap x allocate_frame hc s h = Inr (s', h') \<and>
      contents h' = heap_init hc KERNEL_HEAP_START KERNEL_HEAP_SIZE (contents h) \<and>
      dom (translate_page x (tables s')) = set kernel_heap_pages \<union> dom (translate_page x (tables s)) \<and>
      (\<forall>q \<in> set kernel_heap_pages. flags_of x (tables s') q = {PRESENT, WRITABLE} \<and>
         the (translate_page x (tables s') q) \<notin> pmm_avail (manager s', vmem s')) \<and>
      inj_on (translate_page x (tables s')) (set kernel_heap_pages)"
    using s'(1,3,4) by (intro exI [of _ s'] exI conjI) auto
next
  assume "pmm_avail (manager s, vmem s) = {}"
  then have "allocate_frame (manager s, vmem s) = (None, (manager s, vmem s))"
    using pmmw.allocate_cases [OF assms(5)] by (metis empty_iff)
  then have "map_heap_page x allocate_frame q s = Inl FrameAllocationFailed" for q
    by (simp add: map_heap_page_def alloc_frame_def)
  then have "for_each (map_heap_page x allocate_frame) kernel_heap_pages s = Inl FrameAllocationFailed"
    using heap_bounds(5) by (intro for_each_fails) auto
  moreover have "range_inclusive x (containing_address x KERNEL_HEAP_START)
      (containing_address x (KERNEL_HEAP_START + of_nat KERNEL_HEAP_SIZE - 1)) = kernel_heap_pages"
    using assms(1) by (simp only: x86_64_ok_def heap_bounds kernel_heap_pages_def)
  ultimately show "init_heap x allocate_frame hc s h = Inl (Heap_Error FrameAllocationFailed)"
    using assms(3) by (simp add: init_heap_def Let_def)
qed

theorem init_heap_maps_pages_witness:
  "\<exists>s' h'. init_heap ex_x86 allocate_frame ex_heap ex_vm \<lparr>interrupts_on = False, locked = False, contents = ((0, 0), [])\<rparr> = Inr (s', h') \<and>
     contents h' = ((KERNEL_HEAP_START, KERNEL_HEAP_SIZE), [])"
proof -
  have "virt_addr_new ex_x86 KERNEL_HEAP_START = Some KERNEL_HEAP_START"
    "\<forall>q \<in> set kernel_heap_pages. translate_page ex_x86 (tables ex_vm) q = None" by (simp_all add: ex_x86_def ex_vm_def)
  from init_heap_maps_pages [OF ex_x86_ok ex_progress this(1) _ ex_vm_pmm(1) this(2),
      of "\<lparr>interrupts_on = False, locked = False, contents = ((0, 0), [])\<rparr>" ex_heap]
  show ?thesis by (auto simp: ex_vm_pmm(2) ex_heap_def)
qed

end
