(* ===== verification/Boot.thy ===== *)
theory Boot
  imports Bump_Allocator Elf_Loader Screen
begin

text \<open>
  The phases of the UEFI bootloader, \<open>uefi_boot/src/main.rs\<close>: the kernel's segments, its stack, the size of memory
  and the higher-half window on it, the identity mapping of the running code and the frame buffer. \<open>allocate_pages\<close>
  of UEFI is a parameter, on a state of the firmware. So is the
  \<open>x86_64\<close> crate: the record \<open>x86_64\<close> for pages of 4 KiB and the record \<open>x86_64_boot\<close> for what only
  the bootloader uses. While the bootloader runs, memory is mapped one to one; \<open>vmem\<close> is physical memory.
  Log messages are left out.
\<close>

section \<open>Interfaces\<close>

text \<open>The two \<open>try\<close> functions are \<open>map_to\<close> where the code ignores its error: they return whether the page
  was mapped and the state afterwards. \<open>translate_huge\<close> is not called: it observes the frame and the flags of a page of 2 MiB.\<close>

record ('pt, 'a) x86_64_boot =
  phys_addr_new :: "u64 \<Rightarrow> u64 option"
  frame_containing :: "u64 \<Rightarrow> u64"
  frame_range_inclusive :: "u64 \<Rightarrow> u64 \<Rightarrow> u64 list"
  huge_containing :: "u64 \<Rightarrow> u64"
  huge_range_inclusive :: "u64 \<Rightarrow> u64 \<Rightarrow> u64 list"
  try_map_huge :: "u64 \<Rightarrow> u64 \<Rightarrow> page_flags \<Rightarrow> 'a allocator \<Rightarrow> 'pt \<Rightarrow> 'a \<times> memory \<Rightarrow> bool \<times> 'pt \<times> ('a \<times> memory)"
  try_map :: "u64 \<Rightarrow> u64 \<Rightarrow> page_flags \<Rightarrow> 'a allocator \<Rightarrow> 'pt \<Rightarrow> 'a \<times> memory \<Rightarrow> bool \<times> 'pt \<times> ('a \<times> memory)"
  new_tables :: "u64 \<Rightarrow> 'pt"
  translate_huge :: "'pt \<Rightarrow> u64 \<Rightarrow> (u64 \<times> page_flags) option"

type_synonym 'pt boot_vm = "('pt, BumpAllocator) vm"

definition boot_allocate :: "('pt, BumpAllocator) x86_64_boot \<Rightarrow> BumpAllocator allocator" where
  "boot_allocate y s =
     (let (r, b) = bump_allocate_frame (frame_containing y) (fst s) in (r, (b, snd s)))"

definition phys_frame :: "('pt, 'a) x86_64_boot \<Rightarrow> u64 \<Rightarrow> panic + u64" where
  "phys_frame y a = and_then (expect ''PhysAddr::new'' (phys_addr_new y a)) (\<lambda>p. Inr (frame_containing y p))"

section \<open>The kernel's segments\<close>

fun map_consecutive ::
  "('pt, BumpAllocator) x86_64 \<Rightarrow> ('pt, BumpAllocator) x86_64_boot \<Rightarrow> page_flags \<Rightarrow> u64 list \<Rightarrow> u64 \<Rightarrow> 'pt boot_vm \<Rightarrow>
   panic + 'pt boot_vm" where
  "map_consecutive x y flags [] fr_addr s = Inr s"
| "map_consecutive x y flags (page # pages) fr_addr s =
     and_then (phys_frame y fr_addr) (\<lambda>frame.
     and_then (expect ''Failed to map kernel page'' (map_frame x (boot_allocate y) page frame flags s)) (\<lambda>s.
       map_consecutive x y flags pages (fr_addr + 4096) s))"

definition load_kernel_segment ::
  "('pt, BumpAllocator) x86_64 \<Rightarrow> ('pt, BumpAllocator) x86_64_boot \<Rightarrow> (nat \<Rightarrow> 'u \<Rightarrow> u64 option \<times> 'u) \<Rightarrow> u8 list \<Rightarrow>
   ProgramHeader \<Rightarrow> 'pt boot_vm \<times> 'u \<Rightarrow> panic + 'pt boot_vm \<times> 'u" where
  "load_kernel_segment x y allocate_pages kernel_data ph su =
     (let (s, u) = su;
          memsz = mem_size ph;
          filesz = file_size ph;
          virt_addr = virtual_addr ph;
          offset = ph_file_offset ph;
          pages = div_ceil (unat memsz) 0x1000;
          (r, u) = allocate_pages pages u
      in and_then (expect ''Failed to allocate pages for segment'' r) (\<lambda>phys_addr.
         let slice_len = usize_mul pages 0x1000;
             start = unat offset;
             fin = usize_add start (unat filesz)
         in if slice_len < unat filesz \<or> fin < start \<or> length kernel_data < fin \<or> slice_len < unat memsz
            then Inl (Panic ''slice index out of range'')
            else
              let s = s\<lparr>vmem := store_bytes (vmem s) phys_addr (take (fin - start) (drop start kernel_data))\<rparr>;
                  s = (if memsz > filesz
                       then s\<lparr>vmem := write_bytes (vmem s) (phys_addr + filesz) 0 (unat memsz - unat filesz)\<rparr> else s)
              in and_then (page_at x virt_addr) (\<lambda>start_page.
                 and_then (page_at x (virt_addr + memsz - 1)) (\<lambda>end_page.
                 let flags = (if ph_is_write ph then {PRESENT, WRITABLE} else {PRESENT})
                 in and_then (map_consecutive x y flags (range_inclusive x start_page end_page) phys_addr s) (\<lambda>s.
                    Inr (s, u))))))"

definition load_kernel ::
  "('pt, BumpAllocator) x86_64 \<Rightarrow> ('pt, BumpAllocator) x86_64_boot \<Rightarrow> (nat \<Rightarrow> 'u \<Rightarrow> u64 option \<times> 'u) \<Rightarrow> ElfFile \<Rightarrow> u8 list \<Rightarrow>
   'pt boot_vm \<times> 'u \<Rightarrow> panic + 'pt boot_vm \<times> 'u" where
  "load_kernel x y allocate_pages elf kernel_data su =
     for_each (\<lambda>ph su. if ph_type ph = Some Load then load_kernel_segment x y allocate_pages kernel_data ph su else Inr su)
       (program_iter elf) su"

section \<open>The kernel's stack\<close>

definition KERNEL_BASE :: u64 where "KERNEL_BASE = 0xffffffff80000000"
definition STACK_TOP :: u64 where "STACK_TOP = KERNEL_BASE - 0x1000"

definition map_stack_page ::
  "('pt, BumpAllocator) x86_64 \<Rightarrow> ('pt, BumpAllocator) x86_64_boot \<Rightarrow> u64 \<Rightarrow> 'pt boot_vm \<Rightarrow> panic + 'pt boot_vm" where
  "map_stack_page x y page s =
     (let (r, s) = alloc_frame (boot_allocate y) s
      in and_then (expect ''Failed to allocate stack frame'' r) (\<lambda>frame.
         expect ''Failed to map stack'' (map_frame x (boot_allocate y) page frame {PRESENT, WRITABLE} s)))"

definition map_kernel_stack ::
  "('pt, BumpAllocator) x86_64 \<Rightarrow> ('pt, BumpAllocator) x86_64_boot \<Rightarrow> 'pt boot_vm \<Rightarrow> panic + 'pt boot_vm" where
  "map_kernel_stack x y s =
     (let stack_size = 20 * 1024
      in and_then (page_at x (STACK_TOP - stack_size)) (\<lambda>stack_bottom_page.
         and_then (page_at x (STACK_TOP - 1)) (\<lambda>stack_top_page.
           for_each (map_stack_page x y) (range_inclusive x stack_bottom_page stack_top_page) s)))"

section \<open>The higher-half window\<close>

definition max_phys_step :: "MemoryDescriptor \<Rightarrow> u64 \<Rightarrow> u64" where
  "max_phys_step descriptor max_phys_addr =
     (let fin = phys_start descriptor + page_count descriptor * 4096
      in if fin > max_phys_addr then fin else max_phys_addr)"

definition detect_max_phys :: "MemoryDescriptor list \<Rightarrow> u64" where
  "detect_max_phys entries = (fold max_phys_step entries 0 + 0x1fffff) AND NOT 0x1fffff"

definition BOOT_HHDM_OFFSET :: u64 where "BOOT_HHDM_OFFSET = 0xffff800000000000"

definition map_hhdm_frame ::
  "('pt, BumpAllocator) x86_64 \<Rightarrow> ('pt, BumpAllocator) x86_64_boot \<Rightarrow> u64 \<Rightarrow> 'pt boot_vm \<Rightarrow> panic + 'pt boot_vm" where
  "map_hhdm_frame x y frame s =
     and_then (expect ''VirtAddr::new'' (virt_addr_new x (frame + BOOT_HHDM_OFFSET))) (\<lambda>virt.
     let page = huge_containing y virt;
         (_, pt, a, m) = try_map_huge y page frame {PRESENT, WRITABLE} (boot_allocate y) (tables s) (manager s, vmem s)
     in Inr (s\<lparr>tables := pt, manager := a, vmem := m\<rparr>))"

definition map_hhdm ::
  "('pt, BumpAllocator) x86_64 \<Rightarrow> ('pt, BumpAllocator) x86_64_boot \<Rightarrow> u64 \<Rightarrow> 'pt boot_vm \<Rightarrow> panic + 'pt boot_vm" where
  "map_hhdm x y max_phys_addr s =
     and_then (expect ''PhysAddr::new'' (phys_addr_new y 0)) (\<lambda>a.
     and_then (expect ''PhysAddr::new'' (phys_addr_new y (max_phys_addr - 1))) (\<lambda>b.
       for_each (map_hhdm_frame x y) (huge_range_inclusive y (huge_containing y a) (huge_containing y b)) s))"

section \<open>The running code\<close>

definition map_identity_page ::
  "('pt, BumpAllocator) x86_64 \<Rightarrow> ('pt, BumpAllocator) x86_64_boot \<Rightarrow> u64 \<Rightarrow> nat \<Rightarrow> 'pt boot_vm \<Rightarrow> panic + 'pt boot_vm" where
  "map_identity_page x y start_rip offset s =
     (let addr = start_rip + of_nat offset * 0x1000
      in and_then (page_at x addr) (\<lambda>page.
         and_then (phys_frame y addr) (\<lambda>frame.
         let (_, pt, a, m) = try_map y page frame {PRESENT, WRITABLE} (boot_allocate y) (tables s) (manager s, vmem s)
         in Inr (s\<lparr>tables := pt, manager := a, vmem := m\<rparr>))))"

definition map_identity ::
  "('pt, BumpAllocator) x86_64 \<Rightarrow> ('pt, BumpAllocator) x86_64_boot \<Rightarrow> u64 \<Rightarrow> 'pt boot_vm \<Rightarrow> panic + 'pt boot_vm" where
  "map_identity x y current_rip s = for_each (map_identity_page x y (current_rip AND NOT 0xfff)) [0..<512] s"

section \<open>The frame buffer\<close>

datatype UefiPixelFormat = Rgb | Bgr | Bitmask | BltOnly

definition convert_format :: "UefiPixelFormat \<Rightarrow> PixelFormat" where
  "convert_format f = (case f of Rgb \<Rightarrow> RGB | Bgr \<Rightarrow> BGR | _ \<Rightarrow> RGB)"

definition FRAMEBUFFER_VIRT_BASE :: u64 where "FRAMEBUFFER_VIRT_BASE = 0xFFFFA00000000000"

definition map_fb_frame ::
  "('pt, BumpAllocator) x86_64 \<Rightarrow> ('pt, BumpAllocator) x86_64_boot \<Rightarrow> u64 \<Rightarrow> u64 \<Rightarrow> 'pt boot_vm \<Rightarrow> panic + 'pt boot_vm" where
  "map_fb_frame x y fb_phys_addr frame s =
     (let offset = frame - fb_phys_addr
      in and_then (page_at x (FRAMEBUFFER_VIRT_BASE + offset)) (\<lambda>page.
         expect ''Mapping error'' (map_frame x (boot_allocate y) page frame {PRESENT, WRITABLE, NO_CACHE} s)))"

definition map_framebuffer ::
  "('pt, BumpAllocator) x86_64 \<Rightarrow> ('pt, BumpAllocator) x86_64_boot \<Rightarrow> u64 \<Rightarrow> nat \<Rightarrow> 'pt boot_vm \<Rightarrow> panic + 'pt boot_vm" where
  "map_framebuffer x y fb_phys_addr fb_size s =
     and_then (phys_frame y fb_phys_addr) (\<lambda>fb_start_frame.
     and_then (phys_frame y (fb_phys_addr + of_nat fb_size - 1)) (\<lambda>fb_end_frame.
       for_each (map_fb_frame x y fb_phys_addr) (frame_range_inclusive y fb_start_frame fb_end_frame) s))"

section \<open>What the crate documents\<close>

definition huge_of :: "u64 \<Rightarrow> u64" where
  "huge_of a = a AND NOT 0x1fffff"

definition huge_between :: "u64 \<Rightarrow> u64 \<Rightarrow> u64 list" where
  "huge_between p q =
     (if p \<le> q then map (\<lambda>i. p + of_nat (2097152 * i)) [0..<(unat q - unat p) div 2097152 + 1] else [])"

definition x86_64_boot_ok :: "('pt, 'a) x86_64_boot \<Rightarrow> bool" where
  "x86_64_boot_ok y \<longleftrightarrow>
     (\<forall>a. frame_containing y a = page_of a) \<and> (\<forall>p q. frame_range_inclusive y p q = pages_between p q) \<and>
     (\<forall>a p. phys_addr_new y a = Some p \<longrightarrow> p = a) \<and>
     (\<forall>a. huge_containing y a = huge_of a) \<and> (\<forall>p q. huge_range_inclusive y p q = huge_between p q) \<and>
     (\<forall>page frame flags allocate pt s done pt' s'.
        try_map_huge y page frame flags allocate pt s = (done, pt', s') \<longrightarrow>
        translate_huge y pt' = (if done then (translate_huge y pt)(page \<mapsto> (frame, flags)) else translate_huge y pt))"

lemma huge_mask: "(0x1fffff :: u64) = mask 21"
  by (simp add: mask_eq_exp_minus_1)

lemma unat_huge_of: "unat (huge_of a) = unat a div 2097152 * 2097152"
  unfolding huge_of_def huge_mask unat_and_not_mask by simp

section \<open>The size of memory\<close>

definition desc_end :: "MemoryDescriptor \<Rightarrow> nat" where
  "desc_end d = unat (phys_start d) + unat (page_count d) * 4096"

lemma unat_max_phys:
  assumes "\<forall>d \<in> set ds. desc_end d < 2 ^ 64"
  shows "unat (fold max_phys_step ds a) = fold max (map desc_end ds) (unat a)"
  using assms
proof (induction ds arbitrary: a)
  case (Cons d ds)
  have lt: "unat (phys_start d) + unat (page_count d) * 4096 < 2 ^ 64" using Cons.prems by (simp add: desc_end_def)
  have m: "unat (page_count d * 4096) = unat (page_count d) * 4096" using lt by (subst unat_mul_small) auto
  have "unat (phys_start d + page_count d * 4096) = desc_end d"
    unfolding desc_end_def using lt by (subst unat_add_small) (auto simp: m)
  then have "unat (max_phys_step d a) = max (desc_end d) (unat a)"
    by (auto simp: max_phys_step_def Let_def word_less_nat_alt max_def)
  then show ?case using Cons by simp
qed simp

lemma fold_max_nat: "fold max (ns :: nat list) a \<le> k \<longleftrightarrow> a \<le> k \<and> (\<forall>n \<in> set ns. n \<le> k)"
  by (induction ns arbitrary: a) auto

lemma detect_max_phys_eq:
  assumes "\<forall>d \<in> set ds. desc_end d \<le> 2 ^ 47"
  shows "unat (detect_max_phys ds) = (fold max (map desc_end ds) 0 + 2097151) div 2097152 * 2097152"
proof -
  have b: "fold max (map desc_end ds) 0 \<le> 2 ^ 47" using assms by (simp add: fold_max_nat)
  have "\<forall>d \<in> set ds. desc_end d < 2 ^ 64" using assms by fastforce
  then have u: "unat (fold max_phys_step ds 0) = fold max (map desc_end ds) 0" using unat_max_phys [of ds 0] by simp
  then have "unat (fold max_phys_step ds 0 + 0x1fffff) = fold max (map desc_end ds) 0 + 2097151"
    using b by (subst unat_add_small) auto
  then show ?thesis unfolding detect_max_phys_def huge_of_def [symmetric] unat_huge_of by simp
qed

section \<open>Mapping loops\<close>

lemma boot_allocate_n_mem: "allocate_n (boot_allocate y) n s = (fs, s') \<Longrightarrow> snd s' = snd s"
proof (induction n arbitrary: s fs)
  case (Suc n)
  obtain r t where t: "boot_allocate y s = (r, t)" "snd t = snd s"
    by (cases "boot_allocate y s") (auto simp: boot_allocate_def Let_def split: prod.splits)
  then show ?case using Suc by (cases r) (auto split: prod.splits)
qed auto

lemma map_frame_effect:
  assumes "x86_64_ok x" "map_frame x (boot_allocate y) page frame flags s = Some s'"
  shows "vmem s' = vmem s" "translate_page x (tables s') = (translate_page x (tables s))(page \<mapsto> frame)"
    "flags_of x (tables s') = (flags_of x (tables s))(page := flags)"
proof -
  obtain pt a m where m: "map_to x page frame flags (boot_allocate y) (tables s) (manager s, vmem s) = Some (pt, (a, m))"
    "s' = s\<lparr>tables := pt, manager := a, vmem := m\<rparr>"
    using assms(2) by (auto simp: map_frame_def split: option.splits prod.splits)
  then have e: "translate_page x pt = (translate_page x (tables s))(page \<mapsto> frame) \<and>
      flags_of x pt = (flags_of x (tables s))(page := flags) \<and>
      (\<exists>n fs. allocate_n (boot_allocate y) n (manager s, vmem s) = (fs, (a, m)))"
    using assms(1) unfolding x86_64_ok_def by blast
  then show "vmem s' = vmem s" using boot_allocate_n_mem [of y _ "(manager s, vmem s)"] m(2) by fastforce
  show "translate_page x (tables s') = (translate_page x (tables s))(page \<mapsto> frame)"
    "flags_of x (tables s') = (flags_of x (tables s))(page := flags)" using e m(2) by auto
qed

lemma phys_frame_Inr:
  assumes "x86_64_boot_ok y" "phys_frame y a = Inr f"
  shows "f = page_of a"
  using assms by (auto simp: phys_frame_def and_then_Inr expect_Inr x86_64_boot_ok_def)

lemma map_consecutive_effect:
  assumes x: "x86_64_ok x" "x86_64_boot_ok y"
    and "map_consecutive x y flags pages a s = Inr s'" "distinct pages" "4096 dvd unat a"
  shows "vmem s' = vmem s \<and> (\<forall>q. q \<notin> set pages \<longrightarrow> translate_page x (tables s') q = translate_page x (tables s) q) \<and>
    (\<forall>k < length pages. translate_page x (tables s') (pages ! k) = Some (a + of_nat (4096 * k)))"
  using assms(3-)
proof (induction pages arbitrary: a s)
  case (Cons p ps)
  obtain f s1 where f: "phys_frame y a = Inr f" "map_frame x (boot_allocate y) p f flags s = Some s1"
    "map_consecutive x y flags ps (a + 4096) s1 = Inr s'"
    using Cons.prems(1) by (auto simp: and_then_Inr expect_Inr)
  have fa: "f = a" using phys_frame_Inr [OF x(2) f(1)] Cons.prems(3) by (simp add: page_of_page)
  note e = map_frame_effect [OF x(1) f(2)]
  have al: "4096 dvd unat (a + 4096)"
  proof -
    have "unat (a + 4096) = (unat a + 4096) mod 2 ^ 64" by (simp add: unat_word_ariths)
    then show ?thesis using Cons.prems(3) by (simp add: dvd_mod)
  qed
  note IH = Cons.IH [OF f(3) _ al]
  show ?case
  proof (intro conjI allI impI)
    show "vmem s' = vmem s" using IH e(1) Cons.prems(2) by simp
    show "translate_page x (tables s') q = translate_page x (tables s) q" if "q \<notin> set (p # ps)" for q
      using that IH e(2) Cons.prems(2) by simp
    show "translate_page x (tables s') ((p # ps) ! k) = Some (a + of_nat (4096 * k))" if "k < length (p # ps)" for k
    proof (cases k)
      case 0
      then show ?thesis using IH e(2) Cons.prems(2) fa by simp
    next
      case (Suc j)
      then show ?thesis using IH that Cons.prems(2) by (simp add: algebra_simps)
    qed
  qed
qed simp

section \<open>The window\<close>

text \<open>As long as \<open>P\<close> holds of the tables and the pool, such as that the pool has frames left for the
  tables of the window, the huge pages \<open>W\<close> that are not mapped can be mapped, and \<open>P\<close> stays.\<close>

definition huge_progress ::
  "('pt, BumpAllocator) x86_64_boot \<Rightarrow> ('pt \<Rightarrow> BumpAllocator \<times> memory \<Rightarrow> bool) \<Rightarrow> u64 set \<Rightarrow> bool" where
  "huge_progress y P W \<longleftrightarrow>
     (\<forall>page \<in> W. \<forall>frame flags pt s. P pt s \<and> translate_huge y pt page = None \<longrightarrow>
        (\<exists>pt' s'. try_map_huge y page frame flags (boot_allocate y) pt s = (True, pt', s') \<and> P pt' s'))"

lemma map_hhdm_frames_effect:
  assumes y: "x86_64_boot_ok y" "huge_progress y P W"
    and "\<forall>f \<in> set fs. virt_addr_new x (f + BOOT_HHDM_OFFSET) = Some (f + BOOT_HHDM_OFFSET) \<and>
      huge_of (f + BOOT_HHDM_OFFSET) = f + BOOT_HHDM_OFFSET \<and> f + BOOT_HHDM_OFFSET \<in> W \<and>
      translate_huge y (tables s) (f + BOOT_HHDM_OFFSET) = None"
    and "distinct fs" "P (tables s) (manager s, vmem s)"
  shows "\<exists>s'. for_each (map_hhdm_frame x y) fs s = Inr s' \<and>
    (\<forall>f \<in> set fs. translate_huge y (tables s') (f + BOOT_HHDM_OFFSET) = Some (f, {PRESENT, WRITABLE})) \<and>
    (\<forall>q. q - BOOT_HHDM_OFFSET \<notin> set fs \<longrightarrow> translate_huge y (tables s') q = translate_huge y (tables s) q) \<and>
    P (tables s') (manager s', vmem s')"
  using assms(3-)
proof (induction fs arbitrary: s)
  case (Cons f fs)
  let ?p = "f + BOOT_HHDM_OFFSET"
  have f: "virt_addr_new x ?p = Some ?p" "huge_containing y ?p = ?p" "?p \<in> W" "translate_huge y (tables s) ?p = None"
    using Cons.prems(1) y(1) by (auto simp: x86_64_boot_ok_def)
  obtain pt a m where t: "try_map_huge y ?p f {PRESENT, WRITABLE} (boot_allocate y) (tables s) (manager s, vmem s) = (True, pt, (a, m))"
    "P pt (a, m)"
    using y(2) f(3,4) Cons.prems(3) unfolding huge_progress_def by (metis surj_pair)
  define s1 where "s1 = s\<lparr>tables := pt, manager := a, vmem := m\<rparr>"
  have step: "map_hhdm_frame x y f s = Inr s1" using f(1,2) t(1) by (simp add: map_hhdm_frame_def s1_def Let_def)
  have tr: "translate_huge y (tables s1) = (translate_huge y (tables s))(?p \<mapsto> (f, {PRESENT, WRITABLE}))"
    using y(1) t(1) unfolding x86_64_boot_ok_def s1_def by fastforce
  have "\<forall>g \<in> set fs. virt_addr_new x (g + BOOT_HHDM_OFFSET) = Some (g + BOOT_HHDM_OFFSET) \<and>
      huge_of (g + BOOT_HHDM_OFFSET) = g + BOOT_HHDM_OFFSET \<and> g + BOOT_HHDM_OFFSET \<in> W \<and>
      translate_huge y (tables s1) (g + BOOT_HHDM_OFFSET) = None"
    using Cons.prems(1,2) by (auto simp: tr)
  moreover have "P (tables s1) (manager s1, vmem s1)" using t(2) by (simp add: s1_def)
  ultimately obtain s' where s': "for_each (map_hhdm_frame x y) fs s1 = Inr s'"
    "\<forall>g \<in> set fs. translate_huge y (tables s') (g + BOOT_HHDM_OFFSET) = Some (g, {PRESENT, WRITABLE})"
    "\<forall>q. q - BOOT_HHDM_OFFSET \<notin> set fs \<longrightarrow> translate_huge y (tables s') q = translate_huge y (tables s1) q"
    "P (tables s') (manager s', vmem s')"
    using Cons.IH [of s1] Cons.prems(2) by auto
  have "translate_huge y (tables s') ?p = Some (f, {PRESENT, WRITABLE})" using s'(3) tr Cons.prems(2) by simp
  moreover have "translate_huge y (tables s') q = translate_huge y (tables s) q" if "q - BOOT_HHDM_OFFSET \<notin> set (f # fs)" for q
    using that s'(3) tr by auto
  ultimately show ?case using step s'(1,2,4) by auto
qed simp

text \<open>The huge frames of a memory of \<open>n * 2 MiB\<close>.\<close>

lemma huge_between_zero:
  assumes "unat mx = 2097152 * n" "0 < n"
  shows "huge_between 0 (huge_of (mx - 1)) = map (\<lambda>i. of_nat (2097152 * i)) [0..<n]"
proof -
  have "unat (mx - 1) = 2097152 * n - 1"
    using assms by (subst unat_sub_small) (auto simp: word_le_nat_alt)
  also have "\<dots> = 2097152 * (n - 1) + 2097151" using assms(2) by (cases n) auto
  finally have "unat (huge_of (mx - 1)) = 2097152 * (n - 1)" unfolding unat_huge_of by simp
  then show ?thesis using assms(2) by (simp add: huge_between_def del: of_nat_mult upt_Suc)
qed

lemma window_frame:
  assumes "i < n" "2097152 * n \<le> 2 ^ 47"
  defines "f \<equiv> of_nat (2097152 * i) :: u64"
  shows "unat f = 2097152 * i" "unat (f + BOOT_HHDM_OFFSET) = 2097152 * i + 0xffff800000000000"
    "huge_of (f + BOOT_HHDM_OFFSET) = f + BOOT_HHDM_OFFSET"
proof -
  show u: "unat f = 2097152 * i" unfolding f_def using assms(1,2) by (intro unat_of_nat_small) simp
  show v: "unat (f + BOOT_HHDM_OFFSET) = 2097152 * i + 0xffff800000000000"
    using u assms(1,2) by (subst unat_add_small) (auto simp: BOOT_HHDM_OFFSET_def)
  have "(2097152 * i + 0xffff800000000000) div 2097152 * 2097152 = 2097152 * i + 0xffff800000000000"
  proof -
    have "2097152 * i + 0xffff800000000000 = 2097152 * (i + 0x7fffc000000)" by simp
    then show ?thesis by (simp only: nonzero_mult_div_cancel_left mult.commute)
  qed
  then show "huge_of (f + BOOT_HHDM_OFFSET) = f + BOOT_HHDM_OFFSET" by (simp add: word_unat_eq_iff unat_huge_of v)
qed

lemma window_of_address:
  assumes "p < mx" "unat mx = 2097152 * n" "2097152 * n \<le> 2 ^ 47"
  shows "huge_of (p + BOOT_HHDM_OFFSET) = huge_of p + BOOT_HHDM_OFFSET" "huge_of p \<in> (\<lambda>i. of_nat (2097152 * i)) ` {..<n}"
proof -
  let ?i = "unat p div 2097152"
  have lt: "unat p < 2097152 * n" using assms(1,2) by (simp add: word_less_nat_alt)
  then have i: "?i < n" by (simp add: div_less_iff_less_mult mult.commute)
  have hp: "huge_of p = of_nat (2097152 * ?i)"
    using window_frame(1) [OF i assms(3)] by (simp add: word_unat_eq_iff unat_huge_of del: of_nat_mult)
  then show "huge_of p \<in> (\<lambda>i. of_nat (2097152 * i)) ` {..<n}" using i by blast
  have up: "unat (p + BOOT_HHDM_OFFSET) = unat p + 0xffff800000000000"
    using lt assms(3) by (subst unat_add_small) (auto simp: BOOT_HHDM_OFFSET_def)
  have "(unat p + 0xffff800000000000) div 2097152 * 2097152 = ?i * 2097152 + 0xffff800000000000"
  proof -
    have "unat p + 0xffff800000000000 = unat p + 0x7fffc000000 * 2097152" by simp
    then have "(unat p + 0xffff800000000000) div 2097152 = ?i + 0x7fffc000000" by (simp only: div_mult_self1)
    then show ?thesis by (simp only:) simp
  qed
  then show "huge_of (p + BOOT_HHDM_OFFSET) = huge_of p + BOOT_HHDM_OFFSET"
    unfolding word_unat_eq_iff unat_huge_of up hp window_frame(2) [OF i assms(3)] by simp
qed

lemma map_hhdm_effect:
  assumes "x86_64_boot_ok y" "huge_progress y P ((\<lambda>p. huge_of p + BOOT_HHDM_OFFSET) ` {..<mx})"
    and "2097152 dvd unat mx" "0 < unat mx" "unat mx \<le> 2 ^ 47"
    and "\<forall>a. a \<ge> BOOT_HHDM_OFFSET \<longrightarrow> virt_addr_new x a = Some a" "\<forall>a < mx. phys_addr_new y a = Some a"
    and "\<forall>q \<ge> BOOT_HHDM_OFFSET. translate_huge y (tables s) q = None" "P (tables s) (manager s, vmem s)"
  shows "\<exists>s'. map_hhdm x y mx s = Inr s' \<and>
    (\<forall>p < mx. translate_huge y (tables s') (huge_of (p + BOOT_HHDM_OFFSET)) = Some (huge_of p, {PRESENT, WRITABLE})) \<and>
    (\<forall>q. q \<notin> (\<lambda>p. huge_of p + BOOT_HHDM_OFFSET) ` {..<mx} \<longrightarrow> translate_huge y (tables s') q = translate_huge y (tables s) q) \<and>
    P (tables s') (manager s', vmem s')"
proof -
  obtain n where n: "unat mx = 2097152 * n" using assms(3) by (auto simp: dvd_def)
  have n0: "0 < n" and nb: "2097152 * n \<le> 2 ^ 47" using n assms(4,5) by auto
  define fs where "fs = map (\<lambda>i. of_nat (2097152 * i) :: u64) [0..<n]"
  have frames: "virt_addr_new x (f + BOOT_HHDM_OFFSET) = Some (f + BOOT_HHDM_OFFSET) \<and>
      huge_of (f + BOOT_HHDM_OFFSET) = f + BOOT_HHDM_OFFSET \<and> f + BOOT_HHDM_OFFSET \<in> (\<lambda>p. huge_of p + BOOT_HHDM_OFFSET) ` {..<mx} \<and>
      translate_huge y (tables s) (f + BOOT_HHDM_OFFSET) = None" if f: "f \<in> set fs" for f
  proof -
    obtain i where i: "i < n" "f = of_nat (2097152 * i)" using f by (auto simp: fs_def simp del: of_nat_mult)
    have "BOOT_HHDM_OFFSET \<le> f + BOOT_HHDM_OFFSET"
      using window_frame(2) [OF i(1) nb] unfolding i(2) by (simp add: word_le_nat_alt BOOT_HHDM_OFFSET_def del: of_nat_mult)
    moreover have "huge_of f = f" "f < mx"
      using window_frame(1) [OF i(1) nb] n i by (simp_all add: word_unat_eq_iff unat_huge_of word_less_nat_alt del: of_nat_mult)
    ultimately show ?thesis using assms(6,8) window_frame(3) [OF i(1) nb] i(2) by (auto intro!: image_eqI [of _ _ f])
  qed
  have "distinct fs"
    unfolding fs_def distinct_map
    by (auto intro!: inj_onI dest!: arg_cong [where f = unat] simp: window_frame(1) [OF _ nb] simp del: of_nat_mult)
  with frames obtain s' where s': "for_each (map_hhdm_frame x y) fs s = Inr s'"
    "\<forall>f \<in> set fs. translate_huge y (tables s') (f + BOOT_HHDM_OFFSET) = Some (f, {PRESENT, WRITABLE})"
    "P (tables s') (manager s', vmem s')"
    "\<forall>q. q - BOOT_HHDM_OFFSET \<notin> set fs \<longrightarrow> translate_huge y (tables s') q = translate_huge y (tables s) q"
    using map_hhdm_frames_effect [OF assms(1,2), of fs x s] assms(9) by blast
  have "0 < mx" "mx - 1 < mx" using assms(4) by (auto simp: word_less_nat_alt unat_sub_if')
  then have "map_hhdm x y mx s = Inr s'"
    using s'(1) assms(1,7) huge_between_zero [OF n n0] by (simp add: map_hhdm_def x86_64_boot_ok_def fs_def huge_of_def)
  moreover have "translate_huge y (tables s') (huge_of (p + BOOT_HHDM_OFFSET)) = Some (huge_of p, {PRESENT, WRITABLE})" if "p < mx" for p
  proof -
    have "huge_of p \<in> set fs" using window_of_address(2) [OF that n nb] by (auto simp: fs_def lessThan_atLeast0)
    then show ?thesis using s'(2) window_of_address(1) [OF that n nb] by simp
  qed
  moreover have "translate_huge y (tables s') q = translate_huge y (tables s) q" if q: "q \<notin> (\<lambda>p. huge_of p + BOOT_HHDM_OFFSET) ` {..<mx}" for q
  proof -
    have "q - BOOT_HHDM_OFFSET \<notin> set fs"
    proof
      assume "q - BOOT_HHDM_OFFSET \<in> set fs"
      from frames [OF this] have "q - BOOT_HHDM_OFFSET + BOOT_HHDM_OFFSET \<in> (\<lambda>p. huge_of p + BOOT_HHDM_OFFSET) ` {..<mx}" by blast
      then show False using q by simp
    qed
    then show ?thesis using s'(4) by blast
  qed
  ultimately show ?thesis using s'(3) by blast
qed

section \<open>The image of the kernel\<close>

text \<open>The firmware's \<open>allocate_pages\<close> returns page-aligned memory that nobody has yet; \<open>allocated\<close> observes
  the bytes that are taken.\<close>

definition uefi_alloc_ok :: "(nat \<Rightarrow> 'u \<Rightarrow> u64 option \<times> 'u) \<Rightarrow> ('u \<Rightarrow> u64 set) \<Rightarrow> bool" where
  "uefi_alloc_ok allocate_pages allocated \<longleftrightarrow>
     (\<forall>n u a u'. allocate_pages n u = (Some a, u') \<longrightarrow>
        4096 dvd unat a \<and> unat a + n * 4096 \<le> 2 ^ 64 \<and> {b. in_range a (n * 4096) b} \<inter> allocated u = {} \<and>
        allocated u' = allocated u \<union> {b. in_range a (n * 4096) b})"

text \<open>A segment as the kernel's linker script lays it out: it starts on a page.\<close>

definition kernel_segment_ok :: "u8 list \<Rightarrow> ProgramHeader \<Rightarrow> bool" where
  "kernel_segment_ok kernel_data ph \<longleftrightarrow>
     4096 dvd unat (virtual_addr ph) \<and> 0 < unat (mem_size ph) \<and> unat (file_size ph) \<le> unat (mem_size ph) \<and>
     unat (virtual_addr ph) + unat (mem_size ph) < 2 ^ 64 \<and>
     unat (ph_file_offset ph) + unat (file_size ph) \<le> length kernel_data \<and> length kernel_data < 2 ^ 64"

definition kernel_byte :: "u8 list \<Rightarrow> ProgramHeader \<Rightarrow> nat \<Rightarrow> u8" where
  "kernel_byte kernel_data ph i = (if i < unat (file_size ph) then kernel_data ! (unat (ph_file_offset ph) + i) else 0)"

definition kernel_segment_image :: "u8 list \<Rightarrow> ProgramHeader \<Rightarrow> (u64 \<rightharpoonup> u8) \<Rightarrow> (u64 \<rightharpoonup> u8)" where
  "kernel_segment_image kernel_data ph img =
     (\<lambda>a. if in_range (virtual_addr ph) (unat (mem_size ph)) a then Some (kernel_byte kernel_data ph (unat (a - virtual_addr ph))) else img a)"

text \<open>The bytes of \<open>img\<close> are mapped, on memory in \<open>A\<close>.\<close>

definition holds_image :: "('pt, 'a) x86_64 \<Rightarrow> ('pt, 'a) vm \<Rightarrow> u64 set \<Rightarrow> (u64 \<rightharpoonup> u8) \<Rightarrow> bool" where
  "holds_image x s A img \<longleftrightarrow>
     (\<forall>a b. img a = Some b \<longrightarrow> (\<exists>f. translate_page x (tables s) (page_of a) = Some f \<and>
        f + of_nat (unat a mod 4096) \<in> A \<and> vmem s (f + of_nat (unat a mod 4096)) = b))"

lemma holds_image_user: "holds_image x s A img \<Longrightarrow> img a = Some b \<Longrightarrow> user_image x 0 UNIV s a = Some b"
  by (fastforce simp: holds_image_def user_image_def frame_byte_def)

text \<open>The memory of a segment after the copy and the fill.\<close>

lemma segment_memory:
  fixes a :: u64 and m :: memory
  assumes "kernel_segment_ok kd ph" "i < unat (mem_size ph)"
  defines "d \<equiv> take (unat (file_size ph)) (drop (unat (ph_file_offset ph)) kd)"
  defines "m1 \<equiv> store_bytes m a d"
  defines "m2 \<equiv> (if mem_size ph > file_size ph then write_bytes m1 (a + file_size ph) 0 (unat (mem_size ph) - unat (file_size ph)) else m1)"
  shows "m2 (a + of_nat i) = kernel_byte kd ph i"
proof -
  have len: "length d = unat (file_size ph)" using assms(1) by (auto simp: d_def kernel_segment_ok_def)
  have lt: "i < 2 ^ 64" using assms(2) unat_lt_64 [of "mem_size ph"] by linarith
  show ?thesis
  proof (cases "i < unat (file_size ph)")
    case True
    have "m1 (a + of_nat i) = d ! i" unfolding m1_def using True len unat_lt_64 [of "file_size ph"] by (intro store_bytes_in) auto
    moreover have "d ! i = kernel_byte kd ph i" using True assms(1) by (simp add: d_def kernel_byte_def kernel_segment_ok_def)
    moreover have "\<not> in_range (a + file_size ph) (unat (mem_size ph) - unat (file_size ph)) (a + of_nat i)"
    proof -
      have "a + of_nat i - (a + file_size ph) = of_nat i - file_size ph" by simp
      moreover have "\<not> file_size ph \<le> of_nat i" using True lt by (simp add: word_le_nat_alt unat_of_nat_small)
      ultimately have "unat (a + of_nat i - (a + file_size ph)) = 2 ^ 64 + i - unat (file_size ph)"
        using lt by (simp only: unat_sub_if' word_le_nat_alt) (simp add: unat_of_nat_small)
      then show ?thesis using unat_lt_64 [of "mem_size ph"] True by (simp add: in_range_def)
    qed
    ultimately show ?thesis by (simp add: m2_def write_bytes_out)
  next
    case False
    then have "mem_size ph > file_size ph" using assms(2) by (simp add: word_less_nat_alt)
    moreover have "in_range (a + file_size ph) (unat (mem_size ph) - unat (file_size ph)) (a + of_nat i)"
    proof -
      have "a + of_nat i - (a + file_size ph) = of_nat i - file_size ph" by simp
      moreover have "file_size ph \<le> of_nat i" using False lt by (simp add: word_le_nat_alt unat_of_nat_small)
      ultimately show ?thesis using False assms(2) lt by (simp add: in_range_def unat_sub_small unat_of_nat_small)
    qed
    ultimately show ?thesis using False by (simp add: m2_def write_bytes_in kernel_byte_def)
  qed
qed

text \<open>Outside the allocated pages nothing changes.\<close>

lemma segment_memory_outside:
  assumes "kernel_segment_ok kd ph" "unat (mem_size ph) \<le> n" "n \<le> 2 ^ 64" "\<not> in_range a n b"
  defines "d \<equiv> take (unat (file_size ph)) (drop (unat (ph_file_offset ph)) kd)"
  shows "store_bytes m a d b = m b"
    "write_bytes m' (a + file_size ph) 0 (unat (mem_size ph) - unat (file_size ph)) b = m' b"
proof -
  have f: "unat (file_size ph) \<le> unat (mem_size ph)" using assms(1) by (simp add: kernel_segment_ok_def)
  have "length d \<le> unat (file_size ph)" by (simp add: d_def)
  then show "store_bytes m a d b = m b" using assms(2,4) f by (intro store_bytes_out) (auto simp: in_range_def)
  have "in_range a n b" if "in_range (a + of_nat (unat (file_size ph))) (unat (mem_size ph) - unat (file_size ph)) b"
    using in_range_sub [OF that] assms(2,3) f by simp
  then show "write_bytes m' (a + file_size ph) 0 (unat (mem_size ph) - unat (file_size ph)) b = m' b"
    using assms(4) by (intro write_bytes_out) auto
qed

lemma kernel_segment_pages:
  assumes ok: "kernel_segment_ok kd ph"
  shows "segment_pages ph 0 = pages_between (virtual_addr ph) (page_of (virtual_addr ph + mem_size ph - 1))"
    "i < unat (mem_size ph) \<Longrightarrow> i div 4096 < length (segment_pages ph 0)"
    "i < unat (mem_size ph) \<Longrightarrow> page_of (virtual_addr ph + of_nat i) = segment_pages ph 0 ! (i div 4096)"
    "i < unat (mem_size ph) \<Longrightarrow> unat (virtual_addr ph + of_nat i) mod 4096 = i mod 4096"
proof -
  let ?v = "virtual_addr ph" and ?n = "unat (mem_size ph)"
  have al: "4096 dvd unat ?v" and pos: "0 < ?n" and fit: "unat ?v + ?n < 2 ^ 64" using ok by (auto simp: kernel_segment_ok_def)
  show eq: "segment_pages ph 0 = pages_between ?v (page_of (?v + mem_size ph - 1))"
    by (simp add: segment_pages_def Let_def page_of_page [OF al])
  obtain q where q: "unat ?v = 4096 * q" using al by (auto simp: dvd_def)
  have "unat (?v + mem_size ph - 1) = unat ?v + (?n - 1)"
    unfolding last_byte [OF pos] using fit by (intro unat_add_of_nat_small) simp
  then have e: "unat (page_of (?v + mem_size ph - 1)) = unat ?v + (?n - 1) div 4096 * 4096"
    by (simp add: unat_page_of q)
  then have pages: "segment_pages ph 0 = map (\<lambda>i. ?v + of_nat (4096 * i)) [0..<(?n - 1) div 4096 + 1]"
    unfolding eq by (simp add: pages_between_def word_le_nat_alt del: of_nat_mult upt_Suc)
  show len: "i div 4096 < length (segment_pages ph 0)" if "i < ?n" for i
    using that unfolding pages by (simp add: less_Suc_eq_le div_le_mono del: upt_Suc)
  have u: "unat (?v + of_nat i) = unat ?v + i" if "i < ?n" for i using that fit by (intro unat_add_of_nat_small) simp
  show "unat (?v + of_nat i) mod 4096 = i mod 4096" if "i < ?n" for i using u [OF that] q by simp
  show "page_of (?v + of_nat i) = segment_pages ph 0 ! (i div 4096)" if "i < ?n" for i
  proof -
    have "unat (?v + of_nat (4096 * (i div 4096))) = unat ?v + 4096 * (i div 4096)"
      using that fit by (intro unat_add_of_nat_small) (simp add: le_less_trans [OF _ fit] mult.commute)
    then have "page_of (?v + of_nat i) = ?v + of_nat (4096 * (i div 4096))"
      using u [OF that] q by (simp add: word_unat_eq_iff unat_page_of del: of_nat_mult)
    then show ?thesis using len [OF that] unfolding pages by (simp del: of_nat_mult upt_Suc)
  qed
qed

lemma load_kernel_segment_effect:
  assumes x: "x86_64_ok x" "x86_64_boot_ok y" and uefi: "uefi_alloc_ok allocate_pages allocated"
    and ok: "kernel_segment_ok kd ph" and run: "load_kernel_segment x y allocate_pages kd ph (s, u) = Inr (s', u')"
    and img: "holds_image x s (allocated u) img" and fresh: "\<forall>a. page_of a \<in> set (segment_pages ph 0) \<longrightarrow> img a = None"
  shows "holds_image x s' (allocated u') (kernel_segment_image kd ph img)"
    "allocated u \<subseteq> allocated u'" "\<forall>b. b \<notin> allocated u' \<longrightarrow> vmem s' b = vmem s b"
proof -
  let ?v = "virtual_addr ph" and ?n = "unat (mem_size ph)" and ?f = "unat (file_size ph)" and ?o = "unat (ph_file_offset ph)"
  define k where "k = div_ceil ?n 4096"
  define d where "d = take ?f (drop ?o kd)"
  have fit: "?f \<le> ?n" "?o + ?f \<le> length kd" "length kd < 2 ^ 64" using ok by (auto simp: kernel_segment_ok_def)
  have fin: "usize_add ?o ?f = ?o + ?f" using fit by (intro usize_add_small) linarith
  obtain pa where pa: "allocate_pages k u = (Some pa, u')"
  proof -
    obtain r u1 where r: "allocate_pages k u = (r, u1)" by fastforce
    then show thesis using run that by (cases r) (auto simp: load_kernel_segment_def Let_def k_def and_then_Inr split: if_splits)
  qed
  have al: "4096 dvd unat pa" "unat pa + k * 4096 \<le> 2 ^ 64" "{b. in_range pa (k * 4096) b} \<inter> allocated u = {}"
    "allocated u' = allocated u \<union> {b. in_range pa (k * 4096) b}"
    using uefi pa unfolding uefi_alloc_ok_def by blast+
  have nk: "?n \<le> k * 4096" by (simp add: k_def div_ceil_upper)
  define m1 where "m1 = store_bytes (vmem s) pa d"
  define m2 where "m2 = (if mem_size ph > file_size ph then write_bytes m1 (pa + file_size ph) 0 (?n - ?f) else m1)"
  have c: "map_consecutive x y (if ph_is_write ph then {PRESENT, WRITABLE} else {PRESENT}) (segment_pages ph 0) pa (s\<lparr>vmem := m2\<rparr>) = Inr s'"
  proof -
    have "range_inclusive x (page_of ?v) (page_of (?v + mem_size ph - 1)) = segment_pages ph 0"
      using x(1) by (simp add: x86_64_ok_def segment_pages_def Let_def)
    moreover have "p = page_of a" if "page_at x a = Inr p" for a p
      using that x(1) by (auto simp: page_at_def and_then_Inr expect_Inr x86_64_ok_def)
    ultimately show ?thesis
      using run pa by (auto simp: load_kernel_segment_def Let_def k_def [symmetric] and_then_Inr fin m1_def m2_def d_def split: if_splits)
  qed
  have "distinct (segment_pages ph 0)" by (simp add: segment_pages_def Let_def distinct_pages_between)
  note e = map_consecutive_effect [OF x c this al(1)]
  have out: "m2 b = vmem s b" if "\<not> in_range pa (k * 4096) b" for b
    using segment_memory_outside [OF ok nk _ that] al(2) by (simp add: m2_def m1_def d_def)
  show "allocated u \<subseteq> allocated u'" "\<forall>b. b \<notin> allocated u' \<longrightarrow> vmem s' b = vmem s b" using al(4) e out by auto
  show "holds_image x s' (allocated u') (kernel_segment_image kd ph img)"
    unfolding holds_image_def
  proof (intro allI impI)
    fix a b assume ab: "kernel_segment_image kd ph img a = Some b"
    show "\<exists>f. translate_page x (tables s') (page_of a) = Some f \<and> f + of_nat (unat a mod 4096) \<in> allocated u' \<and>
        vmem s' (f + of_nat (unat a mod 4096)) = b"
    proof (cases "in_range ?v ?n a")
      case True
      define i where "i = unat (a - ?v)"
      have i: "i < ?n" "a = ?v + of_nat i" using True by (auto simp: in_range_def i_def)
      let ?fr = "pa + of_nat (4096 * (i div 4096))"
      have "translate_page x (tables s') (page_of a) = Some ?fr"
        using e kernel_segment_pages(2,3) [OF ok i(1)] i(2) by simp
      moreover have addr: "?fr + of_nat (unat a mod 4096) = pa + of_nat i"
      proof -
        have "(of_nat (4096 * (i div 4096)) :: u64) + of_nat (i mod 4096) = of_nat (4096 * (i div 4096) + i mod 4096)"
          by (simp only: of_nat_add)
        then show ?thesis using kernel_segment_pages(4) [OF ok i(1)] i(2) by (simp add: add.assoc del: of_nat_mult)
      qed
      moreover have "pa + of_nat i \<in> allocated u'"
        using i(1) nk al(2) unfolding al(4) by (intro UnI2 CollectI in_range_self) linarith+
      moreover have "vmem s' (pa + of_nat i) = b"
      proof -
        have "m2 (pa + of_nat i) = kernel_byte kd ph i"
          unfolding m2_def m1_def d_def by (rule segment_memory [OF ok i(1)])
        then show ?thesis using e ab True by (simp add: kernel_segment_image_def i_def)
      qed
      ultimately show ?thesis by (intro exI [of _ ?fr]) (simp only: simp_thms)
    next
      case False
      then have "img a = Some b" using ab by (simp add: kernel_segment_image_def)
      moreover from this obtain f where f: "translate_page x (tables s) (page_of a) = Some f"
        "f + of_nat (unat a mod 4096) \<in> allocated u" "vmem s (f + of_nat (unat a mod 4096)) = b"
        using img unfolding holds_image_def by blast
      ultimately have "page_of a \<notin> set (segment_pages ph 0)" using fresh by auto
      then have "translate_page x (tables s') (page_of a) = Some f" using e f(1) by simp
      moreover have "vmem s' (f + of_nat (unat a mod 4096)) = b"
        using e out [of "f + of_nat (unat a mod 4096)"] f(2,3) al(3) by auto
      ultimately show ?thesis using f(2) al(4) by blast
    qed
  qed
qed

lemma load_kernel_segments_effect:
  assumes x: "x86_64_ok x" "x86_64_boot_ok y" "uefi_alloc_ok allocate_pages allocated"
    and "\<forall>ph \<in> set phs. kernel_segment_ok kd ph"
    and "sorted_wrt (\<lambda>p q. set (segment_pages p 0) \<inter> set (segment_pages q 0) = {}) phs"
    and "for_each (load_kernel_segment x y allocate_pages kd) phs (s, u) = Inr (s', u')"
    and "holds_image x s (allocated u) img"
    and "\<forall>ph \<in> set phs. \<forall>a. page_of a \<in> set (segment_pages ph 0) \<longrightarrow> img a = None"
  shows "holds_image x s' (allocated u') (fold (kernel_segment_image kd) phs img) \<and> allocated u \<subseteq> allocated u' \<and>
    (\<forall>b. b \<notin> allocated u' \<longrightarrow> vmem s' b = vmem s b)"
  using assms(4-)
proof (induction phs arbitrary: s u img)
  case (Cons p ps)
  obtain s1 u1 where s1: "load_kernel_segment x y allocate_pages kd p (s, u) = Inr (s1, u1)"
    "for_each (load_kernel_segment x y allocate_pages kd) ps (s1, u1) = Inr (s', u')"
    using Cons.prems(3) by (auto simp: and_then_Inr)
  have ok: "kernel_segment_ok kd p" using Cons.prems(1) by simp
  have "\<forall>a. page_of a \<in> set (segment_pages p 0) \<longrightarrow> img a = None" using Cons.prems(5) by simp
  note seg = load_kernel_segment_effect [OF x ok s1(1) Cons.prems(4) this]
  have "kernel_segment_image kd p img a = None" if "q \<in> set ps" "page_of a \<in> set (segment_pages q 0)" for q a
  proof -
    have "\<not> in_range (virtual_addr p) (unat (mem_size p)) a"
    proof
      assume r: "in_range (virtual_addr p) (unat (mem_size p)) a"
      define i where "i = unat (a - virtual_addr p)"
      have i: "i < unat (mem_size p)" "a = virtual_addr p + of_nat i" using r by (auto simp: in_range_def i_def)
      have "page_of a \<in> set (segment_pages p 0)" using kernel_segment_pages(2,3) [OF ok i(1)] i(2) by simp
      then show False using that Cons.prems(2) by auto
    qed
    then show ?thesis using Cons.prems(5) that by (simp add: kernel_segment_image_def)
  qed
  then show ?case using Cons.IH [OF _ _ s1(2) seg(1)] Cons.prems(1,2) seg(2,3) by auto
qed simp

lemma kernel_images:
  assumes "\<forall>ph \<in> set phs. kernel_segment_ok kd ph"
    "sorted_wrt (\<lambda>p q. set (segment_pages p 0) \<inter> set (segment_pages q 0) = {}) phs"
    "ph \<in> set phs" "i < unat (mem_size ph)"
  shows "fold (kernel_segment_image kd) phs img (virtual_addr ph + of_nat i) = Some (kernel_byte kd ph i)"
proof -
  let ?a = "virtual_addr ph + of_nat i"
  obtain ps qs where sp: "phs = ps @ ph # qs" using split_list [OF assms(3)] by blast
  have ok: "kernel_segment_ok kd ph" using assms(1,3) by blast
  have pg: "page_of ?a \<in> set (segment_pages ph 0)" using kernel_segment_pages(2,3) [OF ok assms(4)] by simp
  have "\<not> in_range (virtual_addr q) (unat (mem_size q)) ?a" if q: "q \<in> set qs" for q
  proof
    assume r: "in_range (virtual_addr q) (unat (mem_size q)) ?a"
    define j where "j = unat (?a - virtual_addr q)"
    have j: "j < unat (mem_size q)" "?a = virtual_addr q + of_nat j" using r by (auto simp: in_range_def j_def)
    have "kernel_segment_ok kd q" using assms(1) q sp by auto
    then have "page_of ?a \<in> set (segment_pages q 0)" unfolding j(2) using kernel_segment_pages(2,3) [OF _ j(1)] by simp
    then show False using pg q assms(2) by (auto simp: sp sorted_wrt_append)
  qed
  then have "fold (kernel_segment_image kd) qs im ?a = im ?a" for im
    by (induction qs arbitrary: im) (auto simp: kernel_segment_image_def)
  moreover have lt: "i < 2 ^ 64" using assms(4) unat_lt_64 [of "mem_size ph"] by linarith
  ultimately show ?thesis using assms(4) by (simp add: sp kernel_segment_image_def in_range_def unat_of_nat_small)
qed

section \<open>An example\<close>

text \<open>Page tables as two maps, for pages of 4 KiB and of 2 MiB.\<close>

type_synonym ex_tables = "(u64 \<rightharpoonup> u64 \<times> page_flags) \<times> (u64 \<rightharpoonup> u64 \<times> page_flags)"

definition ex_try_map :: "u64 \<Rightarrow> u64 \<Rightarrow> page_flags \<Rightarrow> 'a allocator \<Rightarrow> ex_tables \<Rightarrow> 'a \<times> memory \<Rightarrow> bool \<times> ex_tables \<times> ('a \<times> memory)" where
  "ex_try_map page frame flags allocate pt s =
     (if fst pt page = None then (True, ((fst pt)(page \<mapsto> (frame, flags)), snd pt), s) else (False, pt, s))"

definition ex_try_huge :: "u64 \<Rightarrow> u64 \<Rightarrow> page_flags \<Rightarrow> 'a allocator \<Rightarrow> ex_tables \<Rightarrow> 'a \<times> memory \<Rightarrow> bool \<times> ex_tables \<times> ('a \<times> memory)" where
  "ex_try_huge page frame flags allocate pt s =
     (if snd pt page = None then (True, (fst pt, (snd pt)(page \<mapsto> (frame, flags))), s) else (False, pt, s))"

definition ex_boot_x86 :: "(ex_tables, 'a) x86_64" where
  "ex_boot_x86 = \<lparr>virt_addr_new = Some, containing_address = page_of, range_inclusive = pages_between,
     translate_page = (\<lambda>pt page. map_option fst (fst pt page)),
     map_to = (\<lambda>page frame flags allocate pt s. case ex_try_map page frame flags allocate pt s of (d, r) \<Rightarrow> if d then Some r else None),
     flags_of = (\<lambda>pt page. case fst pt page of Some (f, flags) \<Rightarrow> flags | None \<Rightarrow> {})\<rparr>"

definition ex_boot :: "(ex_tables, 'a) x86_64_boot" where
  "ex_boot = \<lparr>phys_addr_new = Some, frame_containing = page_of, frame_range_inclusive = pages_between,
     huge_containing = huge_of, huge_range_inclusive = huge_between, try_map_huge = ex_try_huge, try_map = ex_try_map,
     new_tables = (\<lambda>_. (Map.empty, Map.empty)), translate_huge = snd\<rparr>"

text \<open>Firmware that hands out 1984 pages from 64 KiB upwards; its state is the number of pages it has handed out.\<close>

definition ex_allocate_pages :: "nat \<Rightarrow> nat \<Rightarrow> u64 option \<times> nat" where
  "ex_allocate_pages n u = (if 16 + u + n \<le> 2000 then (Some (of_nat ((16 + u) * 4096)), u + n) else (None, u))"

definition ex_allocated :: "nat \<Rightarrow> u64 set" where
  "ex_allocated u = {b. 16 * 4096 \<le> unat b \<and> unat b < min (16 + u) 2000 * 4096}"

definition ex_kernel_segment :: ProgramHeader where
  "ex_kernel_segment = \<lparr>ph_type = Some Load, virtual_addr = 0xFFFFFFFF80000000, mem_size = 16, file_size = 3, ph_file_offset = 1,
     ph_is_write = False, ph_is_execute = True\<rparr>"

definition ex_kernel :: ElfFile where
  "ex_kernel = \<lparr>elf_magic = [0x7F, 0x45, 0x4C, 0x46], is_shared_object = False, entry_point = 0xFFFFFFFF80000000, ph_offset = 64,
     ph_count = 1, ph_entry_size = 56, program_iter = [ex_kernel_segment], rela_sections = [], elf_input = [0, 1, 2, 3]\<rparr>"

definition ex_descriptor :: MemoryDescriptor where
  "ex_descriptor = \<lparr>desc_type = 7, pad = 0, phys_start = 0x1000, virt_start = 0, page_count = 8191, attribute = 0\<rparr>"

definition ex_boot_vm :: "ex_tables boot_vm" where
  "ex_boot_vm = \<lparr>tables = (Map.empty, Map.empty), manager = bump_new 0x100000 1024, vmem = (\<lambda>_. 0xCC)\<rparr>"

lemma ex_boot_ok: "x86_64_boot_ok ex_boot"
  by (auto simp: x86_64_boot_ok_def ex_boot_def ex_try_huge_def split: if_splits)

lemma ex_boot_x86_ok: "x86_64_ok ex_boot_x86"
  unfolding x86_64_ok_def
proof (intro conjI allI impI)
  fix page frame flags allocate pt s pt' s'
  assume "map_to ex_boot_x86 page frame flags allocate pt s = Some (pt', s')"
  then have e: "pt' = ((fst pt)(page \<mapsto> (frame, flags)), snd pt)" "s' = s"
    by (auto simp: ex_boot_x86_def ex_try_map_def split: if_splits)
  show "translate_page ex_boot_x86 pt' = (translate_page ex_boot_x86 pt)(page \<mapsto> frame)"
    "flags_of ex_boot_x86 pt' = (flags_of ex_boot_x86 pt)(page := flags)" by (auto simp: ex_boot_x86_def e fun_eq_iff)
  show "\<exists>n fs. allocate_n allocate n s = (fs, s')" by (intro exI [of _ 0]) (simp add: e)
qed (simp_all add: ex_boot_x86_def)

lemma ex_uefi_alloc_ok: "uefi_alloc_ok ex_allocate_pages ex_allocated"
  unfolding uefi_alloc_ok_def
proof (intro allI impI)
  fix n u a u' assume "ex_allocate_pages n u = (Some a, u')"
  then have e: "16 + u + n \<le> 2000" "a = of_nat ((16 + u) * 4096)" "u' = u + n" by (auto simp: ex_allocate_pages_def split: if_splits)
  have ua: "unat a = (16 + u) * 4096" unfolding e(2) using e(1) by (intro unat_of_nat_small) simp
  have "in_range a (n * 4096) b \<longleftrightarrow> (16 + u) * 4096 \<le> unat b \<and> unat b < (16 + u') * 4096" for b
    using in_range_iff [of a "n * 4096" b] e(1,3) ua by (simp add: algebra_simps)
  then have r: "{b. in_range a (n * 4096) b} = {b. (16 + u) * 4096 \<le> unat b \<and> unat b < (16 + u') * 4096}" by blast
  have "(16 + u) * 4096 \<le> (16 + u') * 4096" using e(3) by simp
  then show "4096 dvd unat a \<and> unat a + n * 4096 \<le> 2 ^ 64 \<and> {b. in_range a (n * 4096) b} \<inter> ex_allocated u = {} \<and>
      ex_allocated u' = ex_allocated u \<union> {b. in_range a (n * 4096) b}"
    unfolding r using e(1,3) ua by (auto simp: ex_allocated_def)
qed

lemma ex_kernel_pages: "segment_pages ex_kernel_segment 0 = [0xFFFFFFFF80000000]"
  by (simp add: segment_pages_def ex_kernel_segment_def Let_def pages_between_def page_of_def)

lemma ex_load_kernel:
  "\<exists>s' u'. load_kernel ex_boot_x86 ex_boot ex_allocate_pages ex_kernel [0, 1, 2, 3] (ex_boot_vm, 0) = Inr (s', u')"
  by (simp add: load_kernel_def ex_kernel_def load_kernel_segment_def ex_kernel_segment_def Let_def ex_allocate_pages_def div_ceil_def
      usize_add_def usize_mul_def page_at_def ex_boot_x86_def ex_boot_def ex_boot_vm_def pages_between_def page_of_def phys_frame_def
      map_frame_def ex_try_map_def)

section \<open>Properties\<close>

text \<open>C16. The kernel is in place when the bootloader has loaded it: for segments that start on a page and share none,
  every byte of a segment is mapped at its virtual address and reads as the byte of the kernel file, and as zero beyond
  the file size, whatever was in the memory the firmware gave out; loading a later segment disturbs no earlier one.\<close>

theorem kernel_segments_loaded:
  assumes "x86_64_ok x" "x86_64_boot_ok y" "uefi_alloc_ok allocate_pages allocated"
    and "\<forall>ph \<in> set (load_headers elf). kernel_segment_ok kd ph"
    and "sorted_wrt (\<lambda>p q. set (segment_pages p 0) \<inter> set (segment_pages q 0) = {}) (load_headers elf)"
    and "load_kernel x y allocate_pages elf kd (s, u) = Inr (s', u')"
    and "ph \<in> set (load_headers elf)" "i < unat (mem_size ph)"
  shows "user_image x 0 UNIV s' (virtual_addr ph + of_nat i) =
    Some (if i < unat (file_size ph) then kd ! (unat (ph_file_offset ph) + i) else 0)"
proof -
  have "for_each (load_kernel_segment x y allocate_pages kd) (load_headers elf) (s, u) = Inr (s', u')"
    using assms(6) unfolding load_kernel_def for_each_filter load_headers_def by simp
  moreover have "holds_image x s (allocated u) Map.empty" by (simp add: holds_image_def)
  ultimately have "holds_image x s' (allocated u') (fold (kernel_segment_image kd) (load_headers elf) Map.empty)"
    using load_kernel_segments_effect [OF assms(1-5)] by simp
  then show ?thesis
    using holds_image_user kernel_images [OF assms(4,5,7,8), of Map.empty] unfolding kernel_byte_def by blast
qed

theorem kernel_segments_loaded_witness:
  "\<exists>s' u'. load_kernel ex_boot_x86 ex_boot ex_allocate_pages ex_kernel [0, 1, 2, 3] (ex_boot_vm, 0) = Inr (s', u') \<and>
     user_image ex_boot_x86 0 UNIV s' 0xFFFFFFFF80000001 = Some 2 \<and> user_image ex_boot_x86 0 UNIV s' 0xFFFFFFFF80000004 = Some 0"
proof -
  obtain s' u' where s': "load_kernel ex_boot_x86 ex_boot ex_allocate_pages ex_kernel [0, 1, 2, 3] (ex_boot_vm, 0) = Inr (s', u')"
    using ex_load_kernel by blast
  have h: "load_headers ex_kernel = [ex_kernel_segment]" by (simp add: load_headers_def ex_kernel_def ex_kernel_segment_def)
  have ok: "\<forall>ph \<in> set (load_headers ex_kernel). kernel_segment_ok [0, 1, 2, 3] ph"
    by (simp add: h kernel_segment_ok_def) (simp add: ex_kernel_segment_def)
  have "user_image ex_boot_x86 0 UNIV s' (virtual_addr ex_kernel_segment + of_nat i) =
      Some (if i < unat (file_size ex_kernel_segment) then [0, 1, 2, 3] ! (unat (ph_file_offset ex_kernel_segment) + i) else 0)"
    if "i < unat (mem_size ex_kernel_segment)" for i
    using kernel_segments_loaded [OF ex_boot_x86_ok ex_boot_ok ex_uefi_alloc_ok ok _ s' _ that] by (simp add: h)
  from this [of 1] this [of 4] s' show ?thesis by (simp add: ex_kernel_segment_def)
qed

text \<open>C23. The size of physical memory that the bootloader reports is the least multiple of 2 MiB that is not
  below the end of any memory descriptor, so every descriptor lies inside the reported memory and the reported
  memory inside the higher-half window.\<close>

theorem detect_max_phys_least:
  assumes "\<forall>d \<in> set ds. desc_end d \<le> 2 ^ 47"
  shows "2097152 dvd unat (detect_max_phys ds) \<and> (\<forall>d \<in> set ds. desc_end d \<le> unat (detect_max_phys ds)) \<and>
    (\<forall>k. 2097152 dvd k \<and> (\<forall>d \<in> set ds. desc_end d \<le> k) \<longrightarrow> unat (detect_max_phys ds) \<le> k) \<and>
    unat BOOT_HHDM_OFFSET + unat (detect_max_phys ds) \<le> 2 ^ 64"
proof -
  let ?M = "fold max (map desc_end ds) 0"
  have eq: "unat (detect_max_phys ds) = (?M + (2097152 - 1)) div 2097152 * 2097152"
    using detect_max_phys_eq [OF assms] by simp
  note up = round_up_least [of 2097152 ?M, folded eq]
  have least: "unat (detect_max_phys ds) \<le> k" if k: "2097152 dvd k" "\<forall>d \<in> set ds. desc_end d \<le> k" for k
  proof -
    obtain q where q: "k = 2097152 * q" using k(1) by (auto simp: dvd_def)
    obtain r where r: "unat (detect_max_phys ds) = 2097152 * r" using up(3) by (auto simp: dvd_def)
    have "?M \<le> k" using k(2) by (simp add: fold_max_nat)
    then have "2097152 * r < 2097152 * q + 2097152" using up(2) q r by simp
    then have "r \<le> q" by simp
    then show ?thesis by (simp add: q r)
  qed
  have "desc_end d \<le> unat (detect_max_phys ds)" if "d \<in> set ds" for d
    using up(1) fold_max_nat [of "map desc_end ds" 0 "unat (detect_max_phys ds)"] that by simp
  moreover have "unat (detect_max_phys ds) \<le> 2 ^ 47" using least [of "2 ^ 47"] assms by simp
  ultimately show ?thesis using up(3) least by (auto simp: BOOT_HHDM_OFFSET_def)
qed

theorem detect_max_phys_least_witness:
  "2097152 dvd unat (detect_max_phys [ex_descriptor]) \<and> unat (detect_max_phys [ex_descriptor]) \<le> 0x2000000"
  using detect_max_phys_least [of "[ex_descriptor]"] by (simp add: desc_end_def ex_descriptor_def)

text \<open>The higher-half window is complete: as long as the pool can supply the tables, after the loop every
  physical address below the reported size is mapped at its offset in the window, writable.\<close>

theorem hhdm_window_complete:
  assumes "x86_64_boot_ok y" "huge_progress y P ((\<lambda>p. huge_of p + BOOT_HHDM_OFFSET) ` {..<mx})"
    and "2097152 dvd unat mx" "0 < unat mx" "unat mx \<le> 2 ^ 47"
    and "\<forall>a. a \<ge> BOOT_HHDM_OFFSET \<longrightarrow> virt_addr_new x a = Some a" "\<forall>a < mx. phys_addr_new y a = Some a"
    and "\<forall>q \<ge> BOOT_HHDM_OFFSET. translate_huge y (tables s) q = None" "P (tables s) (manager s, vmem s)"
  shows "\<exists>s'. map_hhdm x y mx s = Inr s' \<and>
    (\<forall>p < mx. translate_huge y (tables s') (huge_of (p + BOOT_HHDM_OFFSET)) = Some (huge_of p, {PRESENT, WRITABLE}))"
  using map_hhdm_effect [OF assms] by blast

theorem hhdm_window_complete_witness:
  "\<exists>s'. map_hhdm ex_boot_x86 ex_boot 0x400000 ex_boot_vm = Inr s' \<and>
     translate_huge (ex_boot :: (_, BumpAllocator) x86_64_boot) (tables s') (huge_of (0x234567 + BOOT_HHDM_OFFSET)) = Some (huge_of 0x234567, {PRESENT, WRITABLE})"
proof -
  have "huge_progress (ex_boot :: (_, BumpAllocator) x86_64_boot) (\<lambda>_ _. True) ((\<lambda>p. huge_of p + BOOT_HHDM_OFFSET) ` {..<0x400000})"
    by (simp add: huge_progress_def ex_boot_def ex_try_huge_def)
  from hhdm_window_complete [OF ex_boot_ok this, where x = ex_boot_x86 and s = ex_boot_vm]
  obtain s' where "map_hhdm ex_boot_x86 ex_boot 0x400000 ex_boot_vm = Inr s'"
    "\<forall>p < 0x400000. translate_huge (ex_boot :: (_, BumpAllocator) x86_64_boot) (tables s') (huge_of (p + BOOT_HHDM_OFFSET)) = Some (huge_of p, {PRESENT, WRITABLE})"
    by (auto simp: ex_boot_x86_def ex_boot_def ex_boot_vm_def)
  moreover have "(0x234567 :: u64) < 0x400000" by simp
  ultimately show ?thesis by blast
qed

end
