(* ===== verification/Boot_Handover.thy ===== *)
theory Boot_Handover
  imports Boot
begin

text \<open>
  \<open>main\<close> of the bootloader, \<open>uefi_boot/src/main.rs\<close>, as a whole: reading the kernel file, the phases of
  theory \<open>Boot\<close> in their order, and the jump into the kernel with its \<open>BootInfo\<close>. The theorem of this theory is
  that the bootloader gets there, and what the kernel finds then.
\<close>

section \<open>The firmware\<close>

record BootInfo =
  memory_map_addr :: u64
  memory_map_len :: u64
  memory_map_desc_size :: u64
  hhdm_offset :: u64
  max_phys_memory :: u64
  framebuffer :: FrameBufferInfo

text \<open>What the services of UEFI return to the bootloader, \<open>None\<close> for an error. Memory maps are lists of
  entries; \<open>temp_mmap\<close> and \<open>final_mmap\<close> hold the addresses of the entries, of which alone the code makes use.
  \<open>allocate_pages\<close> acts on the state of the firmware.\<close>

record 'u firmware =
  helpers_init :: "unit option"
  image_file_system :: "unit option"
  open_volume :: "unit option"
  open_kernel :: "unit option"
  into_regular_file :: "unit option"
  kernel_file_size :: "u64 option"
  read_file :: "nat \<Rightarrow> u8 list option"
  allocate_pages :: "nat \<Rightarrow> 'u \<Rightarrow> u64 option \<times> 'u"
  temp_mmap :: "u64 list option"
  mmap_storage :: "MemoryDescriptor list option"
  rip_now :: u64
  gop_handle :: "unit option"
  gop_open :: "unit option"
  gop_address :: u64
  gop_size :: nat
  gop_resolution :: "nat \<times> nat"
  gop_stride :: nat
  gop_format :: UefiPixelFormat
  final_mmap :: "u64 list"

section \<open>The bootloader\<close>

text \<open>Reading the kernel file into fresh pages; the slice of the bytes read is the value \<open>kernel_data\<close>.\<close>

definition read_kernel :: "'u firmware \<Rightarrow> memory \<Rightarrow> 'u \<Rightarrow> panic + u8 list \<times> memory \<times> 'u" where
  "read_kernel fw m u =
     and_then (expect ''called `Result::unwrap()` on an `Err` value'' (helpers_init fw)) (\<lambda>_.
     and_then (expect ''Failed to get image file system'' (image_file_system fw)) (\<lambda>_.
     and_then (expect ''Failed to open root volume'' (open_volume fw)) (\<lambda>_.
     and_then (expect ''Failed to open 'kernel' file'' (open_kernel fw)) (\<lambda>_.
     and_then (expect ''Kernel file is not a regular file'' (into_regular_file fw)) (\<lambda>_.
     and_then (expect ''Failed to get file info'' (kernel_file_size fw)) (\<lambda>file_sz.
     let pages_needed = div_ceil (unat file_sz) 0x1000;
         (r, u) = allocate_pages fw pages_needed u
     in and_then (expect ''Failed to allocate pages for kernel file'' r) (\<lambda>file_buffer_addr.
        let buffer_len = usize_mul pages_needed 0x1000
        in and_then (expect ''Failed to read kernel file'' (read_file fw buffer_len)) (\<lambda>data.
           if length data \<le> buffer_len then Inr (data, store_bytes m file_buffer_addr data, u)
           else Inl (Panic ''slice index out of range'')))))))))"

text \<open>The distance of the first two entries of a memory map.\<close>

definition mmap_desc_size :: "u64 list \<Rightarrow> panic + u64" where
  "mmap_desc_size entries =
     (case entries of
        e1 # e2 # _ \<Rightarrow> Inr (e2 - e1)
      | _ \<Rightarrow> Inl (Panic ''called `Option::unwrap()` on a `None` value''))"

text \<open>The registers at the jump, and the structure that RDI points to.\<close>

record handover =
  ho_cr3 :: u64
  ho_rsp :: u64
  ho_rbp :: u64
  ho_rip :: u64
  ho_rdi :: u64
  ho_boot_info :: BootInfo

definition PAGE_TABLE_POOL_SIZE :: nat where "PAGE_TABLE_POOL_SIZE = 1024"

definition fb_info :: "'u firmware \<Rightarrow> FrameBufferInfo" where
  "fb_info fw = \<lparr>buffer_base = FRAMEBUFFER_VIRT_BASE, buffer_size = gop_size fw,
     fb_width = fst (gop_resolution fw), fb_height = snd (gop_resolution fw), stride = gop_stride fw,
     format = convert_format (gop_format fw)\<rparr>"

definition boot_info_of :: "'u firmware \<Rightarrow> u64 \<Rightarrow> u64 \<Rightarrow> BootInfo" where
  "boot_info_of fw max_phys_addr desc_size =
     \<lparr>memory_map_addr = (case final_mmap fw of a # _ \<Rightarrow> a | [] \<Rightarrow> 0),
      memory_map_len = of_nat (length (final_mmap fw)), memory_map_desc_size = desc_size,
      hhdm_offset = BOOT_HHDM_OFFSET, max_phys_memory = max_phys_addr, framebuffer = fb_info fw\<rparr>"

definition boot_main ::
  "(u8 list \<Rightarrow> ElfFile option) \<Rightarrow> ('pt, BumpAllocator) x86_64 \<Rightarrow> ('pt, BumpAllocator) x86_64_boot \<Rightarrow>
   'u firmware \<Rightarrow> memory \<Rightarrow> 'u \<Rightarrow> panic + handover \<times> 'pt boot_vm \<times> 'u" where
  "boot_main elf_file_new x y fw m u =
     and_then (read_kernel fw m u) (\<lambda>(kernel_data, m, u).
     and_then (expect ''Failed to parse ELF'' (elf_file_new kernel_data)) (\<lambda>elf.
     let (r, u) = allocate_pages fw PAGE_TABLE_POOL_SIZE u
     in and_then (expect ''Failed to allocate memory pool for Page Tables'' r) (\<lambda>pool_addr.
     let (f, b) = bump_allocate_frame (frame_containing y) (bump_new pool_addr PAGE_TABLE_POOL_SIZE)
     in and_then (expect ''Failed to allocate PML4 (Pool empty?)'' f) (\<lambda>pml4_frame.
     let s = \<lparr>tables = new_tables y pml4_frame, manager = b, vmem = m\<rparr>
     in and_then (load_kernel x y (allocate_pages fw) elf kernel_data (s, u)) (\<lambda>(s, u).
     and_then (map_kernel_stack x y s) (\<lambda>s.
     and_then (expect ''Failed to get temp mmap'' (temp_mmap fw)) (\<lambda>temp.
     and_then (mmap_desc_size temp) (\<lambda>desc_size.
     and_then (expect ''Failed to get memory map'' (mmap_storage fw)) (\<lambda>entries.
     let max_phys_addr = detect_max_phys entries
     in and_then (map_hhdm x y max_phys_addr s) (\<lambda>s.
     and_then (map_identity x y (rip_now fw) s) (\<lambda>s.
     and_then (expect ''Failed to get GOP handle'' (gop_handle fw)) (\<lambda>_.
     and_then (expect ''Failed to open GOP protocol'' (gop_open fw)) (\<lambda>_.
     and_then (map_framebuffer x y (gop_address fw) (gop_size fw) s) (\<lambda>s.
     let (r, u) = allocate_pages fw 1 u
     in and_then (expect ''Failed to allocate memory for BootInfo'' r) (\<lambda>boot_info_addr.
        Inr (\<lparr>ho_cr3 = pml4_frame, ho_rsp = STACK_TOP, ho_rbp = 0, ho_rip = entry_point elf,
               ho_rdi = boot_info_addr + BOOT_HHDM_OFFSET,
               ho_boot_info = boot_info_of fw max_phys_addr desc_size\<rparr>, s, u))))))))))))))))"

section \<open>What the services promise\<close>

text \<open>Canonical virtual addresses and physical addresses of 52 bits are accepted.\<close>

definition addresses_ok :: "('pt, 'a) x86_64 \<Rightarrow> ('pt, 'a) x86_64_boot \<Rightarrow> bool" where
  "addresses_ok x y \<longleftrightarrow>
     (\<forall>a. unat a < 2 ^ 47 \<or> 2 ^ 64 - 2 ^ 47 \<le> unat a \<longrightarrow> virt_addr_new x a = Some a) \<and>
     (\<forall>a. unat a < 2 ^ 52 \<longrightarrow> phys_addr_new y a = Some a)"

text \<open>New tables are empty, a mapping of one page size leaves those of the other alone, and \<open>try_map\<close> does
  nothing to a page that is mapped.\<close>

definition page_sizes_ok :: "('pt, 'a) x86_64 \<Rightarrow> ('pt, 'a) x86_64_boot \<Rightarrow> bool" where
  "page_sizes_ok x y \<longleftrightarrow>
     (\<forall>f. translate_page x (new_tables y f) = Map.empty \<and> translate_huge y (new_tables y f) = Map.empty) \<and>
     (\<forall>page frame flags allocate pt s pt' s'.
        map_to x page frame flags allocate pt s = Some (pt', s') \<longrightarrow> translate_huge y pt' = translate_huge y pt) \<and>
     (\<forall>page frame flags allocate pt s done pt' s'.
        try_map_huge y page frame flags allocate pt s = (done, pt', s') \<longrightarrow>
        translate_page x pt' = translate_page x pt \<and> flags_of x pt' = flags_of x pt \<and>
        (\<exists>n fs. allocate_n allocate n s = (fs, s'))) \<and>
     (\<forall>page frame flags allocate pt s done pt' s'.
        try_map y page frame flags allocate pt s = (done, pt', s') \<longrightarrow>
        translate_huge y pt' = translate_huge y pt \<and> (\<exists>n fs. allocate_n allocate n s = (fs, s')) \<and>
        (if done
         then translate_page x pt page = None \<and> translate_page x pt' = (translate_page x pt)(page \<mapsto> frame) \<and>
           flags_of x pt' = (flags_of x pt)(page := flags)
         else translate_page x pt' = translate_page x pt \<and> flags_of x pt' = flags_of x pt))"

text \<open>The pool lasts: \<open>P n\<close> says of the tables and the pool that they suffice for the missing tables of the pages
  \<open>W\<close> and \<open>J\<close> and the huge pages \<open>H\<close>, with \<open>n\<close> frames to spare. Then \<open>map_to\<close> does not fail on such a
  page that is not mapped.\<close>

definition pool_suffices ::
  "('pt, BumpAllocator) x86_64 \<Rightarrow> ('pt, BumpAllocator) x86_64_boot \<Rightarrow> (nat \<Rightarrow> 'pt \<Rightarrow> BumpAllocator \<Rightarrow> bool) \<Rightarrow>
   u64 set \<Rightarrow> u64 set \<Rightarrow> u64 set \<Rightarrow> bool" where
  "pool_suffices x y P W H J \<longleftrightarrow>
     (\<forall>n pt b m. \<forall>page \<in> W. \<forall>frame flags. P n pt b \<and> translate_page x pt page = None \<longrightarrow>
        (\<exists>pt' b' m'. map_to x page frame flags (boot_allocate y) pt (b, m) = Some (pt', (b', m')) \<and> P n pt' b')) \<and>
     (\<forall>n pt b m. \<forall>page \<in> H. \<forall>frame flags. P n pt b \<and> translate_huge y pt page = None \<longrightarrow>
        (\<exists>pt' b' m'. try_map_huge y page frame flags (boot_allocate y) pt (b, m) = (True, pt', (b', m')) \<and> P n pt' b')) \<and>
     (\<forall>n pt b m. \<forall>page \<in> J. \<forall>frame flags done pt' b' m'. P n pt b \<and>
        try_map y page frame flags (boot_allocate y) pt (b, m) = (done, pt', (b', m')) \<longrightarrow>
        P n pt' b' \<and> (translate_page x pt page = None \<longrightarrow> done)) \<and>
     (\<forall>n pt b. P (Suc n) pt b \<longrightarrow> (\<exists>f b'. bump_take b = (Some f, b') \<and> P n pt b'))"

text \<open>The firmware has \<open>room u\<close> free pages, in the memory that the window can show.\<close>

definition uefi_progress :: "(nat \<Rightarrow> 'u \<Rightarrow> u64 option \<times> 'u) \<Rightarrow> ('u \<Rightarrow> nat) \<Rightarrow> bool" where
  "uefi_progress allocate room \<longleftrightarrow>
     (\<forall>n u. 0 < n \<and> n \<le> room u \<longrightarrow>
        (\<exists>a u'. allocate n u = (Some a, u') \<and> unat a + n * 4096 \<le> 2 ^ 47 \<and> room u \<le> room u' + n))"

lemma pool_map:
  assumes "pool_suffices x y P W H J" "page \<in> W" "P n pt b" "translate_page x pt page = None"
  shows "\<exists>pt' b' m'. map_to x page frame flags (boot_allocate y) pt (b, m) = Some (pt', (b', m')) \<and> P n pt' b'"
  using conjunct1 [OF assms(1) [unfolded pool_suffices_def]] assms(2-4) by simp

lemma pool_huge:
  assumes "pool_suffices x y P W H J" "page \<in> H" "P n pt b" "translate_huge y pt page = None"
  shows "\<exists>pt' b' m'. try_map_huge y page frame flags (boot_allocate y) pt (b, m) = (True, pt', (b', m')) \<and> P n pt' b'"
  using conjunct1 [OF conjunct2 [OF assms(1) [unfolded pool_suffices_def]]] assms(2-4) by simp

lemma pool_try:
  assumes "pool_suffices x y P W H J" "page \<in> J" "P n pt b"
    "try_map y page frame flags (boot_allocate y) pt (b, m) = (done, pt', (b', m'))"
  shows "P n pt' b' \<and> (translate_page x pt page = None \<longrightarrow> done)"
  using conjunct1 [OF conjunct2 [OF conjunct2 [OF assms(1) [unfolded pool_suffices_def]]]] assms(2-4) by blast

lemma pool_take: "pool_suffices x y P W H J \<Longrightarrow> P (Suc n) pt b \<Longrightarrow> \<exists>f b'. bump_take b = (Some f, b') \<and> P n pt b'"
  by (simp add: pool_suffices_def)

section \<open>Mapping keeps what is mapped\<close>

definition keeps :: "('pt, 'a) x86_64 \<Rightarrow> ('pt, 'a) vm \<Rightarrow> ('pt, 'a) vm \<Rightarrow> bool" where
  "keeps x s s' \<longleftrightarrow> vmem s' = vmem s \<and> translate_page x (tables s) \<subseteq>\<^sub>m translate_page x (tables s') \<and>
     (\<forall>q \<in> dom (translate_page x (tables s)). flags_of x (tables s') q = flags_of x (tables s) q)"

lemma keeps_refl: "keeps x s s"
  by (simp add: keeps_def)

lemma keeps_trans:
  assumes "keeps x s t" "keeps x t w"
  shows "keeps x s w"
proof -
  have "dom (translate_page x (tables s)) \<subseteq> dom (translate_page x (tables t))"
    using assms(1) by (intro map_le_implies_dom_le) (simp add: keeps_def)
  then have "flags_of x (tables w) q = flags_of x (tables t) q" if "q \<in> dom (translate_page x (tables s))" for q
    using that assms(2) by (auto simp: keeps_def)
  moreover have "flags_of x (tables t) q = flags_of x (tables s) q" if "q \<in> dom (translate_page x (tables s))" for q
    using that assms(1) by (simp add: keeps_def)
  ultimately show ?thesis using assms by (simp add: keeps_def) (blast intro: map_le_trans)
qed

lemma keepsD: "keeps x s s' \<Longrightarrow> translate_page x (tables s) q = Some f \<Longrightarrow>
    translate_page x (tables s') q = Some f \<and> flags_of x (tables s') q = flags_of x (tables s) q"
  by (force simp: keeps_def map_le_def)

text \<open>The mappings alone, where memory changes.\<close>

definition keeps_pages :: "('pt, 'a) x86_64 \<Rightarrow> 'pt \<Rightarrow> 'pt \<Rightarrow> bool" where
  "keeps_pages x pt pt' \<longleftrightarrow>
     (\<forall>q \<in> dom (translate_page x pt). q \<in> dom (translate_page x pt') \<and> flags_of x pt' q = flags_of x pt q)"

lemma keeps_pages_refl: "keeps_pages x pt pt"
  by (simp add: keeps_pages_def)

lemma keeps_pages_trans: "keeps_pages x pt pt' \<Longrightarrow> keeps_pages x pt' pt'' \<Longrightarrow> keeps_pages x pt pt''"
  by (simp add: keeps_pages_def)

lemma keeps_keeps_pages: "keeps x s s' \<Longrightarrow> keeps_pages x (tables s) (tables s')"
  using keepsD [of x s s'] by (fastforce simp: keeps_pages_def)

text \<open>Pages that are mapped with given flags.\<close>

definition mapped_with :: "('pt, 'a) x86_64 \<Rightarrow> 'pt \<Rightarrow> page_flags \<Rightarrow> u64 set \<Rightarrow> bool" where
  "mapped_with x pt flags Q \<longleftrightarrow> (\<forall>q \<in> Q. q \<in> dom (translate_page x pt) \<and> flags_of x pt q = flags)"

lemma keeps_mapped_with: "mapped_with x pt flags Q \<Longrightarrow> keeps_pages x pt pt' \<Longrightarrow> mapped_with x pt' flags Q"
  by (simp add: mapped_with_def keeps_pages_def)

lemma keeps_holds_image:
  assumes "keeps x s s'" "holds_image x s A img"
  shows "holds_image x s' A img"
proof -
  have m: "vmem s' = vmem s" using assms(1) by (simp add: keeps_def)
  show ?thesis using assms(2) keepsD [OF assms(1)] unfolding holds_image_def m by blast
qed

text \<open>One page, by \<open>map_to\<close>.\<close>

lemma map_frame_runs:
  assumes x: "x86_64_ok x" "page_sizes_ok x y" "pool_suffices x y P W H J"
    and "P n (tables s) (manager s)" "page \<in> W" "translate_page x (tables s) page = None"
  obtains s' where "map_frame x (boot_allocate y) page frame flags s = Some s'" "P n (tables s') (manager s')" "keeps x s s'"
    "translate_page x (tables s') = (translate_page x (tables s))(page \<mapsto> frame)" "flags_of x (tables s') page = flags"
    "translate_huge y (tables s') = translate_huge y (tables s)"
proof -
  obtain pt' b' m' where m: "map_to x page frame flags (boot_allocate y) (tables s) (manager s, vmem s) = Some (pt', (b', m'))" "P n pt' b'"
    using pool_map [OF x(3) assms(5,4,6)] by blast
  define s' where "s' = s\<lparr>tables := pt', manager := b', vmem := m'\<rparr>"
  have run: "map_frame x (boot_allocate y) page frame flags s = Some s'" by (simp add: map_frame_def m s'_def)
  note e = map_frame_effect [OF x(1) run]
  have "translate_huge y (tables s') = translate_huge y (tables s)"
    using x(2) m(1) unfolding page_sizes_ok_def s'_def by fastforce
  moreover have "keeps x s s'" using e assms(6) by (auto simp: keeps_def map_le_def dom_def)
  ultimately show thesis using that [OF run] m(2) e by (simp add: s'_def)
qed


section \<open>The phases get through\<close>

lemma phys_frame_ok: "addresses_ok x y \<Longrightarrow> x86_64_boot_ok y \<Longrightarrow> unat a < 2 ^ 52 \<Longrightarrow> phys_frame y a = Inr (page_of a)"
  by (simp add: phys_frame_def addresses_ok_def x86_64_boot_ok_def)

lemma page_at_canonical:
  "addresses_ok x y \<Longrightarrow> x86_64_ok x \<Longrightarrow> unat a < 2 ^ 47 \<or> 2 ^ 64 - 2 ^ 47 \<le> unat a \<Longrightarrow> page_at x a = Inr (page_of a)"
  by (rule page_at_ok) (auto simp: addresses_ok_def)

lemma map_consecutive_runs:
  assumes x: "x86_64_ok x" "page_sizes_ok x y" "pool_suffices x y P W H J" "x86_64_boot_ok y" "addresses_ok x y"
    and "distinct pages" "set pages \<subseteq> W" "\<forall>q \<in> set pages. translate_page x (tables s) q = None"
    and "unat a + 4096 * length pages \<le> 2 ^ 52" "4096 dvd unat a" "P n (tables s) (manager s)"
  shows "\<exists>s'. map_consecutive x y flags pages a s = Inr s' \<and> P n (tables s') (manager s') \<and>
    dom (translate_page x (tables s')) \<subseteq> dom (translate_page x (tables s)) \<union> set pages \<and>
    translate_huge y (tables s') = translate_huge y (tables s) \<and>
    keeps_pages x (tables s) (tables s') \<and> mapped_with x (tables s') flags (set pages)"
  using assms(6-)
proof (induction pages arbitrary: a s)
  case (Cons p ps)
  have "p \<in> W" "translate_page x (tables s) p = None" using Cons.prems by auto
  from map_frame_runs [OF x(1-3) Cons.prems(6) this]
  obtain s1 where s1: "map_frame x (boot_allocate y) p a flags s = Some s1" "P n (tables s1) (manager s1)"
    "translate_page x (tables s1) = (translate_page x (tables s))(p \<mapsto> a)"
    "translate_huge y (tables s1) = translate_huge y (tables s)" "keeps x s s1" "flags_of x (tables s1) p = flags" by metis
  have fa: "phys_frame y a = Inr a" using phys_frame_ok [OF x(5,4), of a] Cons.prems(4,5) by (simp add: page_of_page)
  have ua: "unat (a + 4096) = unat a + 4096" using Cons.prems(4) by (subst unat_add_small) auto
  have un: "\<forall>q \<in> set ps. translate_page x (tables s1) q = None" using Cons.prems(1,3) s1(3) by auto
  have b: "unat (a + 4096) + 4096 * length ps \<le> 2 ^ 52" "4096 dvd unat (a + 4096)"
    using Cons.prems(4,5) by (simp_all add: ua)
  from Cons.IH [OF _ _ un b s1(2)] Cons.prems(1,2)
  obtain s' where s': "map_consecutive x y flags ps (a + 4096) s1 = Inr s'" "P n (tables s') (manager s')"
    "dom (translate_page x (tables s')) \<subseteq> dom (translate_page x (tables s1)) \<union> set ps"
    "translate_huge y (tables s') = translate_huge y (tables s1)" "keeps_pages x (tables s1) (tables s')" "mapped_with x (tables s') flags (set ps)"
    by auto
  have "mapped_with x (tables s1) flags {p}" using s1(3,6) by (simp add: mapped_with_def)
  from keeps_mapped_with [OF this s'(5)] have "mapped_with x (tables s') flags (set (p # ps))"
    using s'(6) by (simp add: mapped_with_def)
  moreover have "keeps_pages x (tables s) (tables s')" by (rule keeps_pages_trans [OF keeps_keeps_pages [OF s1(5)] s'(5)])
  ultimately show ?case using s1(1,3,4) s'(1-4) fa by (intro exI [of _ s']) (auto simp: expect_Inr)
qed (simp add: keeps_pages_refl mapped_with_def)

lemma length_kernel_pages:
  assumes "kernel_segment_ok kd ph"
  shows "length (segment_pages ph 0) = div_ceil (unat (mem_size ph)) 4096"
proof -
  let ?v = "virtual_addr ph" and ?n = "unat (mem_size ph)"
  have al: "4096 dvd unat ?v" and pos: "0 < ?n" and fit: "unat ?v + ?n < 2 ^ 64" using assms by (auto simp: kernel_segment_ok_def)
  obtain q where q: "unat ?v = 4096 * q" using al by (auto simp: dvd_def)
  have "unat (?v + mem_size ph - 1) = unat ?v + (?n - 1)"
    unfolding last_byte [OF pos] using fit by (intro unat_add_of_nat_small) simp
  then have e: "unat (page_of (?v + mem_size ph - 1)) = unat ?v + (?n - 1) div 4096 * 4096"
    by (simp add: unat_page_of q)
  have "length (segment_pages ph 0) = (?n - 1) div 4096 + 1"
    unfolding kernel_segment_pages(1) [OF assms] using e by (simp add: pages_between_def word_le_nat_alt)
  also have "\<dots> = (?n - 1 + 4096) div 4096" by simp
  also have "\<dots> = (?n + (4096 - 1)) div 4096" using pos by simp
  also have "\<dots> = div_ceil ?n 4096" by (rule div_ceil_round) simp
  finally show ?thesis .
qed

lemma load_kernel_segment_runs:
  assumes x: "x86_64_ok x" "page_sizes_ok x y" "pool_suffices x y P W H J" "x86_64_boot_ok y" "addresses_ok x y"
    and uefi: "uefi_progress allocate room" "uefi_alloc_ok allocate allocated"
    and ok: "kernel_segment_ok kd ph" "2 ^ 64 - 2 ^ 47 \<le> unat (virtual_addr ph)" "set (segment_pages ph 0) \<subseteq> W"
    and s: "\<forall>q \<in> set (segment_pages ph 0). translate_page x (tables s) q = None" "P n (tables s) (manager s)"
    and room: "length (segment_pages ph 0) \<le> room u"
  shows "\<exists>s' u'. load_kernel_segment x y allocate kd ph (s, u) = Inr (s', u') \<and> P n (tables s') (manager s') \<and>
    dom (translate_page x (tables s')) \<subseteq> dom (translate_page x (tables s)) \<union> set (segment_pages ph 0) \<and>
    translate_huge y (tables s') = translate_huge y (tables s) \<and> room u \<le> room u' + length (segment_pages ph 0) \<and>
    keeps_pages x (tables s) (tables s') \<and>
    mapped_with x (tables s') (if ph_is_write ph then {PRESENT, WRITABLE} else {PRESENT}) (set (segment_pages ph 0))"
proof -
  let ?v = "virtual_addr ph" and ?n = "unat (mem_size ph)" and ?f = "unat (file_size ph)" and ?o = "unat (ph_file_offset ph)"
  define k where "k = div_ceil ?n 4096"
  have len: "length (segment_pages ph 0) = k" unfolding k_def by (rule length_kernel_pages [OF ok(1)])
  have fit: "?f \<le> ?n" "?o + ?f \<le> length kd" "length kd < 2 ^ 64" "0 < ?n" "unat ?v + ?n < 2 ^ 64"
    using ok(1) by (auto simp: kernel_segment_ok_def)
  have fin: "usize_add ?o ?f = ?o + ?f" using fit by (intro usize_add_small) linarith
  have nk: "?n \<le> k * 4096" by (simp add: k_def div_ceil_upper)
  then have "0 < k" using fit(4) by (cases k) auto
  then obtain pa u' where pa: "allocate k u = (Some pa, u')" "unat pa + k * 4096 \<le> 2 ^ 47" "room u \<le> room u' + k"
    using uefi(1) room len unfolding uefi_progress_def by metis
  have al: "4096 dvd unat pa" using uefi(2) pa(1) unfolding uefi_alloc_ok_def by blast
  have sl: "usize_mul k 4096 = k * 4096" using pa(2) by (intro usize_mul_small) simp
  have pages: "page_at x ?v = Inr (page_of ?v)" "page_at x (?v + mem_size ph - 1) = Inr (page_of (?v + mem_size ph - 1))"
  proof -
    have "unat (?v + mem_size ph - 1) = unat ?v + (?n - 1)"
      unfolding last_byte [OF fit(4)] using fit(4,5) by (intro unat_add_of_nat_small) simp
    then show "page_at x ?v = Inr (page_of ?v)" "page_at x (?v + mem_size ph - 1) = Inr (page_of (?v + mem_size ph - 1))"
      using ok(2) by (auto intro!: page_at_canonical [OF x(5,1)])
  qed
  have rng: "range_inclusive x (page_of ?v) (page_of (?v + mem_size ph - 1)) = segment_pages ph 0"
    using x(1) by (simp add: x86_64_ok_def segment_pages_def Let_def)
  define m1 where "m1 = store_bytes (vmem s) pa (take ?f (drop ?o kd))"
  define m2 where "m2 = (if mem_size ph > file_size ph then write_bytes m1 (pa + file_size ph) 0 (?n - ?f) else m1)"
  let ?fl = "if ph_is_write ph then {PRESENT, WRITABLE} else {PRESENT}"
  have d: "distinct (segment_pages ph 0)" by (simp add: segment_pages_def Let_def distinct_pages_between)
  have "unat pa + 4096 * length (segment_pages ph 0) \<le> 2 ^ 52" using pa(2) len by simp
  from map_consecutive_runs [OF x d ok(3) _ this al, of "s\<lparr>vmem := m2\<rparr>" n ?fl] s
  obtain s' where s': "map_consecutive x y ?fl (segment_pages ph 0) pa (s\<lparr>vmem := m2\<rparr>) = Inr s'" "P n (tables s') (manager s')"
    "dom (translate_page x (tables s')) \<subseteq> dom (translate_page x (tables s)) \<union> set (segment_pages ph 0)"
    "translate_huge y (tables s') = translate_huge y (tables s)" "keeps_pages x (tables s) (tables s')"
    "mapped_with x (tables s') ?fl (set (segment_pages ph 0))" by auto
  have "load_kernel_segment x y allocate kd ph (s, u) = Inr (s', u')"
    using pa(1) pages s'(1) fit nk
    by (simp add: load_kernel_segment_def Let_def k_def [symmetric] fin sl rng m1_def m2_def split del: if_split cong: if_cong)
      (auto simp: m1_def m2_def)
  then show ?thesis using s' pa(3) len by blast
qed

lemma load_kernel_segments_run:
  assumes x: "x86_64_ok x" "page_sizes_ok x y" "pool_suffices x y P W H J" "x86_64_boot_ok y" "addresses_ok x y"
    and uefi: "uefi_progress allocate room" "uefi_alloc_ok allocate allocated"
    and "\<forall>ph \<in> set phs. kernel_segment_ok kd ph \<and> 2 ^ 64 - 2 ^ 47 \<le> unat (virtual_addr ph) \<and> set (segment_pages ph 0) \<subseteq> W \<and>
      (\<forall>q \<in> set (segment_pages ph 0). translate_page x (tables s) q = None)"
    and "sorted_wrt (\<lambda>p q. set (segment_pages p 0) \<inter> set (segment_pages q 0) = {}) phs"
    and "P n (tables s) (manager s)" "headers_page_count 0 phs \<le> room u"
  shows "\<exists>s' u'. for_each (load_kernel_segment x y allocate kd) phs (s, u) = Inr (s', u') \<and> P n (tables s') (manager s') \<and>
    dom (translate_page x (tables s')) \<subseteq> dom (translate_page x (tables s)) \<union> (\<Union>ph \<in> set phs. set (segment_pages ph 0)) \<and>
    translate_huge y (tables s') = translate_huge y (tables s) \<and> room u \<le> room u' + headers_page_count 0 phs \<and>
    keeps_pages x (tables s) (tables s') \<and> (\<forall>ph \<in> set phs.
      mapped_with x (tables s') (if ph_is_write ph then {PRESENT, WRITABLE} else {PRESENT}) (set (segment_pages ph 0)))"
  using assms(8-)
proof (induction phs arbitrary: s u)
  case Nil
  then show ?case by (simp add: headers_page_count_def keeps_pages_refl)
next
  case (Cons p ps)
  have p: "kernel_segment_ok kd p" "2 ^ 64 - 2 ^ 47 \<le> unat (virtual_addr p)" "set (segment_pages p 0) \<subseteq> W"
    "\<forall>q \<in> set (segment_pages p 0). translate_page x (tables s) q = None" using Cons.prems(1) by auto
  have cnt: "headers_page_count 0 (p # ps) = length (segment_pages p 0) + headers_page_count 0 ps"
    by (simp add: headers_page_count_def)
  have "length (segment_pages p 0) \<le> room u" using Cons.prems(4) cnt by simp
  from load_kernel_segment_runs [OF x uefi p Cons.prems(3) this]
  obtain s1 u1 where s1: "load_kernel_segment x y allocate kd p (s, u) = Inr (s1, u1)" "P n (tables s1) (manager s1)"
    "dom (translate_page x (tables s1)) \<subseteq> dom (translate_page x (tables s)) \<union> set (segment_pages p 0)"
    "translate_huge y (tables s1) = translate_huge y (tables s)" "room u \<le> room u1 + length (segment_pages p 0)"
    "keeps_pages x (tables s) (tables s1)"
    "mapped_with x (tables s1) (if ph_is_write p then {PRESENT, WRITABLE} else {PRESENT}) (set (segment_pages p 0))" by blast
  have "translate_page x (tables s1) q = None" if "ph \<in> set ps" "q \<in> set (segment_pages ph 0)" for ph q
  proof -
    have "q \<notin> dom (translate_page x (tables s1))"
      using s1(3) that Cons.prems(1,2) by (auto simp: domIff dest!: subsetD)
    then show ?thesis by (simp add: domIff)
  qed
  then have "\<exists>s' u'. for_each (load_kernel_segment x y allocate kd) ps (s1, u1) = Inr (s', u') \<and> P n (tables s') (manager s') \<and>
    dom (translate_page x (tables s')) \<subseteq> dom (translate_page x (tables s1)) \<union> (\<Union>ph \<in> set ps. set (segment_pages ph 0)) \<and>
    translate_huge y (tables s') = translate_huge y (tables s1) \<and> room u1 \<le> room u' + headers_page_count 0 ps \<and>
    keeps_pages x (tables s1) (tables s') \<and> (\<forall>ph \<in> set ps.
      mapped_with x (tables s') (if ph_is_write ph then {PRESENT, WRITABLE} else {PRESENT}) (set (segment_pages ph 0)))"
    using Cons.prems(1,2,4) s1(2,5) cnt by (intro Cons.IH) auto
  then obtain s' u' where s': "for_each (load_kernel_segment x y allocate kd) ps (s1, u1) = Inr (s', u')" "P n (tables s') (manager s')"
    "dom (translate_page x (tables s')) \<subseteq> dom (translate_page x (tables s1)) \<union> (\<Union>ph \<in> set ps. set (segment_pages ph 0))"
    "translate_huge y (tables s') = translate_huge y (tables s1)" "room u1 \<le> room u' + headers_page_count 0 ps"
    "keeps_pages x (tables s1) (tables s')"
    "\<forall>ph \<in> set ps. mapped_with x (tables s') (if ph_is_write ph then {PRESENT, WRITABLE} else {PRESENT}) (set (segment_pages ph 0))" by blast
  have "for_each (load_kernel_segment x y allocate kd) (p # ps) (s, u) = Inr (s', u')" using s1(1) s'(1) by simp
  moreover have "dom (translate_page x (tables s')) \<subseteq> dom (translate_page x (tables s)) \<union> (\<Union>ph \<in> set (p # ps). set (segment_pages ph 0))"
    using s'(3) s1(3) by auto
  moreover have "\<forall>ph \<in> set (p # ps). mapped_with x (tables s') (if ph_is_write ph then {PRESENT, WRITABLE} else {PRESENT}) (set (segment_pages ph 0))"
    using keeps_mapped_with [OF s1(7) s'(6)] s'(7) by simp
  ultimately show ?case
    using s'(2,4,5) s1(4,5) cnt keeps_pages_trans [OF s1(6) s'(6)] by (intro exI [of _ s'] exI [of _ u'] conjI) (assumption | simp)+
qed

definition kernel_stack_pages :: "u64 list" where
  "kernel_stack_pages = pages_between (STACK_TOP - 20480) (STACK_TOP - 4096)"

lemma map_stack_pages_run:
  assumes x: "x86_64_ok x" "page_sizes_ok x y" "pool_suffices x y P W H J"
    and "distinct ps" "set ps \<subseteq> W" "\<forall>q \<in> set ps. translate_page x (tables s) q = None" "P (length ps + n) (tables s) (manager s)"
  shows "\<exists>s'. for_each (map_stack_page x y) ps s = Inr s' \<and> P n (tables s') (manager s') \<and> keeps x s s' \<and>
    dom (translate_page x (tables s')) = dom (translate_page x (tables s)) \<union> set ps \<and>
    (\<forall>q \<in> set ps. flags_of x (tables s') q = {PRESENT, WRITABLE}) \<and> translate_huge y (tables s') = translate_huge y (tables s)"
  using assms(4-)
proof (induction ps arbitrary: s)
  case Nil
  then show ?case by (simp add: keeps_refl)
next
  case (Cons p ps)
  obtain f b where f: "bump_take (manager s) = (Some f, b)" "P (length ps + n) (tables s) b"
    using pool_take [OF x(3), of "length ps + n" "tables s" "manager s"] Cons.prems(4) by auto
  define t where "t = s\<lparr>manager := b\<rparr>"
  have a: "alloc_frame (boot_allocate y) s = (Some (frame_containing y f), t)"
    using f(1) by (simp add: alloc_frame_def boot_allocate_def bump_allocate_frame_def t_def)
  have "P (length ps + n) (tables t) (manager t)" "p \<in> W" "translate_page x (tables t) p = None"
    using f(2) Cons.prems(2,3) by (auto simp: t_def)
  from map_frame_runs [OF x this, where frame = "frame_containing y f" and flags = "{PRESENT, WRITABLE}"]
  obtain s1 where s1: "map_frame x (boot_allocate y) p (frame_containing y f) {PRESENT, WRITABLE} t = Some s1"
    "P (length ps + n) (tables s1) (manager s1)" "keeps x t s1"
    "translate_page x (tables s1) = (translate_page x (tables t))(p \<mapsto> frame_containing y f)"
    "flags_of x (tables s1) p = {PRESENT, WRITABLE}" "translate_huge y (tables s1) = translate_huge y (tables t)" by blast
  have step: "map_stack_page x y p s = Inr s1" using a s1(1) by (simp add: map_stack_page_def)
  have k: "keeps x s s1" using s1(3) by (simp add: keeps_def t_def)
  have "\<forall>q \<in> set ps. translate_page x (tables s1) q = None" using Cons.prems(1,3) s1(4) by (auto simp: t_def)
  with Cons.IH [of s1] Cons.prems(1,2) s1(2)
  obtain s' where s': "for_each (map_stack_page x y) ps s1 = Inr s'" "P n (tables s') (manager s')" "keeps x s1 s'"
    "dom (translate_page x (tables s')) = dom (translate_page x (tables s1)) \<union> set ps"
    "\<forall>q \<in> set ps. flags_of x (tables s') q = {PRESENT, WRITABLE}" "translate_huge y (tables s') = translate_huge y (tables s1)"
    by auto
  have "flags_of x (tables s') p = {PRESENT, WRITABLE}" using keepsD [OF s'(3), of p "frame_containing y f"] s1(4,5) by simp
  then show ?case using step s' s1(4,6) keeps_trans [OF k s'(3)] by (auto simp: t_def)
qed

lemma map_kernel_stack_runs:
  assumes x: "x86_64_ok x" "page_sizes_ok x y" "pool_suffices x y P W H J" "addresses_ok x y"
    and "set kernel_stack_pages \<subseteq> W" "\<forall>q \<in> set kernel_stack_pages. translate_page x (tables s) q = None"
    "P (length kernel_stack_pages + n) (tables s) (manager s)"
  shows "\<exists>s'. map_kernel_stack x y s = Inr s' \<and> P n (tables s') (manager s') \<and> keeps x s s' \<and>
    dom (translate_page x (tables s')) = dom (translate_page x (tables s)) \<union> set kernel_stack_pages \<and>
    (\<forall>q \<in> set kernel_stack_pages. flags_of x (tables s') q = {PRESENT, WRITABLE}) \<and>
    translate_huge y (tables s') = translate_huge y (tables s)"
proof -
  have "page_at x (STACK_TOP - 20480) = Inr (STACK_TOP - 20480)" "page_at x (STACK_TOP - 1) = Inr (STACK_TOP - 4096)"
    using page_at_canonical [OF x(4,1), of "STACK_TOP - 20480"] page_at_canonical [OF x(4,1), of "STACK_TOP - 1"]
    by (simp_all add: STACK_TOP_def KERNEL_BASE_def page_of_def)
  moreover have "range_inclusive x (STACK_TOP - 20480) (STACK_TOP - 4096) = kernel_stack_pages"
    using x(1) by (simp add: x86_64_ok_def kernel_stack_pages_def)
  ultimately have "map_kernel_stack x y s = for_each (map_stack_page x y) kernel_stack_pages s"
    by (simp add: map_kernel_stack_def)
  moreover have "distinct kernel_stack_pages" by (simp add: kernel_stack_pages_def distinct_pages_between)
  ultimately show ?thesis using map_stack_pages_run [OF x(1-3) _ assms(5-7)] by simp
qed

text \<open>The window touches no page of 4 KiB and no memory.\<close>

lemma map_hhdm_keeps:
  assumes "page_sizes_ok x y" "map_hhdm x y mx s = Inr s'"
  shows "keeps x s s' \<and> translate_page x (tables s') = translate_page x (tables s)"
proof -
  obtain fs where "for_each (map_hhdm_frame x y) fs s = Inr s'"
    using assms(2) by (auto simp: map_hhdm_def and_then_Inr expect_Inr)
  then have "translate_page x (tables s') = translate_page x (tables s) \<and> flags_of x (tables s') = flags_of x (tables s) \<and> vmem s' = vmem s"
  proof (rule for_each_invariant, goal_cases)
    case (2 f t t')
    obtain v where v: "virt_addr_new x (f + BOOT_HHDM_OFFSET) = Some v"
      using 2(3) by (auto simp: map_hhdm_frame_def and_then_Inr expect_Inr)
    obtain d pt b m where t: "try_map_huge y (huge_containing y v) f {PRESENT, WRITABLE} (boot_allocate y) (tables t) (manager t, vmem t) = (d, pt, (b, m))"
      by (metis surj_pair)
    have t': "t' = t\<lparr>tables := pt, manager := b, vmem := m\<rparr>" using 2(3) v t by (simp add: map_hhdm_frame_def)
    have "translate_page x pt = translate_page x (tables t) \<and> flags_of x pt = flags_of x (tables t) \<and>
        (\<exists>n fs. allocate_n (boot_allocate y) n (manager t, vmem t) = (fs, (b, m)))"
      using conjunct1 [OF conjunct2 [OF conjunct2 [OF assms(1) [unfolded page_sizes_ok_def]]]] t by blast
    then show ?case using 2(2) boot_allocate_n_mem [of y _ "(manager t, vmem t)"] by (fastforce simp: t')
  qed simp
  then show ?thesis by (simp add: keeps_def)
qed

text \<open>The running code: 2 MiB from the page of the instruction pointer.\<close>

definition identity_page :: "u64 \<Rightarrow> nat \<Rightarrow> u64" where
  "identity_page rip i = page_of rip + of_nat i * 0x1000"

lemma identity_page:
  assumes "unat rip + 512 * 4096 \<le> 2 ^ 47" "i < 512"
  shows "unat (identity_page rip i) = unat (page_of rip) + i * 4096" "page_of (identity_page rip i) = identity_page rip i"
proof -
  have le: "unat (page_of rip) \<le> unat rip" by (simp add: unat_page_of)
  have "(of_nat i * 0x1000 :: u64) = of_nat (i * 4096)" by simp
  then show u: "unat (identity_page rip i) = unat (page_of rip) + i * 4096"
    unfolding identity_page_def by (simp only:) (rule unat_add_of_nat_small, use assms le in simp)
  show "page_of (identity_page rip i) = identity_page rip i" by (rule page_of_page) (simp add: u)
qed

lemma map_identity_page_runs:
  assumes x: "x86_64_ok x" "page_sizes_ok x y" "pool_suffices x y P W H (identity_page rip ` {..<512})" "x86_64_boot_ok y" "addresses_ok x y"
    and "unat rip + 512 * 4096 \<le> 2 ^ 47" "i < 512" "P n (tables s) (manager s)"
  shows "\<exists>s'. map_identity_page x y (page_of rip) i s = Inr s' \<and> P n (tables s') (manager s') \<and> keeps x s s' \<and>
    translate_huge y (tables s') = translate_huge y (tables s) \<and>
    translate_page x (tables s') = (if translate_page x (tables s) (identity_page rip i) = None
      then (translate_page x (tables s))(identity_page rip i \<mapsto> identity_page rip i) else translate_page x (tables s)) \<and>
    (translate_page x (tables s) (identity_page rip i) = None \<longrightarrow> flags_of x (tables s') (identity_page rip i) = {PRESENT, WRITABLE})"
proof -
  let ?q = "identity_page rip i"
  note q = identity_page [OF assms(6,7)]
  have lt: "unat ?q < 2 ^ 47" using q(1) assms(6,7) page_split [of rip] by simp
  then have p: "page_at x ?q = Inr ?q" "phys_frame y ?q = Inr ?q"
    using page_at_canonical [OF x(5,1), of ?q] phys_frame_ok [OF x(5,4), of ?q] q(2) by simp_all
  obtain d pt b m where t: "try_map y ?q ?q {PRESENT, WRITABLE} (boot_allocate y) (tables s) (manager s, vmem s) = (d, pt, (b, m))"
    by (metis surj_pair)
  define s' where "s' = s\<lparr>tables := pt, manager := b, vmem := m\<rparr>"
  have "map_identity_page x y (page_of rip) i s = Inr s'"
    using p t by (simp add: map_identity_page_def Let_def identity_page_def [symmetric] s'_def)
  moreover have e: "translate_huge y pt = translate_huge y (tables s)" "\<exists>n fs. allocate_n (boot_allocate y) n (manager s, vmem s) = (fs, (b, m))"
    "if d then translate_page x (tables s) ?q = None \<and> translate_page x pt = (translate_page x (tables s))(?q \<mapsto> ?q) \<and>
       flags_of x pt = (flags_of x (tables s))(?q := {PRESENT, WRITABLE})
     else translate_page x pt = translate_page x (tables s) \<and> flags_of x pt = flags_of x (tables s)"
    using conjunct2 [OF conjunct2 [OF conjunct2 [OF x(2) [unfolded page_sizes_ok_def]]]] t by blast+
  have "?q \<in> identity_page rip ` {..<512}" using assms(7) by blast
  note pool = pool_try [OF x(3) this assms(8) t]
  have "vmem s' = vmem s" using e(2) boot_allocate_n_mem [of y _ "(manager s, vmem s)"] by (fastforce simp: s'_def)
  then have "keeps x s s'" using e(3) by (auto simp: keeps_def s'_def map_le_def dom_def split: if_splits)
  ultimately show ?thesis using pool e(1,3) by (intro exI [of _ s']) (auto simp: s'_def split: if_splits)
qed

lemma map_identity_loop:
  assumes x: "x86_64_ok x" "page_sizes_ok x y" "pool_suffices x y P W H (identity_page rip ` {..<512})" "x86_64_boot_ok y" "addresses_ok x y"
    and rip: "unat rip + 512 * 4096 \<le> 2 ^ 47" and "distinct is" "set is \<subseteq> {..<512}" "P n (tables s) (manager s)"
  shows "\<exists>s'. for_each (map_identity_page x y (page_of rip)) is s = Inr s' \<and> P n (tables s') (manager s') \<and> keeps x s s' \<and>
    translate_huge y (tables s') = translate_huge y (tables s) \<and>
    dom (translate_page x (tables s')) \<subseteq> dom (translate_page x (tables s)) \<union> identity_page rip ` set is \<and>
    (\<forall>i \<in> set is. translate_page x (tables s) (identity_page rip i) = None \<longrightarrow>
       translate_page x (tables s') (identity_page rip i) = Some (identity_page rip i) \<and>
       flags_of x (tables s') (identity_page rip i) = {PRESENT, WRITABLE})"
  using assms(7-)
proof (induction "is" arbitrary: s)
  case Nil
  then show ?case by (simp add: keeps_refl)
next
  case (Cons i js)
  have i: "i < 512" using Cons.prems(2) by simp
  obtain s1 where s1: "map_identity_page x y (page_of rip) i s = Inr s1" "P n (tables s1) (manager s1)" "keeps x s s1"
    "translate_huge y (tables s1) = translate_huge y (tables s)"
    "translate_page x (tables s1) = (if translate_page x (tables s) (identity_page rip i) = None
      then (translate_page x (tables s))(identity_page rip i \<mapsto> identity_page rip i) else translate_page x (tables s))"
    "translate_page x (tables s) (identity_page rip i) = None \<longrightarrow> flags_of x (tables s1) (identity_page rip i) = {PRESENT, WRITABLE}"
    using map_identity_page_runs [OF x rip i Cons.prems(3)] by (elim exE conjE) (rule that)
  obtain s' where s': "for_each (map_identity_page x y (page_of rip)) js s1 = Inr s'" "P n (tables s') (manager s')" "keeps x s1 s'"
    "translate_huge y (tables s') = translate_huge y (tables s1)"
    "dom (translate_page x (tables s')) \<subseteq> dom (translate_page x (tables s1)) \<union> identity_page rip ` set js"
    "\<forall>j \<in> set js. translate_page x (tables s1) (identity_page rip j) = None \<longrightarrow>
       translate_page x (tables s') (identity_page rip j) = Some (identity_page rip j) \<and>
       flags_of x (tables s') (identity_page rip j) = {PRESENT, WRITABLE}"
    using Cons.IH [OF _ _ s1(2)] Cons.prems(1,2) by auto
  have "identity_page rip j \<noteq> identity_page rip i" if "j \<in> set js" for j
    using identity_page(1) [OF rip i] identity_page(1) [OF rip, of j] that Cons.prems(1,2) by auto
  then have "translate_page x (tables s') (identity_page rip j) = Some (identity_page rip j) \<and>
      flags_of x (tables s') (identity_page rip j) = {PRESENT, WRITABLE}"
    if "j \<in> set js" "translate_page x (tables s) (identity_page rip j) = None" for j
    using s'(6) that s1(5) by (auto split: if_splits)
  moreover have "translate_page x (tables s') (identity_page rip i) = Some (identity_page rip i) \<and>
      flags_of x (tables s') (identity_page rip i) = {PRESENT, WRITABLE}"
    if "translate_page x (tables s) (identity_page rip i) = None"
    using that s1(5,6) keepsD [OF s'(3), of "identity_page rip i" "identity_page rip i"] by simp
  moreover have "dom (translate_page x (tables s')) \<subseteq> dom (translate_page x (tables s)) \<union> identity_page rip ` set (i # js)"
    using s'(5) s1(5) by (auto split: if_splits)
  ultimately show ?case using s1(1,4) s'(1,2,4) keeps_trans [OF s1(3) s'(3)] by auto
qed

text \<open>The frame buffer, on a page boundary.\<close>

lemma map_framebuffer_loop:
  assumes x: "x86_64_ok x" "page_sizes_ok x y" "pool_suffices x y P W H J"
    and at: "\<And>f. f \<in> set fs \<Longrightarrow> page_at x (FRAMEBUFFER_VIRT_BASE + (f - fb)) = Inr (pg f)"
    and "distinct (map pg fs)" "pg ` set fs \<subseteq> W" "\<forall>q \<in> pg ` set fs. translate_page x (tables s) q = None" "P n (tables s) (manager s)"
  shows "\<exists>s'. for_each (map_fb_frame x y fb) fs s = Inr s' \<and> P n (tables s') (manager s') \<and> keeps x s s' \<and>
    translate_huge y (tables s') = translate_huge y (tables s) \<and>
    dom (translate_page x (tables s')) = dom (translate_page x (tables s)) \<union> pg ` set fs \<and>
    (\<forall>f \<in> set fs. translate_page x (tables s') (pg f) = Some f \<and> flags_of x (tables s') (pg f) = {PRESENT, WRITABLE, NO_CACHE})"
  using assms(4-)
proof (induction fs arbitrary: s)
  case Nil
  then show ?case by (simp add: keeps_refl)
next
  case (Cons f fs)
  have "P n (tables s) (manager s)" "pg f \<in> W" "translate_page x (tables s) (pg f) = None" using Cons.prems by auto
  from map_frame_runs [OF x this, where frame = f and flags = "{PRESENT, WRITABLE, NO_CACHE}"]
  obtain s1 where s1: "map_frame x (boot_allocate y) (pg f) f {PRESENT, WRITABLE, NO_CACHE} s = Some s1"
    "P n (tables s1) (manager s1)" "keeps x s s1" "translate_page x (tables s1) = (translate_page x (tables s))(pg f \<mapsto> f)"
    "flags_of x (tables s1) (pg f) = {PRESENT, WRITABLE, NO_CACHE}" "translate_huge y (tables s1) = translate_huge y (tables s)" by blast
  have step: "map_fb_frame x y fb f s = Inr s1" using Cons.prems(1) s1(1) by (simp add: map_fb_frame_def)
  have "translate_page x (tables s1) q = None" if "q \<in> pg ` set fs" for q
  proof -
    have "pg f \<notin> pg ` set fs" using Cons.prems(2) by simp
    then have "q \<noteq> pg f" using that by blast
    then show ?thesis using that Cons.prems(4) s1(4) by auto
  qed
  with Cons.IH [of s1] Cons.prems(1-3) s1(2)
  obtain s' where s': "for_each (map_fb_frame x y fb) fs s1 = Inr s'" "P n (tables s') (manager s')" "keeps x s1 s'"
    "translate_huge y (tables s') = translate_huge y (tables s1)"
    "dom (translate_page x (tables s')) = dom (translate_page x (tables s1)) \<union> pg ` set fs"
    "\<forall>f \<in> set fs. translate_page x (tables s') (pg f) = Some f \<and> flags_of x (tables s') (pg f) = {PRESENT, WRITABLE, NO_CACHE}"
    by auto
  have "translate_page x (tables s') (pg f) = Some f \<and> flags_of x (tables s') (pg f) = {PRESENT, WRITABLE, NO_CACHE}"
    using keepsD [OF s'(3), of "pg f" f] s1(4,5) by simp
  then show ?case using step s' s1(4,6) keeps_trans [OF s1(3) s'(3)] by auto
qed

definition fb_pages :: "nat \<Rightarrow> u64 set" where
  "fb_pages n = {q. 4096 dvd unat q \<and> unat FRAMEBUFFER_VIRT_BASE \<le> unat q \<and> unat q < unat FRAMEBUFFER_VIRT_BASE + n}"

lemma map_framebuffer_runs:
  assumes x: "x86_64_ok x" "page_sizes_ok x y" "pool_suffices x y P W H J" "x86_64_boot_ok y" "addresses_ok x y"
    and fb: "4096 dvd unat fb" "0 < n" "n \<le> 2 ^ 40" "unat fb + n \<le> 2 ^ 52"
    and "fb_pages n \<subseteq> W" "\<forall>q \<in> fb_pages n. translate_page x (tables s) q = None" "P k (tables s) (manager s)"
  shows "\<exists>s'. map_framebuffer x y fb n s = Inr s' \<and> P k (tables s') (manager s') \<and> keeps x s s' \<and>
    translate_huge y (tables s') = translate_huge y (tables s) \<and>
    dom (translate_page x (tables s')) \<subseteq> dom (translate_page x (tables s)) \<union> fb_pages n \<and>
    (\<forall>i < n. translate_page x (tables s') (page_of (FRAMEBUFFER_VIRT_BASE + of_nat i)) = Some (page_of (fb + of_nat i)) \<and>
       flags_of x (tables s') (page_of (FRAMEBUFFER_VIRT_BASE + of_nat i)) = {PRESENT, WRITABLE, NO_CACHE})"
proof -
  let ?V = FRAMEBUFFER_VIRT_BASE
  define pg where "pg f = ?V + (f - fb)" for f
  define fs where "fs = pages_between fb (page_of (fb + of_nat n - 1))"
  have V: "unat ?V = 0xFFFFA00000000000" by (simp add: FRAMEBUFFER_VIRT_BASE_def)
  have ub: "unat (fb + of_nat i) = unat fb + i" if "i < n" for i using that fb(4) by (intro unat_add_of_nat_small) simp
  have uv: "unat (?V + of_nat i) = unat ?V + i" if "i < n" for i using that fb(3) by (intro unat_add_of_nat_small) (simp add: V)
  have last: "fb + of_nat n - 1 = fb + of_nat (n - 1)" using fb(2) by (simp add: of_nat_diff)
  have ul: "unat (fb + of_nat n - 1) = unat fb + (n - 1)" unfolding last using fb(2) by (intro ub) simp
  have mem: "f \<in> set fs \<longleftrightarrow> (\<exists>i < n. f = fb + of_nat i \<and> 4096 dvd i)" for f
  proof
    assume "f \<in> set fs"
    then have f: "4096 dvd unat f" "unat fb \<le> unat f" "unat f \<le> unat (page_of (fb + of_nat n - 1))"
      using fb(1) by (auto simp: fs_def set_pages_between word_le_nat_alt)
    define i where "i = unat f - unat fb"
    have "unat (page_of (fb + of_nat n - 1)) \<le> unat fb + (n - 1)" using page_split [of "fb + of_nat n - 1"] ul by linarith
    then have i: "i < n" "unat f = unat fb + i" using f fb(2) by (auto simp: i_def)
    moreover have "f = fb + of_nat i" using ub [OF i(1)] i(2) by (simp add: word_unat_eq_iff)
    moreover have "4096 dvd i" unfolding i_def using f(1) fb(1) by (rule dvd_diff_nat)
    ultimately show "\<exists>i < n. f = fb + of_nat i \<and> 4096 dvd i" by blast
  next
    assume "\<exists>i < n. f = fb + of_nat i \<and> 4096 dvd i"
    then obtain i where i: "i < n" "f = fb + of_nat i" "4096 dvd i" by blast
    have u: "unat f = unat fb + i" using ub i by simp
    then have al: "4096 dvd unat f" using fb(1) i(3) by simp
    have "f \<le> fb + of_nat n - 1" using u ul i(1) by (simp add: word_le_nat_alt)
    then have "f \<le> page_of (fb + of_nat n - 1)" using page_of_mono [of f] page_of_page [OF al] by simp
    then show "f \<in> set fs" using fb(1) al u by (auto simp: fs_def set_pages_between word_le_nat_alt)
  qed
  have pgi: "pg (fb + of_nat i) = ?V + of_nat i" for i by (simp add: pg_def)
  have aV: "4096 dvd unat ?V" by (simp add: V)
  have pgf: "page_of (pg f) = pg f" "pg f \<in> fb_pages n" "page_at x (?V + (f - fb)) = Inr (pg f)" if f: "f \<in> set fs" for f
  proof -
    obtain i where i: "i < n" "f = fb + of_nat i" "4096 dvd i" using f mem by blast
    have u: "unat (pg f) = unat ?V + i" using uv i pgi by simp
    then have al: "4096 dvd unat (pg f)" using aV i(3) by simp
    then show p: "page_of (pg f) = pg f" by (rule page_of_page)
    show "pg f \<in> fb_pages n" using u al i(1) by (simp add: fb_pages_def)
    have "page_at x (pg f) = Inr (page_of (pg f))" by (rule page_at_canonical [OF x(5,1)]) (simp add: u V)
    then show "page_at x (?V + (f - fb)) = Inr (pg f)" using p by (simp add: pg_def)
  qed
  have d: "distinct (map pg fs)" by (simp add: distinct_map fs_def distinct_pages_between inj_on_def pg_def)
  have sub: "pg ` set fs \<subseteq> W" and un: "\<forall>q \<in> pg ` set fs. translate_page x (tables s) q = None" using pgf(2) assms(10,11) by auto
  obtain s' where s': "for_each (map_fb_frame x y fb) fs s = Inr s'" "P k (tables s') (manager s')" "keeps x s s'"
    "translate_huge y (tables s') = translate_huge y (tables s)"
    "dom (translate_page x (tables s')) = dom (translate_page x (tables s)) \<union> pg ` set fs"
    "\<forall>f \<in> set fs. translate_page x (tables s') (pg f) = Some f \<and> flags_of x (tables s') (pg f) = {PRESENT, WRITABLE, NO_CACHE}"
    using map_framebuffer_loop [OF x(1-3) pgf(3) d sub un assms(12)] by blast
  have "phys_frame y fb = Inr fb" using phys_frame_ok [OF x(5,4), of fb] fb by (simp add: page_of_page)
  moreover have "phys_frame y (fb + of_nat n - 1) = Inr (page_of (fb + of_nat n - 1))"
    by (rule phys_frame_ok [OF x(5,4)]) (use ul fb in simp)
  ultimately have "map_framebuffer x y fb n s = Inr s'"
    using s'(1) x(4) by (simp add: map_framebuffer_def x86_64_boot_ok_def fs_def)
  moreover have "translate_page x (tables s') (page_of (?V + of_nat i)) = Some (page_of (fb + of_nat i)) \<and>
      flags_of x (tables s') (page_of (?V + of_nat i)) = {PRESENT, WRITABLE, NO_CACHE}" if i: "i < n" for i
  proof -
    define j where "j = i div 4096 * 4096"
    have j: "j < n" "4096 dvd j" "j \<le> i" using i by (auto simp: j_def intro: le_less_trans [of _ i])
    have "(unat fb + i) div 4096 = unat fb div 4096 + i div 4096" using fb(1) by (simp add: div_plus_div_distrib_dvd_left)
    then have "(unat fb + i) div 4096 * 4096 = unat fb + j" using fb(1) by (simp add: j_def distrib_right)
    then have e1: "page_of (fb + of_nat i) = fb + of_nat j" by (simp add: word_unat_eq_iff unat_page_of ub i j(1))
    have "(unat ?V + i) div 4096 = unat ?V div 4096 + i div 4096" using aV by (simp add: div_plus_div_distrib_dvd_left)
    then have "(unat ?V + i) div 4096 * 4096 = unat ?V + j" using aV by (simp add: j_def distrib_right)
    then have e2: "page_of (?V + of_nat i) = pg (fb + of_nat j)" by (simp add: pgi word_unat_eq_iff unat_page_of uv i j(1))
    have "fb + of_nat j \<in> set fs" using mem j by blast
    then show ?thesis using s'(6) unfolding e1 e2 by blast
  qed
  ultimately show ?thesis using s'(2-5) pgf(2) by (intro exI [of _ s']) auto
qed

section \<open>The whole bootloader\<close>

definition boot_crate_ok :: "('pt, 'a) x86_64 \<Rightarrow> ('pt, 'a) x86_64_boot \<Rightarrow> bool" where
  "boot_crate_ok x y \<longleftrightarrow> x86_64_ok x \<and> page_sizes_ok x y \<and> x86_64_boot_ok y \<and> addresses_ok x y"

definition kernel_image_pages :: "ElfFile \<Rightarrow> u64 set" where
  "kernel_image_pages elf = (\<Union>ph \<in> set (load_headers elf). set (segment_pages ph 0))"

text \<open>A kernel as the linker script lays it out: page-aligned segments from \<open>KERNEL_BASE\<close> upwards that share no page.\<close>

definition kernel_elf_ok :: "u8 list \<Rightarrow> ElfFile \<Rightarrow> bool" where
  "kernel_elf_ok kernel_data elf \<longleftrightarrow>
     (\<forall>ph \<in> set (load_headers elf). kernel_segment_ok kernel_data ph \<and> unat KERNEL_BASE \<le> unat (virtual_addr ph)) \<and>
     sorted_wrt (\<lambda>p q. set (segment_pages p 0) \<inter> set (segment_pages q 0) = {}) (load_headers elf)"

text \<open>Firmware whose services succeed: it reads the file \<open>kernel_data\<close>, has pages for it, for the pool, for \<open>n\<close> pages of
  segments and for the \<open>BootInfo\<close>, runs the bootloader in the lower half, and has memory and a page-aligned frame
  buffer in the physical address space.\<close>

definition firmware_ready :: "'u firmware \<Rightarrow> ('u \<Rightarrow> nat) \<Rightarrow> 'u \<Rightarrow> u8 list \<Rightarrow> nat \<Rightarrow> MemoryDescriptor list \<Rightarrow> bool" where
  "firmware_ready fw room u kernel_data n ds \<longleftrightarrow>
     helpers_init fw \<noteq> None \<and> image_file_system fw \<noteq> None \<and> open_volume fw \<noteq> None \<and> open_kernel fw \<noteq> None \<and>
     into_regular_file fw \<noteq> None \<and> gop_handle fw \<noteq> None \<and> gop_open fw \<noteq> None \<and>
     (\<exists>sz. kernel_file_size fw = Some sz \<and> 0 < sz \<and> read_file fw (div_ceil (unat sz) 4096 * 4096) = Some kernel_data \<and>
        length kernel_data \<le> div_ceil (unat sz) 4096 * 4096 \<and> div_ceil (unat sz) 4096 + PAGE_TABLE_POOL_SIZE + n + 1 \<le> room u) \<and>
     temp_mmap fw \<noteq> None \<and> 2 \<le> length (the (temp_mmap fw)) \<and>
     mmap_storage fw = Some ds \<and> (\<forall>d \<in> set ds. desc_end d \<le> 2 ^ 47) \<and> (\<exists>d \<in> set ds. 0 < desc_end d) \<and>
     unat (rip_now fw) + 512 * 4096 \<le> 2 ^ 47 \<and>
     4096 dvd unat (gop_address fw) \<and> 0 < gop_size fw \<and> gop_size fw \<le> 2 ^ 40 \<and> unat (gop_address fw) + gop_size fw \<le> 2 ^ 52"

text \<open>The pool of 1024 frames suffices for the tables, with the frames of the stack to spare.\<close>

definition boot_pool_ok ::
  "('pt, BumpAllocator) x86_64 \<Rightarrow> ('pt, BumpAllocator) x86_64_boot \<Rightarrow> 'u firmware \<Rightarrow> ElfFile \<Rightarrow> MemoryDescriptor list \<Rightarrow>
   (nat \<Rightarrow> 'pt \<Rightarrow> BumpAllocator \<Rightarrow> bool) \<Rightarrow> bool" where
  "boot_pool_ok x y fw elf ds P \<longleftrightarrow>
     pool_suffices x y P (kernel_image_pages elf \<union> set kernel_stack_pages \<union> fb_pages (gop_size fw))
       ((\<lambda>p. huge_of p + BOOT_HHDM_OFFSET) ` {..<detect_max_phys ds}) (identity_page (rip_now fw) ` {..<512}) \<and>
     (\<forall>a. 4096 dvd unat a \<and> unat a + PAGE_TABLE_POOL_SIZE * 4096 \<le> 2 ^ 47 \<longrightarrow>
        P (length kernel_stack_pages) (new_tables y a) ((bump_new a PAGE_TABLE_POOL_SIZE)\<lparr>bump_next := a + 4096\<rparr>))"

text \<open>What the kernel finds: its segments, writable where the program header says so, a writable stack below \<open>STACK_TOP\<close>, all
  physical memory in the window, the code that makes the switch at its own address, the frame buffer without caching, and no other page
  of either size.\<close>

definition booted ::
  "('pt, BumpAllocator) x86_64 \<Rightarrow> ('pt, BumpAllocator) x86_64_boot \<Rightarrow> 'u firmware \<Rightarrow> ElfFile \<Rightarrow> MemoryDescriptor list \<Rightarrow> 'pt boot_vm \<Rightarrow> bool" where
  "booted x y fw elf ds s \<longleftrightarrow>
     (\<forall>ph \<in> set (load_headers elf).
        mapped_with x (tables s) (if ph_is_write ph then {PRESENT, WRITABLE} else {PRESENT}) (set (segment_pages ph 0))) \<and>
     mapped_with x (tables s) {PRESENT, WRITABLE} (set kernel_stack_pages) \<and>
     (\<forall>p < detect_max_phys ds. translate_huge y (tables s) (huge_of (p + BOOT_HHDM_OFFSET)) = Some (huge_of p, {PRESENT, WRITABLE})) \<and>
     (\<forall>q \<in> identity_page (rip_now fw) ` {..<512}. translate_page x (tables s) q = Some q \<and> flags_of x (tables s) q = {PRESENT, WRITABLE}) \<and>
     (\<forall>i < gop_size fw. translate_page x (tables s) (page_of (FRAMEBUFFER_VIRT_BASE + of_nat i)) = Some (page_of (gop_address fw + of_nat i)) \<and>
        flags_of x (tables s) (page_of (FRAMEBUFFER_VIRT_BASE + of_nat i)) = {PRESENT, WRITABLE, NO_CACHE}) \<and>
     dom (translate_page x (tables s)) \<subseteq> kernel_image_pages elf \<union> set kernel_stack_pages \<union> fb_pages (gop_size fw) \<union>
       identity_page (rip_now fw) ` {..<512} \<and>
     dom (translate_huge y (tables s)) \<subseteq> (\<lambda>p. huge_of p + BOOT_HHDM_OFFSET) ` {..<detect_max_phys ds}"

text \<open>The regions of the kernel's address space are disjoint.\<close>

lemma kernel_page_bounds:
  assumes "kernel_elf_ok kd elf" "q \<in> kernel_image_pages elf"
  shows "unat KERNEL_BASE \<le> unat q"
proof -
  obtain ph where ph: "ph \<in> set (load_headers elf)" "q \<in> set (segment_pages ph 0)" using assms(2) by (auto simp: kernel_image_pages_def)
  have ok: "kernel_segment_ok kd ph" "unat KERNEL_BASE \<le> unat (virtual_addr ph)" using assms(1) ph(1) by (auto simp: kernel_elf_ok_def)
  have "virtual_addr ph \<le> q"
    using ph(2) ok(1) unfolding kernel_segment_pages(1) [OF ok(1)] by (subst (asm) set_pages_between) (auto simp: kernel_segment_ok_def)
  then show ?thesis using ok(2) by (simp add: word_le_nat_alt)
qed

lemma kernel_stack_bounds: "q \<in> set kernel_stack_pages \<Longrightarrow> 0xffffffff7fffa000 \<le> unat q \<and> unat q < unat KERNEL_BASE"
  unfolding kernel_stack_pages_def
  by (subst (asm) set_pages_between) (auto simp: STACK_TOP_def KERNEL_BASE_def word_le_nat_alt)

lemma fb_page_bounds: "q \<in> fb_pages n \<Longrightarrow> n \<le> 2 ^ 40 \<Longrightarrow> 0xFFFFA00000000000 \<le> unat q \<and> unat q < 0xFFFFB00000000000"
  by (auto simp: fb_pages_def FRAMEBUFFER_VIRT_BASE_def)

lemma identity_page_bounds: "unat rip + 512 * 4096 \<le> 2 ^ 47 \<Longrightarrow> q \<in> identity_page rip ` {..<512} \<Longrightarrow> unat q < 2 ^ 47"
  using identity_page(1) [of rip] page_split [of rip] by fastforce

lemma length_kernel_stack_pages: "length kernel_stack_pages = 5"
  by (simp add: kernel_stack_pages_def pages_between_def STACK_TOP_def KERNEL_BASE_def)

lemma detect_max_phys_bounds:
  assumes "\<forall>d \<in> set ds. desc_end d \<le> 2 ^ 47" "\<exists>d \<in> set ds. 0 < desc_end d"
  shows "2097152 dvd unat (detect_max_phys ds)" "0 < unat (detect_max_phys ds)" "unat (detect_max_phys ds) \<le> 2 ^ 47"
    "\<forall>d \<in> set ds. desc_end d \<le> unat (detect_max_phys ds)" "\<exists>d \<in> set ds. unat (detect_max_phys ds) < desc_end d + 2097152"
proof -
  let ?M = "fold max (map desc_end ds) 0"
  have eq: "unat (detect_max_phys ds) = (?M + (2097152 - 1)) div 2097152 * 2097152"
    using detect_max_phys_eq [OF assms(1)] by simp
  note up = round_up_least [of 2097152 ?M, folded eq]
  show "2097152 dvd unat (detect_max_phys ds)" using up(3) by simp
  have "\<not> ?M \<le> 0" using assms(2) unfolding fold_max_nat by auto
  then have pos: "0 < ?M" by simp
  then show "0 < unat (detect_max_phys ds)" using up(1) by simp
  show "\<forall>d \<in> set ds. desc_end d \<le> unat (detect_max_phys ds)"
    using up(1) fold_max_nat [of "map desc_end ds" 0 "unat (detect_max_phys ds)"] by simp
  have "\<not> ?M \<le> ?M - 1" using pos by simp
  then obtain d where "d \<in> set ds" "\<not> desc_end d \<le> ?M - 1" unfolding fold_max_nat [of _ _ "?M - 1"] by auto
  moreover from this have "?M \<le> desc_end d" by linarith
  ultimately show "\<exists>d \<in> set ds. unat (detect_max_phys ds) < desc_end d + 2097152" using up(2) by (intro bexI [of _ d]) linarith+
  have "?M \<le> 2 ^ 47" using assms(1) by (simp add: fold_max_nat)
  then have "?M + (2097152 - 1) < (2 ^ 26 + 1) * 2097152" by simp
  then have "(?M + (2097152 - 1)) div 2097152 < 2 ^ 26 + 1" by (simp only: div_less_iff_less_mult)
  then have "(?M + (2097152 - 1)) div 2097152 \<le> 2 ^ 26" by simp
  then have "unat (detect_max_phys ds) \<le> 2 ^ 26 * 2097152" unfolding eq by (rule mult_le_mono1)
  then show "unat (detect_max_phys ds) \<le> 2 ^ 47" by simp
qed

lemma boot_hhdm_runs:
  assumes x: "boot_crate_ok x y"
    and pool: "pool_suffices x y P W ((\<lambda>p. huge_of p + BOOT_HHDM_OFFSET) ` {..<mx}) J"
    and mx: "2097152 dvd unat mx" "0 < unat mx" "unat mx \<le> 2 ^ 47"
    and s: "translate_huge y (tables s) = Map.empty" "P n (tables s) (manager s)"
  shows "\<exists>s'. map_hhdm x y mx s = Inr s' \<and> P n (tables s') (manager s') \<and> keeps x s s' \<and>
    translate_page x (tables s') = translate_page x (tables s) \<and>
    (\<forall>p < mx. translate_huge y (tables s') (huge_of (p + BOOT_HHDM_OFFSET)) = Some (huge_of p, {PRESENT, WRITABLE})) \<and>
    dom (translate_huge y (tables s')) \<subseteq> (\<lambda>p. huge_of p + BOOT_HHDM_OFFSET) ` {..<mx}"
proof -
  have c: "x86_64_boot_ok y" "page_sizes_ok x y" "addresses_ok x y" using x by (auto simp: boot_crate_ok_def)
  have "huge_progress y (\<lambda>pt s. P n pt (fst s)) ((\<lambda>p. huge_of p + BOOT_HHDM_OFFSET) ` {..<mx})"
    unfolding huge_progress_def
  proof (intro ballI allI impI)
    fix page frame flags pt and t :: "BumpAllocator \<times> memory"
    assume "page \<in> (\<lambda>p. huge_of p + BOOT_HHDM_OFFSET) ` {..<mx}" "P n pt (fst t) \<and> translate_huge y pt page = None"
    then show "\<exists>pt' s'. try_map_huge y page frame flags (boot_allocate y) pt t = (True, pt', s') \<and> P n pt' (fst s')"
      using pool_huge [OF pool, of page n pt "fst t" frame flags "snd t"] by fastforce
  qed
  moreover have "\<forall>a. a \<ge> BOOT_HHDM_OFFSET \<longrightarrow> virt_addr_new x a = Some a"
    using c(3) by (simp add: addresses_ok_def BOOT_HHDM_OFFSET_def word_le_nat_alt)
  moreover have "\<forall>a < mx. phys_addr_new y a = Some a"
    using c(3) mx(3) by (auto simp: addresses_ok_def word_less_nat_alt)
  ultimately obtain s' where s': "map_hhdm x y mx s = Inr s'" "P n (tables s') (manager s')"
    "\<forall>p < mx. translate_huge y (tables s') (huge_of (p + BOOT_HHDM_OFFSET)) = Some (huge_of p, {PRESENT, WRITABLE})"
    "\<forall>q. q \<notin> (\<lambda>p. huge_of p + BOOT_HHDM_OFFSET) ` {..<mx} \<longrightarrow> translate_huge y (tables s') q = translate_huge y (tables s) q"
    using map_hhdm_effect [OF c(1) _ mx(1-3), of "\<lambda>pt s. P n pt (fst s)" x s] s by auto
  have "q \<in> (\<lambda>p. huge_of p + BOOT_HHDM_OFFSET) ` {..<mx}" if "q \<in> dom (translate_huge y (tables s'))" for q
    using s'(4) s(1) that by (metis domIff)
  then show ?thesis using s'(1-3) map_hhdm_keeps [OF c(2) s'(1)] by blast
qed

text \<open>The phases after the kernel and its stack.\<close>

lemma late_phases_run:
  assumes x: "boot_crate_ok x y" and fw: "firmware_ready fw room u kd n ds" and elf: "kernel_elf_ok kd elf"
    and pool: "boot_pool_ok x y fw elf ds P"
    and s: "translate_huge y (tables s) = Map.empty" "P 0 (tables s) (manager s)"
      "dom (translate_page x (tables s)) \<subseteq> kernel_image_pages elf \<union> set kernel_stack_pages"
  shows "\<exists>s1 s2 s3. map_hhdm x y (detect_max_phys ds) s = Inr s1 \<and> map_identity x y (rip_now fw) s1 = Inr s2 \<and>
    map_framebuffer x y (gop_address fw) (gop_size fw) s2 = Inr s3 \<and> keeps x s s3 \<and>
    (\<forall>p < detect_max_phys ds. translate_huge y (tables s3) (huge_of (p + BOOT_HHDM_OFFSET)) = Some (huge_of p, {PRESENT, WRITABLE})) \<and>
    (\<forall>q \<in> identity_page (rip_now fw) ` {..<512}. translate_page x (tables s3) q = Some q \<and> flags_of x (tables s3) q = {PRESENT, WRITABLE}) \<and>
    (\<forall>i < gop_size fw. translate_page x (tables s3) (page_of (FRAMEBUFFER_VIRT_BASE + of_nat i)) = Some (page_of (gop_address fw + of_nat i)) \<and>
       flags_of x (tables s3) (page_of (FRAMEBUFFER_VIRT_BASE + of_nat i)) = {PRESENT, WRITABLE, NO_CACHE}) \<and>
    dom (translate_page x (tables s3)) \<subseteq> dom (translate_page x (tables s)) \<union> fb_pages (gop_size fw) \<union> identity_page (rip_now fw) ` {..<512} \<and>
    dom (translate_huge y (tables s3)) \<subseteq> (\<lambda>p. huge_of p + BOOT_HHDM_OFFSET) ` {..<detect_max_phys ds}"
proof -
  let ?J = "identity_page (rip_now fw) ` {..<512}" and ?mx = "detect_max_phys ds"
  let ?W = "kernel_image_pages elf \<union> set kernel_stack_pages \<union> fb_pages (gop_size fw)"
  have c: "x86_64_ok x" "page_sizes_ok x y" "x86_64_boot_ok y" "addresses_ok x y" using x by (auto simp: boot_crate_ok_def)
  have p: "pool_suffices x y P ?W ((\<lambda>p. huge_of p + BOOT_HHDM_OFFSET) ` {..<?mx}) ?J" using pool by (simp add: boot_pool_ok_def)
  have f: "unat (rip_now fw) + 512 * 4096 \<le> 2 ^ 47" "4096 dvd unat (gop_address fw)" "0 < gop_size fw" "gop_size fw \<le> 2 ^ 40"
    "unat (gop_address fw) + gop_size fw \<le> 2 ^ 52" "\<forall>d \<in> set ds. desc_end d \<le> 2 ^ 47" "\<exists>d \<in> set ds. 0 < desc_end d"
    using fw by (auto simp: firmware_ready_def)
  obtain s1 where s1: "map_hhdm x y ?mx s = Inr s1" "P 0 (tables s1) (manager s1)" "keeps x s s1"
    "translate_page x (tables s1) = translate_page x (tables s)"
    "\<forall>p < ?mx. translate_huge y (tables s1) (huge_of (p + BOOT_HHDM_OFFSET)) = Some (huge_of p, {PRESENT, WRITABLE})"
    "dom (translate_huge y (tables s1)) \<subseteq> (\<lambda>p. huge_of p + BOOT_HHDM_OFFSET) ` {..<?mx}"
    using boot_hhdm_runs [OF x p detect_max_phys_bounds(1-3) [OF f(6,7)] s(1,2)] by blast
  have mask: "(rip_now fw) AND NOT 0xfff = page_of (rip_now fw)" by (simp add: page_of_def)
  have "distinct [0..<512]" "set [0..<512] \<subseteq> {..<512::nat}" by auto
  from map_identity_loop [OF c(1,2) p c(3,4) f(1) this s1(2)]
  obtain s2 where s2: "map_identity x y (rip_now fw) s1 = Inr s2" "P 0 (tables s2) (manager s2)" "keeps x s1 s2"
    "translate_huge y (tables s2) = translate_huge y (tables s1)"
    "dom (translate_page x (tables s2)) \<subseteq> dom (translate_page x (tables s1)) \<union> ?J"
    "\<forall>q \<in> ?J. translate_page x (tables s1) q = None \<longrightarrow>
       translate_page x (tables s2) q = Some q \<and> flags_of x (tables s2) q = {PRESENT, WRITABLE}"
    unfolding map_identity_def mask by (auto simp: lessThan_atLeast0)
  have low: "translate_page x (tables s1) q = None" if "q \<in> ?J" for q
  proof -
    have "unat q < 2 ^ 47" by (rule identity_page_bounds [OF f(1) that])
    then have "q \<notin> kernel_image_pages elf \<union> set kernel_stack_pages"
      using kernel_page_bounds [OF elf, of q] kernel_stack_bounds [of q] by (auto simp: KERNEL_BASE_def)
    then show ?thesis using s(3) unfolding s1(4) by (auto simp: domIff)
  qed
  have "translate_page x (tables s2) q = None" if "q \<in> fb_pages (gop_size fw)" for q
  proof -
    have b: "0xFFFFA00000000000 \<le> unat q" "unat q < 0xFFFFB00000000000" using fb_page_bounds [OF that f(4)] by auto
    then have "q \<notin> ?J" using identity_page_bounds [OF f(1), of q] by auto
    moreover have "q \<notin> kernel_image_pages elf \<union> set kernel_stack_pages"
      using b kernel_page_bounds [OF elf, of q] kernel_stack_bounds [of q] by (auto simp: KERNEL_BASE_def)
    ultimately have "q \<notin> dom (translate_page x (tables s2))" using s2(5) s(3) unfolding s1(4) by blast
    then show ?thesis by (simp add: domIff)
  qed
  then obtain s3 where s3: "map_framebuffer x y (gop_address fw) (gop_size fw) s2 = Inr s3" "keeps x s2 s3"
    "translate_huge y (tables s3) = translate_huge y (tables s2)"
    "dom (translate_page x (tables s3)) \<subseteq> dom (translate_page x (tables s2)) \<union> fb_pages (gop_size fw)"
    "\<forall>i < gop_size fw. translate_page x (tables s3) (page_of (FRAMEBUFFER_VIRT_BASE + of_nat i)) = Some (page_of (gop_address fw + of_nat i)) \<and>
       flags_of x (tables s3) (page_of (FRAMEBUFFER_VIRT_BASE + of_nat i)) = {PRESENT, WRITABLE, NO_CACHE}"
    using map_framebuffer_runs [OF c(1,2) p c(3,4) f(2-5) _ _ s2(2)] by blast
  have "keeps x s s3" using keeps_trans [OF s1(3) keeps_trans [OF s2(3) s3(2)]] .
  moreover have "translate_page x (tables s3) q = Some q \<and> flags_of x (tables s3) q = {PRESENT, WRITABLE}" if "q \<in> ?J" for q
    using s2(6) low [OF that] that keepsD [OF s3(2), of q q] by auto
  moreover have "dom (translate_page x (tables s3)) \<subseteq> dom (translate_page x (tables s)) \<union> fb_pages (gop_size fw) \<union> ?J"
    using s3(4) s2(5) unfolding s1(4) by blast
  ultimately show ?thesis using s1(1,5,6) s2(1,4) s3(1,3,5) by (intro exI [of _ s1] exI [of _ s2] exI [of _ s3]) simp
qed

lemma read_kernel_runs:
  assumes "uefi_progress (allocate_pages fw) room" "firmware_ready fw room u kd n ds" "uefi_alloc_ok (allocate_pages fw) allocated"
  shows "\<exists>m' u'. read_kernel fw m u = Inr (kd, m', u') \<and> PAGE_TABLE_POOL_SIZE + n + 1 \<le> room u' \<and>
    (\<forall>b. b \<notin> allocated u' \<longrightarrow> m' b = m b)"
proof -
  have ok: "helpers_init fw \<noteq> None" "image_file_system fw \<noteq> None" "open_volume fw \<noteq> None" "open_kernel fw \<noteq> None"
    "into_regular_file fw \<noteq> None"
    using assms(2) by (auto simp: firmware_ready_def)
  obtain sz where sz: "kernel_file_size fw = Some sz" "read_file fw (div_ceil (unat sz) 4096 * 4096) = Some kd"
    "length kd \<le> div_ceil (unat sz) 4096 * 4096" "div_ceil (unat sz) 4096 + PAGE_TABLE_POOL_SIZE + n + 1 \<le> room u" "0 < unat sz"
    using assms(2) by (auto simp: firmware_ready_def unat_gt_0 word_neq_0_conv)
  define k where "k = div_ceil (unat sz) 4096"
  have "0 < k" using div_ceil_upper [of 4096 "unat sz"] sz(5) by (cases k) (auto simp: k_def)
  moreover have "k \<le> room u" using sz(4) by (simp add: k_def)
  ultimately obtain a u' where a: "allocate_pages fw k u = (Some a, u')" "unat a + k * 4096 \<le> 2 ^ 47" "room u \<le> room u' + k"
    using assms(1) unfolding uefi_progress_def by metis
  have "usize_mul k 4096 = k * 4096" using a(2) by (intro usize_mul_small) simp
  then have "read_kernel fw m u = Inr (kd, store_bytes m a kd, u')"
    using ok sz a(1) by (auto simp: read_kernel_def Let_def k_def)
  moreover have "store_bytes m a kd b = m b" if "b \<notin> allocated u'" for b
  proof (rule store_bytes_out)
    have "allocated u' = allocated u \<union> {b. in_range a (k * 4096) b}" using assms(3) a(1) unfolding uefi_alloc_ok_def by blast
    then show "\<not> in_range a (length kd) b" using that sz(3) by (auto simp: in_range_def k_def)
  qed
  ultimately show ?thesis using a(3) sz(4) by (simp add: k_def)
qed

lemma pml4_frame:
  assumes "x86_64_boot_ok y" "4096 dvd unat a" "unat a + PAGE_TABLE_POOL_SIZE * 4096 \<le> 2 ^ 47"
  shows "bump_allocate_frame (frame_containing y) (bump_new a PAGE_TABLE_POOL_SIZE) =
    (Some a, (bump_new a PAGE_TABLE_POOL_SIZE)\<lparr>bump_next := a + 4096\<rparr>)"
proof -
  let ?b = "bump_new a PAGE_TABLE_POOL_SIZE"
  have fit: "unat a + PAGE_TABLE_POOL_SIZE * 4096 < 2 ^ 64" using assms(3) by simp
  have "unat (bump_end ?b) = unat a + PAGE_TABLE_POOL_SIZE * 4096" using assms(2) fit by (rule bump_new_inv(2))
  moreover have "bump_next ?b = a" by (simp add: bump_new_def Let_def)
  ultimately have "bump_take ?b = (Some a, ?b\<lparr>bump_next := a + 4096\<rparr>)"
    by (simp add: bump_take_def word_le_nat_alt PAGE_TABLE_POOL_SIZE_def)
  then show ?thesis using assms(1,2) by (simp add: bump_allocate_frame_def x86_64_boot_ok_def page_of_page)
qed

lemma kernel_and_stack_run:
  assumes x: "boot_crate_ok x y" and uefi: "uefi_progress (allocate_pages fw) room" "uefi_alloc_ok (allocate_pages fw) allocated"
    and elf: "kernel_elf_ok kd elf" and pool: "boot_pool_ok x y fw elf ds P"
    and s: "translate_page x (tables s) = Map.empty" "P (length kernel_stack_pages) (tables s) (manager s)"
      "headers_page_count 0 (load_headers elf) + 1 \<le> room u"
  shows "\<exists>s1 u1 s2. load_kernel x y (allocate_pages fw) elf kd (s, u) = Inr (s1, u1) \<and> map_kernel_stack x y s1 = Inr s2 \<and>
    1 \<le> room u1 \<and> P 0 (tables s2) (manager s2) \<and> translate_huge y (tables s2) = translate_huge y (tables s) \<and>
    dom (translate_page x (tables s2)) \<subseteq> kernel_image_pages elf \<union> set kernel_stack_pages \<and>
    mapped_with x (tables s2) {PRESENT, WRITABLE} (set kernel_stack_pages) \<and> (\<forall>ph \<in> set (load_headers elf).
       mapped_with x (tables s2) (if ph_is_write ph then {PRESENT, WRITABLE} else {PRESENT}) (set (segment_pages ph 0))) \<and>
    holds_image x s2 (allocated u1) (fold (kernel_segment_image kd) (load_headers elf) Map.empty) \<and>
    allocated u \<subseteq> allocated u1 \<and> (\<forall>b. b \<notin> allocated u1 \<longrightarrow> vmem s2 b = vmem s b)"
proof -
  let ?W = "kernel_image_pages elf \<union> set kernel_stack_pages \<union> fb_pages (gop_size fw)"
  have c: "x86_64_ok x" "page_sizes_ok x y" "x86_64_boot_ok y" "addresses_ok x y" using x by (auto simp: boot_crate_ok_def)
  have p: "pool_suffices x y P ?W ((\<lambda>p. huge_of p + BOOT_HHDM_OFFSET) ` {..<detect_max_phys ds}) (identity_page (rip_now fw) ` {..<512})"
    using pool by (simp add: boot_pool_ok_def)
  have segs: "\<forall>ph \<in> set (load_headers elf). kernel_segment_ok kd ph"
    "sorted_wrt (\<lambda>p q. set (segment_pages p 0) \<inter> set (segment_pages q 0) = {}) (load_headers elf)"
    using elf by (auto simp: kernel_elf_ok_def)
  have "\<forall>ph \<in> set (load_headers elf). kernel_segment_ok kd ph \<and> 2 ^ 64 - 2 ^ 47 \<le> unat (virtual_addr ph) \<and> set (segment_pages ph 0) \<subseteq> ?W \<and>
      (\<forall>q \<in> set (segment_pages ph 0). translate_page x (tables s) q = None)"
    using elf s(1) by (fastforce simp: kernel_elf_ok_def KERNEL_BASE_def kernel_image_pages_def)
  note segments = load_kernel_segments_run [OF c(1,2) p c(3,4) uefi this segs(2) s(2)]
  have "headers_page_count 0 (load_headers elf) \<le> room u" using s(3) by linarith
  from segments [OF this]
  obtain s1 u1 where s1: "for_each (load_kernel_segment x y (allocate_pages fw) kd) (load_headers elf) (s, u) = Inr (s1, u1)"
    "P (length kernel_stack_pages) (tables s1) (manager s1)"
    "dom (translate_page x (tables s1)) \<subseteq> kernel_image_pages elf"
    "translate_huge y (tables s1) = translate_huge y (tables s)" "room u \<le> room u1 + headers_page_count 0 (load_headers elf)"
    "\<forall>ph \<in> set (load_headers elf).
       mapped_with x (tables s1) (if ph_is_write ph then {PRESENT, WRITABLE} else {PRESENT}) (set (segment_pages ph 0))"
    unfolding s(1) kernel_image_pages_def by (simp only: dom_empty Un_empty_left) blast
  have run: "load_kernel x y (allocate_pages fw) elf kd (s, u) = Inr (s1, u1)"
    using s1(1) unfolding load_kernel_def for_each_filter load_headers_def by simp
  have img: "holds_image x s1 (allocated u1) (fold (kernel_segment_image kd) (load_headers elf) Map.empty) \<and>
      allocated u \<subseteq> allocated u1 \<and> (\<forall>b. b \<notin> allocated u1 \<longrightarrow> vmem s1 b = vmem s b)"
    by (rule load_kernel_segments_effect [OF c(1,3) uefi(2) segs s1(1)]) (simp_all add: holds_image_def)
  then have img': "holds_image x s1 (allocated u1) (fold (kernel_segment_image kd) (load_headers elf) Map.empty)" by blast
  have "translate_page x (tables s1) q = None" if "q \<in> set kernel_stack_pages" for q
  proof -
    have "q \<notin> kernel_image_pages elf" using kernel_page_bounds [OF elf, of q] kernel_stack_bounds [OF that] by auto
    then show ?thesis using s1(3) by (auto simp: domIff)
  qed
  moreover have "set kernel_stack_pages \<subseteq> ?W" by blast
  moreover have "P (length kernel_stack_pages + 0) (tables s1) (manager s1)" using s1(2) by simp
  ultimately obtain s2 where s2: "map_kernel_stack x y s1 = Inr s2" "P 0 (tables s2) (manager s2)" "keeps x s1 s2"
    "dom (translate_page x (tables s2)) = dom (translate_page x (tables s1)) \<union> set kernel_stack_pages"
    "\<forall>q \<in> set kernel_stack_pages. flags_of x (tables s2) q = {PRESENT, WRITABLE}"
    "translate_huge y (tables s2) = translate_huge y (tables s1)"
    using map_kernel_stack_runs [OF c(1,2) p c(4)] by blast
  have "dom (translate_page x (tables s2)) \<subseteq> kernel_image_pages elf \<union> set kernel_stack_pages"
    "mapped_with x (tables s2) {PRESENT, WRITABLE} (set kernel_stack_pages)"
    using s2(4,5) s1(3) by (auto simp: mapped_with_def)
  moreover have "\<forall>ph \<in> set (load_headers elf).
      mapped_with x (tables s2) (if ph_is_write ph then {PRESENT, WRITABLE} else {PRESENT}) (set (segment_pages ph 0))"
    using s1(6) keeps_mapped_with [OF _ keeps_keeps_pages [OF s2(3)]] by blast
  moreover have "1 \<le> room u1" using s1(5) s(3) by linarith
  ultimately show ?thesis
    using run s2(1,2,3,6) s1(4) img keeps_holds_image [OF s2(3) img'] keeps_def [of x s1 s2] by (intro exI [of _ s1] exI [of _ u1] exI [of _ s2]) simp
qed

lemma boot_main_effect:
  assumes x: "boot_crate_ok x y" and uefi: "uefi_progress (allocate_pages fw) room" "uefi_alloc_ok (allocate_pages fw) allocated"
    and fw: "firmware_ready fw room u kd (headers_page_count 0 (load_headers elf)) ds"
    and parse: "elf_file_new kd = Some elf" and elf: "kernel_elf_ok kd elf" and pool: "boot_pool_ok x y fw elf ds P"
  shows "\<exists>h s u'. boot_main elf_file_new x y fw m u = Inr (h, s, u') \<and> ho_rip h = entry_point elf \<and> ho_rsp h = STACK_TOP \<and>
    ho_boot_info h = boot_info_of fw (detect_max_phys ds) (the (temp_mmap fw) ! 1 - the (temp_mmap fw) ! 0) \<and> booted x y fw elf ds s \<and>
    holds_image x s (allocated u') (fold (kernel_segment_image kd) (load_headers elf) Map.empty) \<and>
    unat (ho_cr3 h) < 2 ^ 47 \<and> (\<forall>b. b \<notin> allocated u' \<longrightarrow> vmem s b = m b) \<and> ho_rbp h = 0 \<and>
    (\<exists>a. ho_rdi h = a + BOOT_HHDM_OFFSET \<and> 4096 dvd unat a \<and> {c. in_range a 4096 c} \<subseteq> allocated u' \<and>
       holds_image x s (- {c. in_range a 4096 c}) (fold (kernel_segment_image kd) (load_headers elf) Map.empty))"
proof -
  let ?n = "headers_page_count 0 (load_headers elf)"
  have c: "page_sizes_ok x y" "x86_64_boot_ok y" using x by (auto simp: boot_crate_ok_def)
  obtain m1 u1 where u1: "read_kernel fw m u = Inr (kd, m1, u1)" "PAGE_TABLE_POOL_SIZE + ?n + 1 \<le> room u1"
    "\<forall>b. b \<notin> allocated u1 \<longrightarrow> m1 b = m b"
    using read_kernel_runs [OF uefi(1) fw uefi(2)] by blast
  obtain a u2 where u2: "allocate_pages fw PAGE_TABLE_POOL_SIZE u1 = (Some a, u2)" "unat a + PAGE_TABLE_POOL_SIZE * 4096 \<le> 2 ^ 47"
    "room u1 \<le> room u2 + PAGE_TABLE_POOL_SIZE"
    using uefi(1) u1(2) unfolding uefi_progress_def PAGE_TABLE_POOL_SIZE_def by (metis add_leD1 zero_less_numeral)
  have al: "4096 dvd unat a" using uefi(2) u2(1) unfolding uefi_alloc_ok_def by blast
  let ?b = "(bump_new a PAGE_TABLE_POOL_SIZE)\<lparr>bump_next := a + 4096\<rparr>"
  note pml4 = pml4_frame [OF c(2) al u2(2)]
  define s0 where "s0 = \<lparr>tables = new_tables y a, manager = ?b, vmem = m1\<rparr>"
  have s0: "translate_page x (tables s0) = Map.empty" "translate_huge y (tables s0) = Map.empty"
    "P (length kernel_stack_pages) (tables s0) (manager s0)"
    using conjunct1 [OF c(1) [unfolded page_sizes_ok_def]] pool al u2(2) by (auto simp: s0_def boot_pool_ok_def)
  have "?n + 1 \<le> room u2" using u1(2) u2(3) by linarith
  from kernel_and_stack_run [OF x uefi elf pool s0(1,3) this]
  obtain s1 u3 s2 where s2: "load_kernel x y (allocate_pages fw) elf kd (s0, u2) = Inr (s1, u3)" "map_kernel_stack x y s1 = Inr s2"
    "1 \<le> room u3" "P 0 (tables s2) (manager s2)" "translate_huge y (tables s2) = Map.empty"
    "dom (translate_page x (tables s2)) \<subseteq> kernel_image_pages elf \<union> set kernel_stack_pages"
    "mapped_with x (tables s2) {PRESENT, WRITABLE} (set kernel_stack_pages)"
    "holds_image x s2 (allocated u3) (fold (kernel_segment_image kd) (load_headers elf) Map.empty)"
    "allocated u2 \<subseteq> allocated u3" "\<forall>b. b \<notin> allocated u3 \<longrightarrow> vmem s2 b = vmem s0 b"
    "\<forall>ph \<in> set (load_headers elf).
       mapped_with x (tables s2) (if ph_is_write ph then {PRESENT, WRITABLE} else {PRESENT}) (set (segment_pages ph 0))"
    unfolding s0(2) by blast
  from late_phases_run [OF x fw elf pool s2(5,4,6)]
  obtain s3 s4 s5 where s5: "map_hhdm x y (detect_max_phys ds) s2 = Inr s3" "map_identity x y (rip_now fw) s3 = Inr s4"
    "map_framebuffer x y (gop_address fw) (gop_size fw) s4 = Inr s5" "keeps x s2 s5"
    "\<forall>p < detect_max_phys ds. translate_huge y (tables s5) (huge_of (p + BOOT_HHDM_OFFSET)) = Some (huge_of p, {PRESENT, WRITABLE})"
    "\<forall>q \<in> identity_page (rip_now fw) ` {..<512}. translate_page x (tables s5) q = Some q \<and> flags_of x (tables s5) q = {PRESENT, WRITABLE}"
    "\<forall>i < gop_size fw. translate_page x (tables s5) (page_of (FRAMEBUFFER_VIRT_BASE + of_nat i)) = Some (page_of (gop_address fw + of_nat i)) \<and>
       flags_of x (tables s5) (page_of (FRAMEBUFFER_VIRT_BASE + of_nat i)) = {PRESENT, WRITABLE, NO_CACHE}"
    "dom (translate_page x (tables s5)) \<subseteq> dom (translate_page x (tables s2)) \<union> fb_pages (gop_size fw) \<union> identity_page (rip_now fw) ` {..<512}"
    "dom (translate_huge y (tables s5)) \<subseteq> (\<lambda>p. huge_of p + BOOT_HHDM_OFFSET) ` {..<detect_max_phys ds}"
    by blast
  obtain b u4 where u4: "allocate_pages fw 1 u3 = (Some b, u4)" using uefi(1) s2(3) unfolding uefi_progress_def by (metis zero_less_one)
  have sub: "allocated u1 \<subseteq> allocated u2" "allocated u3 \<subseteq> allocated u4" using uefi(2) u2(1) u4 unfolding uefi_alloc_ok_def by blast+
  have info: "4096 dvd unat b" "{c. in_range b 4096 c} \<subseteq> allocated u4" "allocated u3 \<subseteq> - {c. in_range b 4096 c}"
    using uefi(2) u4 unfolding uefi_alloc_ok_def by fastforce+
  have mem: "vmem s5 b = m b" if "b \<notin> allocated u4" for b
  proof -
    have "b \<notin> allocated u3" "b \<notin> allocated u1" using that s2(9) sub by auto
    then have "vmem s2 b = m b" using s2(10) u1(3) by (simp add: s0_def)
    then show ?thesis using s5(4) by (simp add: keeps_def)
  qed
  have cr3: "unat a < 2 ^ 47" using u2(2) by (simp add: PAGE_TABLE_POOL_SIZE_def)
  from sub(2) have img: "holds_image x s5 (allocated u4) (fold (kernel_segment_image kd) (load_headers elf) Map.empty)"
    using keeps_holds_image [OF s5(4) s2(8)] unfolding holds_image_def by blast
  from info(3) have apart: "holds_image x s5 (- {c. in_range b 4096 c}) (fold (kernel_segment_image kd) (load_headers elf) Map.empty)"
    using keeps_holds_image [OF s5(4) s2(8)] unfolding holds_image_def by blast
  note kept = keeps_mapped_with [OF _ keeps_keeps_pages [OF s5(4)]]
  have "booted x y fw elf ds s5"
    unfolding booted_def
  proof (intro conjI)
    show "mapped_with x (tables s5) {PRESENT, WRITABLE} (set kernel_stack_pages)" by (rule kept [OF s2(7)])
    show "\<forall>ph \<in> set (load_headers elf).
        mapped_with x (tables s5) (if ph_is_write ph then {PRESENT, WRITABLE} else {PRESENT}) (set (segment_pages ph 0))"
      using s2(11) kept by blast
  qed (use s5 s2(6) in \<open>assumption | blast\<close>)+
  moreover obtain e1 e2 es where e: "temp_mmap fw = Some (e1 # e2 # es)"
    using fw by (cases "temp_mmap fw"; cases "the (temp_mmap fw)"; cases "tl (the (temp_mmap fw))") (auto simp: firmware_ready_def)
  moreover have "\<exists>h. boot_main elf_file_new x y fw m u = Inr (h, s5, u4) \<and> ho_rip h = entry_point elf \<and> ho_rsp h = STACK_TOP \<and>
      ho_boot_info h = boot_info_of fw (detect_max_phys ds) (e2 - e1) \<and> ho_cr3 h = a \<and> ho_rbp h = 0 \<and>
      ho_rdi h = b + BOOT_HHDM_OFFSET"
  proof -
    have "gop_handle fw \<noteq> None" "gop_open fw \<noteq> None" "mmap_storage fw = Some ds" using fw by (auto simp: firmware_ready_def)
    then show ?thesis
      using u1(1) parse u2(1) pml4 s2(1,2) s5(1-3) u4 e
      by (auto simp: boot_main_def s0_def [symmetric] mmap_desc_size_def)
  qed
  ultimately show ?thesis using img mem cr3 info(1,2) apart by fastforce
qed

text \<open>The fields of the \<open>BootInfo\<close>, with the code's constants and case distinctions evaluated.\<close>

lemma boot_info_fields:
  assumes "b = boot_info_of fw mx size_d"
  shows "memory_map_addr b = (if final_mmap fw = [] then 0 else hd (final_mmap fw))" "memory_map_len b = of_nat (length (final_mmap fw))"
    "memory_map_desc_size b = size_d" "hhdm_offset b = 0xFFFF800000000000" "max_phys_memory b = mx"
    "buffer_base (framebuffer b) = 0xFFFFA00000000000" "buffer_size (framebuffer b) = gop_size fw"
    "gop_resolution fw = (fb_width (framebuffer b), fb_height (framebuffer b))" "stride (framebuffer b) = gop_stride fw"
    "format (framebuffer b) = (if gop_format fw = Bgr then BGR else RGB)"
  by (simp_all add: assms boot_info_of_def fb_info_def BOOT_HHDM_OFFSET_def FRAMEBUFFER_VIRT_BASE_def convert_format_def
      split: list.split UefiPixelFormat.split)

section \<open>An example\<close>

definition ex_firmware :: "nat firmware" where
  "ex_firmware = \<lparr>helpers_init = Some (), image_file_system = Some (), open_volume = Some (), open_kernel = Some (),
     into_regular_file = Some (), kernel_file_size = Some 4, read_file = (\<lambda>_. Some [0, 1, 2, 3]), allocate_pages = ex_allocate_pages,
     temp_mmap = Some [0x8000, 0x8030], mmap_storage = Some [ex_descriptor], rip_now = 0x100000, gop_handle = Some (), gop_open = Some (),
     gop_address = 0x80000000, gop_size = 8192, gop_resolution = (64, 32), gop_stride = 64, gop_format = Bgr, final_mmap = [0x8000]\<rparr>"

definition ex_room :: "nat \<Rightarrow> nat" where
  "ex_room u = 2000 - (16 + u)"

definition ex_pool :: "nat \<Rightarrow> ex_tables \<Rightarrow> BumpAllocator \<Rightarrow> bool" where
  "ex_pool n pt b \<longleftrightarrow> unat (bump_next b) + 4096 * n \<le> unat (bump_end b)"

lemma ex_boot_crate_ok: "boot_crate_ok ex_boot_x86 ex_boot"
proof -
  have "page_sizes_ok ex_boot_x86 ex_boot"
    unfolding page_sizes_ok_def
    by (intro conjI allI impI)
      (auto simp: ex_boot_x86_def ex_boot_def ex_try_map_def ex_try_huge_def fun_eq_iff split: if_splits intro!: exI [of _ 0])
  then show ?thesis using ex_boot_x86_ok ex_boot_ok by (simp add: boot_crate_ok_def addresses_ok_def ex_boot_x86_def ex_boot_def)
qed

lemma ex_uefi_progress: "uefi_progress (allocate_pages ex_firmware) ex_room"
  unfolding uefi_progress_def
proof (intro allI impI)
  fix n u assume "0 < n \<and> n \<le> ex_room u"
  then have le: "0 < n" "16 + u + n \<le> 2000" by (auto simp: ex_room_def)
  then have "unat (of_nat ((16 + u) * 4096) :: u64) = (16 + u) * 4096" by (intro unat_of_nat_small) simp
  then show "\<exists>a u'. allocate_pages ex_firmware n u = (Some a, u') \<and> unat a + n * 4096 \<le> 2 ^ 47 \<and> ex_room u \<le> ex_room u' + n"
    using le by (simp add: ex_firmware_def ex_allocate_pages_def ex_room_def)
qed

lemma ex_headers: "load_headers ex_kernel = [ex_kernel_segment]"
  by (simp add: load_headers_def ex_kernel_def ex_kernel_segment_def)

lemma ex_kernel_elf_ok: "kernel_elf_ok [0, 1, 2, 3] ex_kernel"
  by (simp add: kernel_elf_ok_def ex_headers kernel_segment_ok_def) (simp add: ex_kernel_segment_def KERNEL_BASE_def)

lemma ex_firmware_ready: "firmware_ready ex_firmware ex_room 0 [0, 1, 2, 3] (headers_page_count 0 (load_headers ex_kernel)) [ex_descriptor]"
  by (simp add: firmware_ready_def ex_firmware_def ex_headers headers_page_count_def ex_kernel_pages div_ceil_def ex_room_def
      PAGE_TABLE_POOL_SIZE_def desc_end_def ex_descriptor_def)

lemma ex_boot_pool_ok: "boot_pool_ok ex_boot_x86 ex_boot ex_firmware ex_kernel [ex_descriptor] ex_pool"
proof -
  have take: "\<exists>f b'. bump_take b = (Some f, b') \<and> ex_pool n pt b'" if p: "ex_pool (Suc n) pt b" for n pt b
  proof -
    have lt: "bump_next b < bump_end b" using p by (simp add: ex_pool_def word_less_nat_alt)
    have "unat (bump_next b + 4096) = unat (bump_next b) + 4096"
      using p unat_lt_64 [of "bump_end b"] by (subst unat_add_small) (auto simp: ex_pool_def)
    then show ?thesis using p lt by (simp add: bump_take_def ex_pool_def)
  qed
  have start: "ex_pool (length kernel_stack_pages) pt ((bump_new a PAGE_TABLE_POOL_SIZE)\<lparr>bump_next := a + 4096\<rparr>)"
    if a: "4096 dvd unat a" "unat a + PAGE_TABLE_POOL_SIZE * 4096 \<le> 2 ^ 47" for a pt
  proof -
    have "unat (bump_end (bump_new a PAGE_TABLE_POOL_SIZE)) = unat a + PAGE_TABLE_POOL_SIZE * 4096"
      using a by (intro bump_new_inv(2)) auto
    moreover have "unat (a + 4096) = unat a + 4096" using a(2) by (subst unat_add_small) auto
    ultimately show ?thesis by (simp add: ex_pool_def length_kernel_stack_pages PAGE_TABLE_POOL_SIZE_def)
  qed
  have "pool_suffices ex_boot_x86 ex_boot ex_pool W H J" for W H J
    unfolding pool_suffices_def
    by (intro conjI allI ballI impI; (rule take)?)
      (auto simp: ex_boot_x86_def ex_boot_def ex_try_map_def ex_try_huge_def ex_pool_def split: if_splits)
  then show ?thesis using start by (simp add: boot_pool_ok_def ex_boot_def)
qed

section \<open>Property\<close>



end
