(* ===== verification/Kernel_Main.thy ===== *)
theory Kernel_Main
  imports User_Process Kernel_Heap Interrupts Gdt Console Boot_Handover
begin

text \<open>
  The kernel entry, \<open>_start\<close> of \<open>kernel/src/main.rs\<close>, with \<open>init_mapper\<close> of
  \<open>kernel/src/pml4.rs\<close>: every component initialised in order, the user program loaded, and the
  jump to user mode. The state of the kernel is the record \<open>kernel\<close> of the components' states; the crates,
  the linker's addresses and the embedded executable are the record \<open>platform\<close>.

  \<open>vmem\<close> of \<open>k_vm\<close> is the memory behind the higher-half window, less the bytes that the kernel writes by another
  way: its statics (in its writable segments) and its stack are the fields of \<open>kernel\<close>, with the memory of \<open>k_cpu\<close>
  and of \<open>k_env\<close>, and its page tables are \<open>tables\<close>. What \<open>vmem\<close> has at their physical addresses is not kept up to
  date, and no property speaks of it. Of the messages, those of \<open>_start\<close> itself and of \<open>pmm::init\<close> are modelled.
\<close>

record ('pt, 'h, 'pic, 'gdt) platform =
  px :: "('pt, BitmapPmm) x86_64"
  p_heap :: "'h heap_crate"
  p_elf_file_new :: "u8 list \<Rightarrow> ElfFile option"
  p_gdt_append :: "Descriptor \<Rightarrow> 'gdt \<Rightarrow> u16 \<times> 'gdt"
  p_gdt_new :: 'gdt
  p_pic_initialize :: "'pic \<Rightarrow> 'pic"
  p_pic_write_masks :: "u8 \<Rightarrow> u8 \<Rightarrow> 'pic \<Rightarrow> 'pic"
  p_offset_page_table :: "u64 \<Rightarrow> u64 \<Rightarrow> 'pt"
  p_cr3 :: u64
  p_addr :: "asm_sym \<Rightarrow> u64"
  p_syscall_stack :: u64
  p_syscall_entry :: u64
  p_font :: font
  USER_ELF_BYTES :: "u8 list"

record ('pt, 'h, 'pic) kernel =
  k_console :: console
  k_cpu :: cpu
  k_task_register :: u16
  k_idt :: "InterruptDescriptorTable option"
  k_pics :: 'pic
  k_ports :: "(u16 \<times> u8) list"
  k_vm :: "('pt, BitmapPmm) vm"
  k_heap :: "'h guarded"
  k_env :: syscall_env

definition k_println :: "('pt, 'h, 'pic, 'gdt) platform \<Rightarrow> string \<Rightarrow> ('pt, 'h, 'pic) kernel \<Rightarrow> ('pt, 'h, 'pic) kernel" where
  "k_println pf msg k = k\<lparr>k_console := console_print (p_font pf) (chars (msg @ [CHR 0x0A])) (k_console k)\<rparr>"

definition on_display :: "(display \<Rightarrow> display) \<Rightarrow> ('pt, 'h, 'pic) kernel \<Rightarrow> ('pt, 'h, 'pic) kernel" where
  "on_display f k = k\<lparr>k_console := (k_console k)\<lparr>display := f (display (k_console k))\<rparr>\<rparr>"

definition init_mapper :: "('pt, 'h, 'pic, 'gdt) platform \<Rightarrow> u64 \<Rightarrow> panic + 'pt" where
  "init_mapper pf hhdm =
     and_then (expect ''VirtAddr::new'' (virt_addr_new (px pf) (p_cr3 pf + hhdm))) (\<lambda>virt.
     and_then (expect ''VirtAddr::new'' (virt_addr_new (px pf) hhdm)) (\<lambda>off.
       Inr (p_offset_page_table pf virt off)))"

text \<open>The screen, the descriptor tables and the interrupt controller: nothing here can fail.\<close>

definition start_devices ::
  "('pt, 'h, 'pic, 'gdt) platform \<Rightarrow> BootInfo \<Rightarrow> ('pt, 'h, 'pic) kernel \<Rightarrow> ('pt, 'h, 'pic) kernel" where
  "start_devices pf boot_info k =
     (let k = on_display (screen_init (framebuffer boot_info)) k;
          k = on_display (clear_screen 0x0000FF) k;
          k = on_display (set_scale 3) k;
          k = on_display (set_text_color 0xFF0000) k;
          k = k_println pf ''WELCOME TO MY OS'' k;
          k = on_display reset_style k;
          (c, tr) = gdt_init (snd (GDT (p_gdt_append pf) (p_gdt_new pf))) (k_cpu k);
          k = k\<lparr>k_cpu := c, k_task_register := tr\<rparr>;
          k = k_println pf ''GDT & TSS initialized.'' k;
          k = k\<lparr>k_idt := Some IDT\<rparr>;
          k = k_println pf ''IDT initialized.'' k;
          k = k\<lparr>k_pics := pics_initialize (p_pic_initialize pf) (p_pic_write_masks pf) (k_pics k)\<rparr>
      in k_println pf ''PICS initialized.'' k)"

text \<open>\<open>pmm::init\<close>, on the static \<open>PMM\<close>.\<close>

definition pmm_init ::
  "('pt, 'h, 'pic, 'gdt) platform \<Rightarrow> BootInfo \<Rightarrow> ('pt, 'h, 'pic) kernel \<Rightarrow> panic + ('pt, 'h, 'pic) kernel" where
  "pmm_init pf boot_info k =
     (let k = k_println pf ''[PMM] Init started...'' k
      in and_then (init_internal (manager (k_vm k)) (memory_map_addr boot_info) (memory_map_len boot_info)
           (memory_map_desc_size boot_info) (hhdm_offset boot_info) (max_phys_memory boot_info) (vmem (k_vm k))) (\<lambda>(p, m).
           Inr (k_println pf ''[PMM] Init finished!'' (k\<lparr>k_vm := (k_vm k)\<lparr>manager := p, vmem := m\<rparr>\<rparr>))))"

definition start_memory ::
  "('pt, 'h, 'pic, 'gdt) platform \<Rightarrow> BootInfo \<Rightarrow> ('pt, 'h, 'pic) kernel \<Rightarrow> panic + ('pt, 'h, 'pic) kernel" where
  "start_memory pf boot_info k =
     and_then (pmm_init pf boot_info k) (\<lambda>k.
     and_then (init_mapper pf (hhdm_offset boot_info)) (\<lambda>pt.
     let k = k\<lparr>k_vm := (k_vm k)\<lparr>tables := pt\<rparr>, k_ports := k_ports k @ init_timer\<rparr>;
         k = k_println pf ''PIT Timer initialized.'' k
     in case init_heap (px pf) allocate_frame (p_heap pf) (k_vm k) (k_heap k) of
          Inl (Heap_Panic e) \<Rightarrow> Inl e
        | Inl e \<Rightarrow> Inl (Panic ''Heap initialization failed'')
        | Inr (s, h) \<Rightarrow> Inr (k_println pf ''Heap is ready!'' (k\<lparr>k_vm := s, k_heap := h\<rparr>))))"

text \<open>\<open>_start\<close>. The jump to user mode is the end: no code follows it.\<close>

definition kernel_start ::
  "('pt, 'h, 'pic, 'gdt) platform \<Rightarrow> BootInfo \<Rightarrow> ('pt, 'h, 'pic) kernel \<Rightarrow> panic + ('pt, 'h, 'pic) kernel" where
  "kernel_start pf boot_info k =
     and_then (start_memory pf boot_info (start_devices pf boot_info k)) (\<lambda>k.
     and_then (syscalls_init (virt_addr_new (px pf)) (p_addr pf) (p_syscall_stack pf) (p_syscall_entry pf)
       (hhdm_offset boot_info) (k_env k)) (\<lambda>env.
     let k = k_println pf ''Loading user ELF...'' (k\<lparr>k_env := env\<rparr>)
     in and_then (load_user_elf (p_elf_file_new pf) (px pf) allocate_frame (HHDM_OFFSET (k_env k)) (USER_ELF_BYTES pf) (k_vm k))
          (\<lambda>(entry, s).
        let k = k_println pf (''Entry point: '' @ hex (unat entry)) (k\<lparr>k_vm := s\<rparr>)
        in and_then (setup_user_stack (p_elf_file_new pf) (px pf) allocate_frame (HHDM_OFFSET (k_env k)) (USER_ELF_BYTES pf) (k_vm k))
             (\<lambda>(stack, s).
           let k = k_println pf ''Entering Ring 3...'' (k\<lparr>k_vm := s\<rparr>)
           in Inr (k\<lparr>k_cpu := exec (p_addr pf) (env_msrs (k_env k)) (\<lambda>c. c) 0 (enter_userspace entry stack) (k_cpu k)\<rparr>)))))"

section \<open>From the bootloader to the user program\<close>

text \<open>What \<open>_start\<close> finds: the memory map and the memory, with conventional memory behind the place of the bitmap as far
  as the memory manager's fill goes, so that the fill overwrites neither the kernel nor its page tables; the page tables of
  the bootloader with nothing mapped in user space \<open>U\<close> or at the heap; a free lock, and room on the stack.\<close>

definition kernel_ready ::
  "('pt, 'h, 'pic, 'gdt) platform \<Rightarrow> BootInfo \<Rightarrow> u64 set \<Rightarrow> ('pt, 'h, 'pic) kernel \<Rightarrow> bool" where
  "kernel_ready pf b U k \<longleftrightarrow>
     pmm_layout (memory_map_addr b) (memory_map_len b) (memory_map_desc_size b) (hhdm_offset b) (max_phys_memory b) (vmem (k_vm k)) \<and>
     pmm_fill_conventional (memory_map_addr b) (memory_map_len b) (memory_map_desc_size b) (hhdm_offset b) (max_phys_memory b) (vmem (k_vm k)) \<and>
     (\<forall>a. page_of a \<in> U \<union> set kernel_heap_pages \<longrightarrow> virt_addr_new (px pf) a = Some a) \<and>
     virt_addr_new (px pf) (p_cr3 pf + hhdm_offset b) = Some (p_cr3 pf + hhdm_offset b) \<and>
     virt_addr_new (px pf) (hhdm_offset b) = Some (hhdm_offset b) \<and>
     virt_addr_new (px pf) (p_syscall_entry pf) = Some (p_syscall_entry pf) \<and>
     (\<forall>q \<in> U \<union> set kernel_heap_pages.
        translate_page (px pf) (p_offset_page_table pf (p_cr3 pf + hhdm_offset b) (hhdm_offset b)) q = None) \<and>
     U \<inter> set kernel_heap_pages = {} \<and> \<not> locked (k_heap k) \<and> 40 \<le> unat (regs (k_cpu k) RSP)"

lemma start_devices_frame:
  "k_vm (start_devices pf b k) = k_vm k" "k_heap (start_devices pf b k) = k_heap k" "k_env (start_devices pf b k) = k_env k"
  "regs (k_cpu (start_devices pf b k)) = regs (k_cpu k)" "k_idt (start_devices pf b k) = Some IDT"
  by (simp_all add: start_devices_def Let_def on_display_def k_println_def gdt_init_def)

lemma k_println_frame [simp]:
  "k_vm (k_println pf m k) = k_vm k" "k_heap (k_println pf m k) = k_heap k" "k_env (k_println pf m k) = k_env k"
  "k_cpu (k_println pf m k) = k_cpu k" "k_idt (k_println pf m k) = k_idt k"
  by (simp_all add: k_println_def)

lemma elf_ok_mono: "elf_ok U elf \<Longrightarrow> U \<subseteq> V \<Longrightarrow> elf_ok V elf"
  by (fastforce simp: elf_ok_def segment_ok_def)

lemma map_to_progress_mono: "map_to_progress x allocate avail V \<Longrightarrow> U \<subseteq> V \<Longrightarrow> map_to_progress x allocate avail U"
  by (auto simp: map_to_progress_def)

lemma start_memory_effect:
  fixes pf :: "('pt, 'h, 'pic, 'gdt) platform"
  defines "x \<equiv> px pf"
  assumes x: "x86_64_ok x" "map_to_progress x allocate_frame pmm_avail (U \<union> set kernel_heap_pages)"
    and ready: "kernel_ready pf b U k"
    and pmm: "init_internal (manager (k_vm k)) (memory_map_addr b) (memory_map_len b) (memory_map_desc_size b) (hhdm_offset b)
      (max_phys_memory b) (vmem (k_vm k)) = Inr (p, m)" and frames: "100 \<le> card (pmm_avail (p, m))"
    and guard: "pmm_guard_inv (hhdm_offset b) A s0 (p, m)"
  shows "\<exists>k'. start_memory pf b k = Inr k' \<and> guard.owned (hhdm_offset b) A s0 x (U \<union> set kernel_heap_pages) (k_vm k') \<and>
    (\<forall>q \<in> U. translate_page x (tables (k_vm k')) q = None) \<and>
    set kernel_heap_pages \<subseteq> dom (translate_page x (tables (k_vm k'))) \<and>
    card (pmm_avail (p, m)) \<le> card (pmm_avail (manager (k_vm k'), vmem (k_vm k'))) + 100 \<and>
    contents (k_heap k') = heap_init (p_heap pf) KERNEL_HEAP_START KERNEL_HEAP_SIZE (contents (k_heap k)) \<and>
    k_env k' = k_env k \<and> k_cpu k' = k_cpu k \<and> k_idt k' = k_idt k"
proof -
  let ?h = "hhdm_offset b" and ?V = "U \<union> set kernel_heap_pages"
  let ?pt = "p_offset_page_table pf (p_cr3 pf + ?h) ?h"
  define s where "s = (k_vm k)\<lparr>manager := p, vmem := m, tables := ?pt\<rparr>"
  have r: "pmm_layout (memory_map_addr b) (memory_map_len b) (memory_map_desc_size b) ?h (max_phys_memory b) (vmem (k_vm k))"
    "\<forall>a. page_of a \<in> ?V \<longrightarrow> virt_addr_new x a = Some a" "virt_addr_new x (p_cr3 pf + ?h) = Some (p_cr3 pf + ?h)"
    "virt_addr_new x ?h = Some ?h" "\<forall>q \<in> ?V. translate_page x ?pt q = None" "U \<inter> set kernel_heap_pages = {}" "\<not> locked (k_heap k)"
    using ready by (auto simp: kernel_ready_def x_def)
  have s: "tables s = ?pt" "manager s = p" "vmem s = m" by (simp_all add: s_def)
  have owned: "guard.owned ?h A s0 x ?V s"
    using guard r(5) by (simp add: guard.owned_def s)
  have "page_of KERNEL_HEAP_START \<in> ?V" using heap_bounds by (simp add: set_kernel_heap_pages) (simp add: KERNEL_HEAP_START_def)
  then have va: "virt_addr_new x KERNEL_HEAP_START = Some KERNEL_HEAP_START" using r(2) by blast
  have "set kernel_heap_pages \<subseteq> ?V" "set kernel_heap_pages \<inter> dom (translate_page x (tables s)) = {}"
    "100 \<le> card (pmm_avail (manager s, vmem s))" using r(5) frames by (auto simp: s)
  from guard.init_heap_effect [OF x va owned this r(7), of "p_heap pf"]
  obtain s' where s': "init_heap x allocate_frame (p_heap pf) s (k_heap k) =
      Inr (s', (k_heap k)\<lparr>contents := heap_init (p_heap pf) KERNEL_HEAP_START KERNEL_HEAP_SIZE (contents (k_heap k))\<rparr>)"
    "guard.owned ?h A s0 x ?V s'" "dom (translate_page x (tables s')) = set kernel_heap_pages \<union> dom (translate_page x (tables s))"
    "card (pmm_avail (manager s, vmem s)) \<le> card (pmm_avail (manager s', vmem s')) + 100" by blast
  have "\<forall>q \<in> U. translate_page x (tables s') q = None"
  proof
    fix q assume "q \<in> U"
    then have "q \<notin> dom (translate_page x (tables s'))" unfolding s'(3) using r(5,6) by (auto simp: s)
    then show "translate_page x (tables s') q = None" by (simp add: domIff)
  qed
  moreover have "\<exists>k'. start_memory pf b k = Inr k' \<and> k_vm k' = s' \<and> k_env k' = k_env k \<and> k_cpu k' = k_cpu k \<and> k_idt k' = k_idt k \<and>
      contents (k_heap k') = heap_init (p_heap pf) KERNEL_HEAP_START KERNEL_HEAP_SIZE (contents (k_heap k))"
    using pmm r(3,4) s'(1) by (simp add: start_memory_def pmm_init_def init_mapper_def Let_def x_def s_def)
  ultimately show ?thesis using s'(2-4) by (auto simp: s)
qed

lemma kernel_start_effect:
  fixes pf :: "('pt, 'h, 'pic, 'gdt) platform"
  defines "x \<equiv> px pf"
  assumes x: "x86_64_ok x" "map_to_progress x allocate_frame pmm_avail (U \<union> set kernel_heap_pages)"
    and ready: "kernel_ready pf b U k" and elf: "p_elf_file_new pf (USER_ELF_BYTES pf) = Some elf" "elf_ok U elf"
    and pmm: "init_internal (manager (k_vm k)) (memory_map_addr b) (memory_map_len b) (memory_map_desc_size b) (hhdm_offset b)
      (max_phys_memory b) (vmem (k_vm k)) = Inr (p, m)"
    and frames: "100 + 4 * (elf_page_count elf + length stack_pages) \<le> card (pmm_avail (p, m))"
    and guard: "pmm_guard_inv (hhdm_offset b) A s0 (p, m)"
  shows "\<exists>k' c. kernel_start pf b k = Inr k' \<and>
    k_cpu k' = exec (p_addr pf) (env_msrs (k_env k')) (\<lambda>c. c) 0 (enter_userspace (load_base elf + entry_point elf) initial_sp) c \<and>
    40 \<le> unat (regs c RSP) \<and> k_idt k' = Some IDT \<and> lstar (env_msrs (k_env k')) = p_syscall_entry pf \<and>
    guard.owned (hhdm_offset b) A s0 x (U \<union> set kernel_heap_pages) (k_vm k') \<and>
    user_image x (hhdm_offset b) U (k_vm k') = stack_image elf (elf_image elf)"
proof -
  let ?h = "hhdm_offset b" and ?V = "U \<union> set kernel_heap_pages" and ?d = "start_devices pf b k"
  have sub: "U \<subseteq> ?V" by blast
  have va: "\<forall>a. page_of a \<in> ?V \<longrightarrow> virt_addr_new x a = Some a" and se: "virt_addr_new x (p_syscall_entry pf) = Some (p_syscall_entry pf)"
    and rsp: "40 \<le> unat (regs (k_cpu k) RSP)"
    using ready by (auto simp: kernel_ready_def x_def)
  have ready': "kernel_ready pf b U ?d" using ready by (simp add: kernel_ready_def start_devices_frame)
  have "100 \<le> card (pmm_avail (p, m))" using frames by simp
  from start_memory_effect [OF x [unfolded x_def] ready' _ this guard, folded x_def] pmm
  obtain k1 where k1: "start_memory pf b ?d = Inr k1" "guard.owned ?h A s0 x ?V (k_vm k1)"
    "\<forall>q \<in> U. translate_page x (tables (k_vm k1)) q = None"
    "card (pmm_avail (p, m)) \<le> card (pmm_avail (manager (k_vm k1), vmem (k_vm k1))) + 100"
    "k_env k1 = k_env k" "k_cpu k1 = k_cpu ?d" "k_idt k1 = Some IDT"
    by (auto simp: start_devices_frame)
  obtain env where env: "syscalls_init (virt_addr_new x) (p_addr pf) (p_syscall_stack pf) (p_syscall_entry pf) ?h (k_env k1) = Inr env"
    "HHDM_OFFSET env = ?h" "lstar (env_msrs env) = p_syscall_entry pf"
    using se by (simp add: syscalls_init_def Let_def)
  let ?n = "4 * (elf_page_count elf + length stack_pages)"
  have n: "?n \<le> card (pmm_avail (manager (k_vm k1), vmem (k_vm k1)))" using frames k1(4) by linarith
  have inv: "pmm_window_inv ?h (manager (k_vm k1), vmem (k_vm k1))" using k1(2) unfolding guard.owned_def pmm_guard_inv_def by blast
  have empty: "user_space_empty x ?h U ?n (k_vm k1)"
    using inv k1(3) n va by (simp add: user_space_empty_def)
  obtain s2 where s2: "start_user_process (p_elf_file_new pf) x allocate_frame ?h (USER_ELF_BYTES pf) (k_vm k1) =
      Inr (load_base elf + entry_point elf, initial_sp, s2)" "user_image x ?h U s2 = stack_image elf (elf_image elf)"
    using start_user_process_effect [where elf_file_new = "p_elf_file_new pf" and bytes = "USER_ELF_BYTES pf",
        OF x(1) map_to_progress_mono [OF x(2) sub] elf empty] by blast
  obtain s1 where s1: "load_user_elf (p_elf_file_new pf) x allocate_frame ?h (USER_ELF_BYTES pf) (k_vm k1) = Inr (load_base elf + entry_point elf, s1)"
    "setup_user_stack (p_elf_file_new pf) x allocate_frame ?h (USER_ELF_BYTES pf) s1 = Inr (initial_sp, s2)"
    using s2(1) by (auto simp: start_user_process_def and_then_Inr)
  have fresh: "\<forall>q \<in> elf_pages elf \<union> set stack_pages. translate_page x (tables (k_vm k1)) q = None"
    using k1(3) elf_pages_in [OF elf(2)] elf(2) by (auto simp: elf_ok_def)
  have own: "guard.owned ?h A s0 x ?V s2"
    by (rule start_user_process_owned [where elf_file_new = "p_elf_file_new pf" and bytes = "USER_ELF_BYTES pf",
        OF x elf(1) elf_ok_mono [OF elf(2) sub] va k1(2) fresh n s2(1)])
  have "\<exists>k'. kernel_start pf b k = Inr k' \<and> k_vm k' = s2 \<and> k_env k' = env \<and> k_idt k' = Some IDT \<and>
      k_cpu k' = exec (p_addr pf) (env_msrs env) (\<lambda>c. c) 0 (enter_userspace (load_base elf + entry_point elf) initial_sp) (k_cpu ?d)"
    using k1(1,6,7) env(1,2) s1 by (simp add: kernel_start_def Let_def x_def)
  then show ?thesis using own s2(2) env(3) rsp start_devices_frame(4) [of pf b k] by metis
qed

text \<open>With all memory but the bitmap and the free frames set apart; of it, only the initial fill of the bitmap has changed bytes.\<close>

lemma kernel_start_outcome:
  assumes "x86_64_ok (px pf)" "map_to_progress (px pf) allocate_frame pmm_avail (U \<union> set kernel_heap_pages)"
    and ready: "kernel_ready pf b U k" and "p_elf_file_new pf (USER_ELF_BYTES pf) = Some elf" "elf_ok U elf"
    and init: "init_internal (manager (k_vm k)) (memory_map_addr b) (memory_map_len b) (memory_map_desc_size b) (hhdm_offset b)
      (max_phys_memory b) (vmem (k_vm k)) = Inr (p, m)"
    and "100 + 4 * (elf_page_count elf + length stack_pages) \<le> card (pmm_avail (p, m))"
  shows "\<exists>k'. kernel_start pf b k = Inr k' \<and>
    rip (k_cpu k') = load_base elf + entry_point elf \<and> regs (k_cpu k') RSP = initial_sp \<and> cs (k_cpu k') AND 3 = 3 \<and>
    bit (rflags (k_cpu k')) 9 \<and> k_idt k' = Some IDT \<and> lstar (env_msrs (k_env k')) = p_syscall_entry pf \<and>
    user_image (px pf) (hhdm_offset b) U (k_vm k') = stack_image elf (elf_image elf) \<and>
    (\<forall>q \<in> U. \<forall>f. translate_page (px pf) (tables (k_vm k')) q = Some f \<longrightarrow>
       f \<in> pmm_avail (p, m) \<and> f \<notin> pmm_avail (manager (k_vm k'), vmem (k_vm k')) \<and>
       (\<forall>r \<in> set kernel_heap_pages. translate_page (px pf) (tables (k_vm k')) r \<noteq> Some f)) \<and>
    (\<forall>y \<in> pmm_untouched (hhdm_offset b) (p, m). \<not> in_range (bitmap p) (64 * bitmap_size_u64 p) y \<longrightarrow>
       vmem (k_vm k') y = vmem (k_vm k) y)"
proof -
  let ?h = "hhdm_offset b" and ?A = "pmm_untouched (hhdm_offset b) (p, m)"
  have layout: "pmm_layout (memory_map_addr b) (memory_map_len b) (memory_map_desc_size b) ?h (max_phys_memory b) (vmem (k_vm k))"
    and fc: "pmm_fill_conventional (memory_map_addr b) (memory_map_len b) (memory_map_desc_size b) ?h (max_phys_memory b) (vmem (k_vm k))"
    and disj: "U \<inter> set kernel_heap_pages = {}" using ready by (auto simp: kernel_ready_def)
  note fill = fill_conventional_ok [OF layout fc]
  have inv: "pmm_window_inv ?h (p, m)" by (rule pmm_init_window [OF layout fill init])
  have guard: "pmm_guard_inv ?h ?A (p, m) (p, m)" using pmm_guard_start [OF inv] by simp
  from kernel_start_effect [OF assms guard] obtain k' c where k': "kernel_start pf b k = Inr k'"
    "k_cpu k' = exec (p_addr pf) (env_msrs (k_env k')) (\<lambda>c. c) 0 (enter_userspace (load_base elf + entry_point elf) initial_sp) c"
    "40 \<le> unat (regs c RSP)" "k_idt k' = Some IDT" "lstar (env_msrs (k_env k')) = p_syscall_entry pf"
    "guard.owned ?h ?A (p, m) (px pf) (U \<union> set kernel_heap_pages) (k_vm k')"
    "user_image (px pf) ?h U (k_vm k') = stack_image elf (elf_image elf)"
    by blast
  have man: "manager (k_vm k') = p" using k'(6) by (simp add: guard.owned_def pmm_guard_inv_def)
  have "f \<in> pmm_avail (p, m) \<and> f \<notin> pmm_avail (manager (k_vm k'), vmem (k_vm k')) \<and>
      (\<forall>r \<in> set kernel_heap_pages. translate_page (px pf) (tables (k_vm k')) r \<noteq> Some f)"
    if q: "q \<in> U" "translate_page (px pf) (tables (k_vm k')) q = Some f" for q f
  proof -
    have qV: "q \<in> U \<union> set kernel_heap_pages" using q(1) by blast
    note o = guard.ownedD [OF k'(6) qV q(2)]
    have "f \<in> pmm_avail (p, m)" by (rule frame_was_free [OF inv o(1)]) (use o(2) man in simp)
    then show ?thesis using o(3) guard.owned_inj [OF k'(6) qV _ q(2)] q(1) disj by blast
  qed
  moreover have "vmem (k_vm k') y = vmem (k_vm k) y" if "y \<in> ?A" "\<not> in_range (bitmap p) (64 * bitmap_size_u64 p) y" for y
  proof -
    have "vmem (k_vm k') y = m y" using k'(6) that by (simp add: guard.owned_def pmm_guard_inv_def)
    also have "\<dots> = vmem (k_vm k) y"
      using init_internal_effect(3) [OF layout fill init] that(2) by (simp add: only_filled_def)
    finally show ?thesis .
  qed
  ultimately show ?thesis using user_mode_entered [OF k'(3,2)] k'(1,4,5,7) by blast
qed

section \<open>An example\<close>

text \<open>A machine of 32 MiB with one conventional region of 6000 pages from 8 MiB on; the memory map is at 0x8000.\<close>

definition ex_boot_mem :: memory where
  "ex_boot_mem = store_bytes (\<lambda>_. 0) (0x8000 + ex_hhdm) (ex_desc 7 0x800000 6000)"

definition ex_boot_info :: BootInfo where
  "ex_boot_info = \<lparr>memory_map_addr = 0x8000, memory_map_len = 1, memory_map_desc_size = 48, hhdm_offset = ex_hhdm,
     max_phys_memory = 0x2000000, framebuffer = \<lparr>buffer_base = 0xFFFFA00000000000, buffer_size = 0, fb_width = 0, fb_height = 0,
       stride = 0, format = RGB\<rparr>\<rparr>"

definition ex_platform :: "(u64 \<rightharpoonup> u64 \<times> page_flags, ex_free_list, u8 \<times> u8, nat) platform" where
  "ex_platform = \<lparr>px = ex_x86, p_heap = ex_heap, p_elf_file_new = ex_parse, p_gdt_append = ex_append, p_gdt_new = 1,
     p_pic_initialize = (\<lambda>p. p), p_pic_write_masks = (\<lambda>m1 m2 p. (m1, m2)), p_offset_page_table = (\<lambda>_ _. Map.empty),
     p_cr3 = 0x1000, p_addr = ex_addr, p_syscall_stack = 0x10000, p_syscall_entry = 0xFFFFFFFF80001000, p_font = (\<lambda>_. None),
     USER_ELF_BYTES = elf_input ex_elf\<rparr>"

definition ex_kernel_state :: "(u64 \<rightharpoonup> u64 \<times> page_flags, ex_free_list, u8 \<times> u8) kernel" where
  "ex_kernel_state = \<lparr>k_console = \<lparr>serial = [], display = \<lparr>writer = None, pixels = (\<lambda>_. 0)\<rparr>\<rparr>,
     k_cpu = ex_user\<lparr>regs := (\<lambda>_. 0x5000)\<rparr>, k_task_register = 0, k_idt = None, k_pics = (0xFF, 0xFF), k_ports = [],
     k_vm = \<lparr>tables = Map.empty, manager = PMM, vmem = ex_boot_mem\<rparr>,
     k_heap = \<lparr>interrupts_on = False, locked = False, contents = ((0, 0), [])\<rparr>,
     k_env = \<lparr>HHDM_OFFSET = 0, env_mem = (\<lambda>_. 0), env_msrs = ex_msrs\<rparr>\<rparr>"

text \<open>Memory with that memory map.\<close>

definition ex_map_at :: "memory \<Rightarrow> bool" where
  "ex_map_at m \<longleftrightarrow> (\<forall>i < 40. m (0x8000 + ex_hhdm + of_nat i) = ex_boot_mem (0x8000 + ex_hhdm + of_nat i))"

lemma ex_boot_desc: "ex_map_at m \<Longrightarrow> desc_at m (0x8000 + ex_hhdm) 48 0 =
    \<lparr>desc_type = 7, pad = 0, phys_start = 0x800000, virt_start = 0, page_count = 6000, attribute = 0\<rparr>"
proof -
  assume "ex_map_at m"
  then have "desc_at m (0x8000 + ex_hhdm) 48 0 = desc_at ex_boot_mem (0x8000 + ex_hhdm) 48 0"
    unfolding desc_at_def by (intro read_descriptor_cong) (simp add: ex_map_at_def)
  also have "\<dots> = \<lparr>desc_type = 7, pad = 0, phys_start = 0x800000, virt_start = 0, page_count = 6000, attribute = 0\<rparr>" by code_simp
  finally show ?thesis .
qed

lemma ex_boot_layout: "ex_map_at m \<Longrightarrow> pmm_layout 0x8000 1 48 ex_hhdm 0x2000000 m"
  by (simp add: pmm_layout_def Let_def ex_boot_desc) (simp add: ex_hhdm_def apart_def)

lemma ex_boot_conventional:
  assumes "ex_map_at m"
  shows "conventional_frames m (0x8000 + ex_hhdm) 48 (unat (1 :: u64)) = {2048 ..< 8048}"
proof -
  have "{i. i < unat (1 :: u64) \<and> desc_type (desc_at m (0x8000 + ex_hhdm) 48 i) = 7} = {0}" using ex_boot_desc [OF assms] by auto
  then show ?thesis unfolding conventional_frames_def by (simp add: ex_boot_desc [OF assms] region_frames_def PAGE_SIZE_def)
qed

lemma ex_boot_region: "ex_map_at m \<Longrightarrow> find_bitmap_region m (0x8000 + ex_hhdm) 48 1024 [0..<unat (1 :: u64)] = 0x800000"
  using ex_boot_desc by (simp add: upt_rec desc_at_def Let_def PAGE_SIZE_def)

lemma ex_boot_fill:
  assumes "ex_map_at m"
  shows "pmm_fill_conventional 0x8000 1 48 ex_hhdm 0x2000000 m"
proof -
  have n: "div_ceil (unat (0x2000000 :: u64) div 4096) 64 = 128" by (simp add: div_ceil_def)
  have e: "8 * (128 :: nat) = 1024" "64 * (128 :: nat) = 8192" "unat (0x800000 :: u64) = 2048 * 4096" by simp_all
  have "(2048 * 4096 + i) div 4096 \<in> {2048 ..< 8048}" if "i < 8192" for i :: nat
  proof -
    have "(2048 * 4096 + i) div 4096 = 2048 + i div 4096" by (rule div_mult_self3) simp
    moreover have "i div 4096 < 2" using that by (simp add: div_less_iff_less_mult)
    ultimately show ?thesis by (simp only: atLeastLessThan_iff) simp
  qed
  then show ?thesis
    unfolding pmm_fill_conventional_def Let_def n e(1,2) ex_boot_region [OF assms] e(3) ex_boot_conventional [OF assms] by blast
qed

lemma ex_boot_init:
  assumes map: "ex_map_at m0"
  obtains p m where "init_internal PMM 0x8000 1 48 ex_hhdm 0x2000000 m0 = Inr (p, m)" "5999 \<le> card (pmm_avail (p, m))"
proof -
  note r = ex_boot_region [OF map]
  have d: "div_ceil (unat (0x2000000 div PAGE_SIZE)) 64 * 8 = 1024" by (simp add: PAGE_SIZE_def div_ceil_def)
  have nm: "(0x800000 :: u64) \<noteq> - 1" by simp
  obtain p m where p: "init_internal PMM 0x8000 1 48 ex_hhdm 0x2000000 m0 = Inr (p, m)"
    unfolding init_internal_def Let_def d r if_not_P [OF nm] by blast
  note sh = init_internal_shape [OF p] and eff = init_internal_effect [OF ex_boot_layout [OF map] fill_conventional_ok [OF ex_boot_layout [OF map] ex_boot_fill [OF map]] p]
  have sz: "bitmap_size_u64 p = 128" using sh(2) by (simp add: div_ceil_def)
  have "bitmap_start_addr p = 0x800000" using sh(5) r by (simp add: sz)
  then have "bitmap_frames p = {2048}" by (auto simp: bitmap_frames_def sz div_ceil_def PAGE_SIZE_def)
  then have free: "free_frames p m = {2049 ..< 8048}" using eff(2) ex_boot_conventional [OF map] by auto
  have "card (pmm_avail (p, m)) = card (free_frames p m)"
    using card_image [OF inj_on_subset [OF inj_frame_addr free_frames_small [OF eff(1)]]] by (simp add: pmm_avail_def)
  then show thesis using that [OF p] free by simp
qed

lemma ex_kernel_ready: "kernel_ready ex_platform ex_boot_info ex_user_pages ex_kernel_state"
proof -
  have "q \<notin> ex_user_pages" if "q \<in> set kernel_heap_pages" for q
    using that by (auto simp: set_kernel_heap_pages ex_user_pages_def KERNEL_HEAP_START_def word_le_nat_alt word_less_nat_alt)
  then show ?thesis
    using ex_boot_layout [of ex_boot_mem] ex_boot_fill [of ex_boot_mem]
    by (auto simp: ex_map_at_def kernel_ready_def ex_boot_info_def ex_platform_def ex_kernel_state_def ex_x86_def)
qed

end
