(* ===== verification/Startup.thy ===== *)
theory Startup
  imports Kernel_Main
begin

text \<open>
  From the bootloader to the user program: what the jump of \<open>uefi_boot/src/main.rs\<close> leaves is what \<open>_start\<close> of
  \<open>kernel/src/main.rs\<close> needs, and the kernel's code in memory survives its own start.
\<close>

section \<open>The two sides of the jump\<close>

text \<open>The kernel's crates and addresses: canonical addresses are accepted, and the entry of the system calls is in the kernel.\<close>

definition platform_ok :: "('pt, 'h, 'pic, 'gdt) platform \<Rightarrow> u64 set \<Rightarrow> bool" where
  "platform_ok pf U \<longleftrightarrow>
     x86_64_ok (px pf) \<and> map_to_progress (px pf) allocate_frame pmm_avail (U \<union> set kernel_heap_pages) \<and>
     (\<forall>a. unat a < 2 ^ 47 \<or> 2 ^ 64 - 2 ^ 47 \<le> unat a \<longrightarrow> virt_addr_new (px pf) a = Some a) \<and>
     unat KERNEL_BASE \<le> unat (p_syscall_entry pf)"

text \<open>The read-only part of the kernel: the physical addresses of the bytes of its segments that are not writable. Code and
  constants are there; the statics are in the other segments.\<close>

definition kernel_read_only :: "('pt, 'a) x86_64 \<Rightarrow> ('pt, 'a) vm \<Rightarrow> ElfFile \<Rightarrow> u64 set" where
  "kernel_read_only x s elf =
     {f + of_nat (unat (virtual_addr ph + of_nat i) mod 4096) | f ph i.
        ph \<in> set (load_headers elf) \<and> \<not> ph_is_write ph \<and> i < unat (mem_size ph) \<and>
        translate_page x (tables s) (page_of (virtual_addr ph + of_nat i)) = Some f}"

text \<open>The state \<open>k\<close> at the first instruction of the kernel: the registers of the jump, the kernel's code in the window, and a mapper
  that reads the tables the bootloader wrote. The statics have their initial values, so the heap is not locked.\<close>

definition kernel_entered ::
  "('qt, 'h, 'pic, 'gdt) platform \<Rightarrow> ('pt, 'a) x86_64 \<Rightarrow> ElfFile \<Rightarrow> handover \<Rightarrow> ('pt, 'a) vm \<Rightarrow> ('qt, 'h, 'pic) kernel \<Rightarrow> bool" where
  "kernel_entered pf x kelf h s k \<longleftrightarrow>
     (let hhdm = hhdm_offset (ho_boot_info h)
      in p_cr3 pf = ho_cr3 h \<and> regs (k_cpu k) RSP = ho_rsp h \<and> \<not> locked (k_heap k) \<and>
         translate_page (px pf) (p_offset_page_table pf (ho_cr3 h + hhdm) hhdm) = translate_page x (tables s) \<and>
         (\<forall>a \<in> kernel_read_only x s kelf. a < max_phys_memory (ho_boot_info h) \<longrightarrow> vmem (k_vm k) (a + hhdm) = vmem s a))"

text \<open>The final memory map of the firmware: its entries are in order, conventional memory contains nothing of the memory \<open>A\<close>
  that is allocated, which lies in the memory that the bootloader reports, and is long enough at the place of the bitmap for the
  memory manager's fill.\<close>

definition final_map_ok :: "BootInfo \<Rightarrow> u64 set \<Rightarrow> memory \<Rightarrow> bool" where
  "final_map_ok b A m \<longleftrightarrow>
     pmm_layout (memory_map_addr b) (memory_map_len b) (memory_map_desc_size b) (hhdm_offset b) (max_phys_memory b) m \<and>
     pmm_fill_conventional (memory_map_addr b) (memory_map_len b) (memory_map_desc_size b) (hhdm_offset b) (max_phys_memory b) m \<and>
     (\<forall>g \<in> conventional_frames m (memory_map_addr b + hhdm_offset b) (memory_map_desc_size b) (unat (memory_map_len b)).
        \<forall>a \<in> A. \<not> in_range (frame_addr g) 4096 a) \<and>
     (\<forall>a \<in> A. a < max_phys_memory b)"

section \<open>The kernel can start\<close>

lemma kernel_heap_bounds: "q \<in> set kernel_heap_pages \<Longrightarrow> 0xFFFF900000000000 \<le> unat q \<and> unat q < 0xFFFF900000019000"
  using set_kernel_heap_pages by (auto simp: KERNEL_HEAP_START_def word_le_nat_alt)

lemma low_page: "unat (page_of a) < 2 ^ 47 \<Longrightarrow> unat a < 2 ^ 47"
proof -
  assume "unat (page_of a) < 2 ^ 47"
  then have "unat a div 4096 * 4096 < 2 ^ 35 * 4096" by (simp add: unat_page_of)
  then have "unat a div 4096 < 2 ^ 35" by (rule mult_less_cancel2 [THEN iffD1, THEN conjunct2])
  then show ?thesis by (simp add: div_less_iff_less_mult)
qed

lemma kernel_can_start:
  assumes boot: "booted x y fw elf dl s" "kernel_elf_ok kd elf" "firmware_ready fw room u kd n dl"
    and h: "unat (ho_cr3 h) < 2 ^ 47" "ho_rsp h = STACK_TOP" "hhdm_offset (ho_boot_info h) = BOOT_HHDM_OFFSET"
    and U: "\<forall>q \<in> U. unat q < 2 ^ 47" "U \<inter> identity_page (rip_now fw) ` {..<512} = {}"
    and pf: "platform_ok pf U" and k: "kernel_entered pf x kelf h s k" and map: "final_map_ok (ho_boot_info h) A (vmem (k_vm k))"
  shows "kernel_ready pf (ho_boot_info h) U k"
proof -
  let ?b = "ho_boot_info h" and ?V = "U \<union> set kernel_heap_pages"
  have canon: "\<And>a. unat a < 2 ^ 47 \<or> 2 ^ 64 - 2 ^ 47 \<le> unat a \<Longrightarrow> virt_addr_new (px pf) a = Some a"
    and se: "unat KERNEL_BASE \<le> unat (p_syscall_entry pf)" using pf unfolding platform_ok_def by blast+
  have k': "p_cr3 pf = ho_cr3 h" "regs (k_cpu k) RSP = STACK_TOP" "\<not> locked (k_heap k)"
    "translate_page (px pf) (p_offset_page_table pf (ho_cr3 h + BOOT_HHDM_OFFSET) BOOT_HHDM_OFFSET) = translate_page x (tables s)"
    using k h(2,3) by (auto simp: kernel_entered_def Let_def)
  have rip: "unat (rip_now fw) + 512 * 4096 \<le> 2 ^ 47" and fb: "gop_size fw \<le> 2 ^ 40" using boot(3) by (auto simp: firmware_ready_def)
  have va: "virt_addr_new (px pf) a = Some a" if "page_of a \<in> ?V" for a
  proof (rule canon)
    consider "unat (page_of a) < 2 ^ 47" | "0xFFFF900000000000 \<le> unat (page_of a)" using \<open>page_of a \<in> ?V\<close> U(1) kernel_heap_bounds by blast
    then show "unat a < 2 ^ 47 \<or> 2 ^ 64 - 2 ^ 47 \<le> unat a"
      using low_page [of a] page_split [of a] by cases auto
  qed
  have none: "translate_page x (tables s) q = None" if q: "q \<in> ?V" for q
  proof -
    have b: "unat q < 2 ^ 47 \<or> (0xFFFF900000000000 \<le> unat q \<and> unat q < 0xFFFF900000019000)" using q U(1) kernel_heap_bounds by blast
    then have "q \<notin> kernel_image_pages elf" "q \<notin> set kernel_stack_pages" "q \<notin> fb_pages (gop_size fw)"
      using kernel_page_bounds [OF boot(2), of q] kernel_stack_bounds [of q] fb_page_bounds [OF _ fb, of q] by (auto simp: KERNEL_BASE_def)
    moreover have "q \<notin> identity_page (rip_now fw) ` {..<512}"
      using q U(2) kernel_heap_bounds [of q] identity_page_bounds [OF rip, of q] by fastforce
    ultimately have "q \<notin> dom (translate_page x (tables s))" using boot(1) unfolding booted_def by blast
    then show ?thesis by (simp add: domIff)
  qed
  have cr3: "unat (ho_cr3 h + BOOT_HHDM_OFFSET) = unat (ho_cr3 h) + 0xffff800000000000"
    using h(1) by (subst unat_add_small) (auto simp: BOOT_HHDM_OFFSET_def)
  have "virt_addr_new (px pf) (ho_cr3 h + BOOT_HHDM_OFFSET) = Some (ho_cr3 h + BOOT_HHDM_OFFSET)"
    by (rule canon) (simp add: cr3)
  moreover have "virt_addr_new (px pf) BOOT_HHDM_OFFSET = Some BOOT_HHDM_OFFSET" by (rule canon) (simp add: BOOT_HHDM_OFFSET_def)
  moreover have "virt_addr_new (px pf) (p_syscall_entry pf) = Some (p_syscall_entry pf)"
    by (rule canon) (use se in \<open>simp add: KERNEL_BASE_def\<close>)
  moreover have "U \<inter> set kernel_heap_pages = {}" using U(1) kernel_heap_bounds by fastforce
  moreover have "40 \<le> unat (regs (k_cpu k) RSP)" by (simp add: k'(2) STACK_TOP_def KERNEL_BASE_def)
  ultimately show ?thesis using map va none k'(1,3,4) unfolding kernel_ready_def final_map_ok_def h(3) by simp
qed

section \<open>The kernel's code survives its start\<close>

lemma not_conventional_untouched:
  assumes layout: "pmm_layout a len sz h mx m" and fill: "pmm_fill_conventional a len sz h mx m"
    and init: "init_internal self a len sz h mx m = Inr (p, m1)"
    and y: "\<forall>g \<in> conventional_frames m (a + h) sz (unat len). \<not> in_range (frame_addr g) 4096 y"
  shows "y + h \<in> pmm_untouched h (p, m1)" "\<not> in_range (bitmap p) (64 * bitmap_size_u64 p) (y + h)"
proof -
  note eff = init_internal_effect [OF layout fill_conventional_ok [OF layout fill] init]
  have "in_range (frame_addr (unat y div 4096)) 4096 y"
  proof -
    let ?g = "unat y div 4096"
    have g: "?g < 2 ^ 52" "?g * 4096 \<le> unat y" "unat y < ?g * 4096 + 4096"
      using unat_lt_64 [of y] div_mult_mod_eq [of "unat y" 4096] by (simp_all add: div_less_iff_less_mult)
    have e: "unat (frame_addr ?g) = ?g * 4096" using g(1) by (intro unat_frame_addr)
    moreover have "Suc ?g * 4096 \<le> 2 ^ 52 * 4096" using g(1) by (intro mult_le_mono1) simp
    ultimately show ?thesis using g(2,3) in_range_iff [of "frame_addr ?g" 4096 y] by simp
  qed
  then show out: "\<not> in_range (bitmap p) (64 * bitmap_size_u64 p) (y + h)"
    using filled_conventional [OF layout fill init, of y] y by blast
  have "y + h \<notin> pmm_reserved p" using out by (auto simp: pmm_reserved_def in_range_def)
  moreover have "y + h \<notin> window h f" if f: "f \<in> pmm_avail (p, m1)" for f
  proof
    assume w: "y + h \<in> window h f"
    obtain g where g: "f = frame_addr g" "g \<in> free_frames p m1" using f by (auto simp: pmm_avail_def)
    have "unat (y + h - (f + h)) < 4096" using w by (simp add: window_def in_range_def)
    then have "in_range (frame_addr g) 4096 y" by (simp add: in_range_def g(1))
    then show False using g(2) y unfolding eff(2) by blast
  qed
  ultimately show "y + h \<in> pmm_untouched h (p, m1)" by (simp add: pmm_untouched_def)
qed

text \<open>The code that the bootloader loaded is in the window as before, when nothing but conventional memory has changed.\<close>

lemma code_survives:
  assumes img: "holds_image x s A img" "img (virtual_addr ph + of_nat i) = Some c"
    and ph: "ph \<in> set (load_headers kelf)" "\<not> ph_is_write ph" "i < unat (mem_size ph)"
    and map: "final_map_ok (ho_boot_info h) A (vmem (k_vm k))" and k: "kernel_entered pf x kelf h s k"
    and init: "init_internal self (memory_map_addr (ho_boot_info h)) (memory_map_len (ho_boot_info h)) (memory_map_desc_size (ho_boot_info h))
      (hhdm_offset (ho_boot_info h)) (max_phys_memory (ho_boot_info h)) (vmem (k_vm k)) = Inr (p, m)"
    and same: "\<forall>y \<in> pmm_untouched (hhdm_offset (ho_boot_info h)) (p, m). \<not> in_range (bitmap p) (64 * bitmap_size_u64 p) y \<longrightarrow>
      vmem (k_vm k') y = vmem (k_vm k) y"
  shows "\<exists>f. translate_page x (tables s) (page_of (virtual_addr ph + of_nat i)) = Some f \<and>
    vmem (k_vm k') (f + of_nat (unat (virtual_addr ph + of_nat i) mod 4096) + hhdm_offset (ho_boot_info h)) = c"
proof -
  let ?b = "ho_boot_info h" and ?a = "virtual_addr ph + of_nat i"
  obtain f where f: "translate_page x (tables s) (page_of ?a) = Some f" "f + of_nat (unat ?a mod 4096) \<in> A"
    "vmem s (f + of_nat (unat ?a mod 4096)) = c" using img unfolding holds_image_def by blast
  let ?y = "f + of_nat (unat ?a mod 4096)"
  have layout: "pmm_layout (memory_map_addr ?b) (memory_map_len ?b) (memory_map_desc_size ?b) (hhdm_offset ?b) (max_phys_memory ?b) (vmem (k_vm k))"
    and fill: "pmm_fill_conventional (memory_map_addr ?b) (memory_map_len ?b) (memory_map_desc_size ?b) (hhdm_offset ?b) (max_phys_memory ?b) (vmem (k_vm k))"
    and lt: "?y < max_phys_memory ?b" and nc: "\<forall>g \<in> conventional_frames (vmem (k_vm k)) (memory_map_addr ?b + hhdm_offset ?b)
      (memory_map_desc_size ?b) (unat (memory_map_len ?b)). \<not> in_range (frame_addr g) 4096 ?y"
    using map f(2) by (auto simp: final_map_ok_def)
  have "vmem (k_vm k') (?y + hhdm_offset ?b) = vmem (k_vm k) (?y + hhdm_offset ?b)"
    using not_conventional_untouched [OF layout fill init nc] same by blast
  also have "\<dots> = vmem s ?y"
  proof -
    have "?y \<in> kernel_read_only x s kelf" unfolding kernel_read_only_def using ph f(1) by blast
    then show ?thesis using k lt by (simp add: kernel_entered_def Let_def)
  qed
  finally show ?thesis using f(1,3) by blast
qed

text \<open>The frames that are free after the start of the memory manager are conventional memory.\<close>

lemma free_frame_conventional:
  assumes map: "final_map_ok b A m0"
    and init: "init_internal self (memory_map_addr b) (memory_map_len b) (memory_map_desc_size b) (hhdm_offset b) (max_phys_memory b) m0 = Inr (p, m)"
    and f: "f \<in> pmm_avail (p, m)"
  shows "\<exists>g \<in> conventional_frames m0 (memory_map_addr b + hhdm_offset b) (memory_map_desc_size b) (unat (memory_map_len b)). f = frame_addr g"
proof -
  have "pmm_layout (memory_map_addr b) (memory_map_len b) (memory_map_desc_size b) (hhdm_offset b) (max_phys_memory b) m0"
    "pmm_fill_conventional (memory_map_addr b) (memory_map_len b) (memory_map_desc_size b) (hhdm_offset b) (max_phys_memory b) m0"
    using map by (simp_all add: final_map_ok_def)
  from init_internal_effect(2) [OF this(1) fill_conventional_ok [OF this] init] f show ?thesis by (auto simp: pmm_avail_def)
qed

text \<open>The start of the kernel after the jump: what \<open>kernel_start_outcome\<close> says, with the memory of the bootloader kept apart.\<close>

lemma user_program_after_boot:
  assumes boot: "booted x y fw kelf dl s" "kernel_elf_ok kd kelf" "firmware_ready fw room u kd n dl"
    and img: "holds_image x s A (fold (kernel_segment_image kd) (load_headers kelf) Map.empty)"
    and h: "unat (ho_cr3 h) < 2 ^ 47" "ho_rsp h = STACK_TOP" "hhdm_offset (ho_boot_info h) = BOOT_HHDM_OFFSET"
    and U: "\<forall>q \<in> U. unat q < 2 ^ 47" "U \<inter> identity_page (rip_now fw) ` {..<512} = {}"
    and a: "platform_ok pf U" "kernel_entered pf x kelf h s k" "final_map_ok (ho_boot_info h) A (vmem (k_vm k))"
      "p_elf_file_new pf (USER_ELF_BYTES pf) = Some elf" "elf_ok U elf"
      "init_internal (manager (k_vm k)) (memory_map_addr (ho_boot_info h)) (memory_map_len (ho_boot_info h)) (memory_map_desc_size (ho_boot_info h))
         (hhdm_offset (ho_boot_info h)) (max_phys_memory (ho_boot_info h)) (vmem (k_vm k)) = Inr (p, m1)"
      "100 + 4 * (elf_page_count elf + length stack_pages) \<le> card (pmm_avail (p, m1))"
  shows "\<exists>k'. kernel_start pf (ho_boot_info h) k = Inr k' \<and>
    rip (k_cpu k') = load_base elf + entry_point elf \<and> regs (k_cpu k') RSP = initial_sp \<and> cs (k_cpu k') AND 3 = 3 \<and>
    user_image (px pf) (hhdm_offset (ho_boot_info h)) U (k_vm k') = stack_image elf (elf_image elf) \<and>
    (\<forall>q \<in> U. \<forall>f. translate_page (px pf) (tables (k_vm k')) q = Some f \<longrightarrow> (\<forall>c \<in> A. \<not> in_range f 4096 c)) \<and>
    (\<forall>ph \<in> set (load_headers kelf). \<not> ph_is_write ph \<longrightarrow> (\<forall>i < unat (mem_size ph). \<exists>f.
       translate_page x (tables s) (page_of (virtual_addr ph + of_nat i)) = Some f \<and>
       vmem (k_vm k') (f + of_nat (unat (virtual_addr ph + of_nat i) mod 4096) + hhdm_offset (ho_boot_info h)) =
         (if i < unat (file_size ph) then kd ! (unat (ph_file_offset ph) + i) else 0)))"
proof -
  let ?b = "ho_boot_info h"
  have segs: "\<forall>ph \<in> set (load_headers kelf). kernel_segment_ok kd ph"
    "sorted_wrt (\<lambda>p q. set (segment_pages p 0) \<inter> set (segment_pages q 0) = {}) (load_headers kelf)"
    using boot(2) by (auto simp: kernel_elf_ok_def)
  have pf: "x86_64_ok (px pf)" "map_to_progress (px pf) allocate_frame pmm_avail (U \<union> set kernel_heap_pages)"
    using a(1) by (auto simp: platform_ok_def)
  have ready: "kernel_ready pf ?b U k" by (rule kernel_can_start [OF boot h U a(1-3)])
  from kernel_start_outcome [OF pf ready a(4-7)]
  obtain k' where k': "kernel_start pf ?b k = Inr k'" "rip (k_cpu k') = load_base elf + entry_point elf"
    "regs (k_cpu k') RSP = initial_sp" "cs (k_cpu k') AND 3 = 3"
    "user_image (px pf) (hhdm_offset ?b) U (k_vm k') = stack_image elf (elf_image elf)"
    "\<forall>q \<in> U. \<forall>f. translate_page (px pf) (tables (k_vm k')) q = Some f \<longrightarrow> f \<in> pmm_avail (p, m1)"
    "\<forall>y \<in> pmm_untouched (hhdm_offset ?b) (p, m1). \<not> in_range (bitmap p) (64 * bitmap_size_u64 p) y \<longrightarrow> vmem (k_vm k') y = vmem (k_vm k) y" by blast
  have "\<not> in_range f 4096 c" if "q \<in> U" "translate_page (px pf) (tables (k_vm k')) q = Some f" "c \<in> A" for q f c
    using free_frame_conventional [OF a(3,6), of f] k'(6) that a(3) by (auto simp: final_map_ok_def)
  moreover have "\<exists>f. translate_page x (tables s) (page_of (virtual_addr ph + of_nat i)) = Some f \<and>
      vmem (k_vm k') (f + of_nat (unat (virtual_addr ph + of_nat i) mod 4096) + hhdm_offset ?b) =
        (if i < unat (file_size ph) then kd ! (unat (ph_file_offset ph) + i) else 0)"
    if ph: "ph \<in> set (load_headers kelf)" "\<not> ph_is_write ph" "i < unat (mem_size ph)" for ph i
    using code_survives [OF img kernel_images [OF segs ph(1,3)] ph a(3,2,6) k'(7)] by (simp add: kernel_byte_def)
  ultimately show ?thesis using k'(1-5) by blast
qed

section \<open>An example\<close>

lemma ex_uefi: "uefi_alloc_ok (allocate_pages ex_firmware) ex_allocated"
  using ex_uefi_alloc_ok by (simp add: ex_firmware_def)

lemma ex_user_pages_low: "\<forall>q \<in> ex_user_pages. unat q < 2 ^ 47"
  by (simp add: ex_user_pages_def word_less_nat_alt)

lemma ex_user_pages_identity: "ex_user_pages \<inter> identity_page (rip_now ex_firmware) ` {..<512} = {}"
  using identity_page(1) [of "0x100000"] by (auto simp: ex_user_pages_def ex_firmware_def word_le_nat_alt unat_page_of)

definition ex_phys_mem :: memory where
  "ex_phys_mem a = ex_boot_mem (a + ex_hhdm)"

lemma ex_boot_run:
  obtains h s u' where "boot_main (\<lambda>_. Some ex_kernel) ex_boot_x86 ex_boot ex_firmware ex_phys_mem 0 = Inr (h, s, u')"
    "memory_map_addr (ho_boot_info h) = 0x8000" "memory_map_len (ho_boot_info h) = 1" "memory_map_desc_size (ho_boot_info h) = 48"
    "hhdm_offset (ho_boot_info h) = ex_hhdm" "max_phys_memory (ho_boot_info h) = 0x2000000" "ex_map_at (\<lambda>v. vmem s (v - ex_hhdm))"
proof -
  obtain h s u' where h: "boot_main (\<lambda>_. Some ex_kernel) ex_boot_x86 ex_boot ex_firmware ex_phys_mem 0 = Inr (h, s, u')"
    "ho_boot_info h = boot_info_of ex_firmware (detect_max_phys [ex_descriptor]) 0x30"
    "\<forall>b. b \<notin> ex_allocated u' \<longrightarrow> vmem s b = ex_phys_mem b"
    using boot_main_effect [where elf_file_new = "\<lambda>_. Some ex_kernel", OF ex_boot_crate_ok ex_uefi_progress ex_uefi ex_firmware_ready refl
        ex_kernel_elf_ok ex_boot_pool_ok, of ex_phys_mem] by (auto simp: ex_firmware_def)
  have "ex_map_at (\<lambda>v. vmem s (v - ex_hhdm))"
    unfolding ex_map_at_def
  proof (intro allI impI)
    fix i :: nat assume i: "i < 40"
    then have "unat (0x8000 + of_nat i :: u64) = 0x8000 + i" using unat_add_of_nat_small [of "0x8000" i] by simp
    then have "0x8000 + of_nat i \<notin> ex_allocated u'" using i by (simp add: ex_allocated_def)
    then have "vmem s (0x8000 + of_nat i) = ex_boot_mem (0x8000 + of_nat i + ex_hhdm)" using h(3) by (simp add: ex_phys_mem_def)
    then show "vmem s (0x8000 + ex_hhdm + of_nat i - ex_hhdm) = ex_boot_mem (0x8000 + ex_hhdm + of_nat i)" by (simp add: algebra_simps)
  qed
  then show thesis using that [OF h(1)]
    by (simp add: h(2) boot_info_of_def ex_firmware_def BOOT_HHDM_OFFSET_def ex_hhdm_def detect_max_phys_def max_phys_step_def ex_descriptor_def)
qed

lemma ex_final_map:
  assumes "ex_map_at m" and b: "memory_map_addr b = 0x8000" "memory_map_len b = 1" "memory_map_desc_size b = 48" "hhdm_offset b = ex_hhdm"
    "max_phys_memory b = 0x2000000"
  shows "final_map_ok b (ex_allocated u') m"
proof -
  have far: "\<not> in_range (frame_addr g) 4096 a" "a < 0x2000000" if "a \<in> ex_allocated u'" "g \<in> {2048 ..< 8048}" for a g
  proof -
    have a: "unat a < 2000 * 4096" using that(1) by (auto simp: ex_allocated_def min_def split: if_splits)
    moreover have "unat (frame_addr g) = g * 4096" using that(2) by (intro unat_frame_addr) simp
    ultimately show "\<not> in_range (frame_addr g) 4096 a" using that(2) by (subst in_range_iff) auto
    show "a < 0x2000000" using a by (simp add: word_less_nat_alt)
  qed
  then show ?thesis
    unfolding final_map_ok_def b ex_boot_conventional [OF assms(1)] using ex_boot_layout [OF assms(1)] ex_boot_fill [OF assms(1)] far(1) far(2) [of _ 2048] by auto
qed

end
