(* ===== verification/Spec2Isabelle.thy ===== *)
theory Spec2Isabelle
  imports Pmm Bump_Allocator Interrupts Gdt Helpers Syscalls Terminal Exceptions Relocation Startup
begin

text \<open>
  Verification of the cat kernel: a UEFI bootloader (\<open>src/uefi_boot\<close>), a kernel for x86-64 (\<open>src/kernel\<close>)
  and the code they share (\<open>src/shared\<close>), all in Rust.

  \<^bold>\<open>The program.\<close> The bootloader reads the kernel's ELF file, builds page tables with frames of a bump
  allocator (segments, stack, a higher-half window on all physical memory, an identity mapping of its own
  code, the frame buffer), fills a \<open>BootInfo\<close> and jumps to \<open>_start\<close>. The kernel initialises screen, descriptor
  tables, interrupt controller, physical memory manager, page-table mapper, timer, heap and system calls, loads
  the embedded user program, builds its stack and enters ring 3. From then on the kernel runs in system calls,
  interrupts and exceptions.

  \<^bold>\<open>Theories and sources.\<close>
  \<^item> \<open>Cat_Prelude\<close>, \<open>Memory\<close>: machine integers, results, loops, byte memory with little-endian loads and stores.
  \<^item> \<open>Frame_Allocator\<close> (locale \<open>frame_allocator\<close>), \<open>Pmm\<close> (\<open>kernel/src/pmm.rs\<close>, interpretation \<open>pmm\<close>),
    \<open>Bump_Allocator\<close> (\<open>uefi_boot/src/main.rs\<close>, interpretation \<open>bump\<close>).
  \<^item> \<open>Address_Space\<close> (locale \<open>window_allocator\<close>, an extension of \<open>frame_allocator\<close>: pages mapped through the window to
    frames of their own), \<open>Pmm_Window\<close> (its interpretations on the memory manager: \<open>pmmw\<close>, and \<open>guard\<close>, which also
    keeps apart the memory outside the free frames).
  \<^item> \<open>Elf_Loader\<close>, \<open>User_Stack\<close>, \<open>User_Process\<close>, \<open>Relocation\<close>: \<open>kernel/src/elf_loader.rs\<close>.
  \<^item> \<open>Spinlock\<close>, \<open>Kernel_Heap\<close>: \<open>kernel/src/heap_allocator.rs\<close>.
  \<^item> \<open>Bounded_Queue\<close> (locale \<open>bounded_queue\<close>), \<open>Interrupts\<close> (\<open>kernel/src/interrupts.rs\<close>, interpretation \<open>kbd\<close>),
    \<open>Exceptions\<close> (its exception handlers, \<open>shared/src/panic.rs\<close> and \<open>shared/src/serial.rs\<close>).
  \<^item> \<open>X86_Machine\<close> (the processor for the two assembly routines), \<open>Syscall_Entry\<close> (entry code of
    \<open>kernel/src/syscalls.rs\<close>), \<open>Gdt\<close> (\<open>kernel/src/gdt.rs\<close> and \<open>enter_userspace\<close>).
  \<^item> \<open>Utf8\<close>, \<open>Syscalls\<close>: the dispatcher and every handler of \<open>kernel/src/syscalls.rs\<close>.
  \<^item> \<open>Screen\<close> (\<open>kernel/src/screen.rs\<close>), \<open>Console\<close> (\<open>kernel/src/writer.rs\<close>), \<open>Terminal\<close> (the abstract terminal
    that the screen refines), \<open>Helpers\<close> (\<open>shared/src/helpers.rs\<close>).
  \<^item> \<open>Boot\<close> (the phases of \<open>main\<close> in \<open>uefi_boot/src/main.rs\<close>), \<open>Boot_Handover\<close> (\<open>main\<close> as a whole, with the UEFI services
    as the record \<open>firmware\<close> and the jump as the record \<open>handover\<close>), \<open>Kernel_Main\<close> (\<open>_start\<close> of \<open>kernel/src/main.rs\<close> and
    \<open>kernel/src/pml4.rs\<close>), \<open>Startup\<close> (the two sides of the jump fit together).

  \<^bold>\<open>How the code is translated.\<close> A struct or group of statics is a record, an enum a datatype, a method a function
  from state to state. \<open>u64\<close>, \<open>u32\<close>, \<open>u16\<close> and \<open>u8\<close> are words; \<open>usize\<close> is a natural number with \<open>usize_add\<close>,
  \<open>usize_sub\<close> and \<open>usize_mul\<close> wrapping at 64 bits, since the build script builds in release mode. A panic is a
  value \<open>Inl\<close>; a lock that is never released (spinning forever) is \<open>None\<close>; a Rust loop is \<open>for_each\<close>, \<open>fold\<close> or
  a recursive function. Raw pointers address the byte memory \<open>u64 \<Rightarrow> u8\<close>. The two assembly routines are lists of
  instructions run by \<open>exec\<close>.

  \<^bold>\<open>Parameters.\<close> Crates are arguments: \<open>x86_64\<close> (records \<open>x86_64\<close> and \<open>x86_64_boot\<close>, with what their documentation
  promises in \<open>x86_64_ok\<close> and \<open>x86_64_boot_ok\<close>), \<open>linked_list_allocator\<close> (\<open>heap_crate\<close>, \<open>heap_crate_ok\<close>), \<open>xmas_elf\<close>
  (the parser; \<open>ElfFile\<close> is what its accessors return), \<open>pic8259\<close>, \<open>font8x8\<close>, the UEFI services (\<open>firmware\<close>,
  \<open>uefi_alloc_ok\<close>). Every theorem with such a hypothesis is applied to a concrete instance in its witness.

  \<^bold>\<open>What is shown.\<close>
  \<^item> Memory: the manager's free frames are exactly the conventional memory less its bitmap; allocation takes the lowest
    free frame; runs of allocations are isolated from each other and from the bitmap; the heap's pages and blocks. The
    manager's initial fill is eight times as long as its bitmap: \<open>pmm_init_fill_overruns\<close> says what it destroys.
  \<^item> Boot and start: \<open>main\<close> reaches its jump, with the kernel image as specified, every page with its intended flags, the
    complete window, nothing else mapped and every field of the \<open>BootInfo\<close>; from what it leaves, \<open>_start\<close> reaches ring 3 with
    the specified user image; the composition of both, where no memory of the bootloader gets behind a user page and the
    kernel's code survives the start of the kernel.
  \<^item> User programs: segment contents, stack contents as a C library reads them, page rights, the effect of the
    two relocation passes (which the code defines and does not call) on a loaded program.
  \<^item> System calls: registers preserved, arguments passed, buffers respected, one lemma or more per handler; the blocks of
    \<open>mmap\<close> are disjoint and are memory that the loader has mapped for the program.
  \<^item> Screen: it refines a terminal and writes inside the frame buffer. Keyboard: a FIFO queue. Locks: no deadlock of
    the keyboard buffer, and panics reported from every state.
  \<^item> Deviations that the model shows, as theorems: the overrun of the bitmap's fill, the misaligned handler stack, the
    wrap-around of \<open>sys_mmap\<close>, the panic on a non-canonical FS base, exception handlers that spin on a locked port.

  \<^bold>\<open>Bounds.\<close> \<open>read_startup\<close> gets fuel 8 for each of the three vectors it reads: the loader writes at most eight
  auxiliary entries. Number printing has fuel 20 (decimal) and 16 (hexadecimal), the most digits of a 64-bit
  number. Mapping a page takes at most four frames (itself and three tables), so the heap's 25 pages take at most 100.
  That the pool of 1024 frames suffices for the bootloader's tables depends on the size of memory and of the frame buffer:
  it is the hypothesis \<open>boot_pool_ok\<close>. That no user page lies in the identity mapping of the bootloader's code depends on
  where the firmware loads it: it is a hypothesis of the composition. What the fill of the manager's bitmap meets depends on the
  memory map: that it leaves the map alone is the hypothesis \<open>pmm_fill_ok\<close> of the theorems on the manager, and that it stays in
  conventional memory is the hypothesis \<open>pmm_fill_conventional\<close> of the start of the kernel, a part of \<open>kernel_ready\<close> and of
  \<open>final_map_ok\<close>. The code checks neither.

  \<^bold>\<open>Not modelled.\<close> The log messages of the loader, the heap and the bootloader (those of \<open>_start\<close> and of the
  system calls are); the UART below the list of characters sent; the bytes of the page tables (the crate's
  translation function stands for them); the bytes of the \<open>BootInfo\<close> (it is passed as a record); caches and the translation buffer; the user programs,
  scripts and linker files. The kernel's statics (in its writable segments), its stack and its page tables are state of their
  own, next to the memory behind the window; the window's copies of their bytes are not kept up to date, so no property of the start of
  the kernel says that bytes of the window are unchanged, but for those of the kernel's segments that are not writable.
\<close>

section \<open>From the bootloader to the user program\<close>

text \<open>C1. From power-on to the user program: with services that succeed and enough memory, the bootloader reaches its jump, and
  from the state at the jump \<open>_start\<close> reaches ring 3 at the entry point of the user program, with user space the specified image.
  The two agree on the layout of memory: the tables of the bootloader leave user space and the kernel heap free, and nothing the bootloader
  got from the firmware (the kernel, its stack, the page tables, the \<open>BootInfo\<close>) ends up behind a page of user space. The kernel's code
  survives: every byte of its segments that are not writable is in memory as it was in the kernel's file when the user program starts.
  (The writable segments hold the statics, which \<open>_start\<close> changes.) The hypothesis \<open>final_map_ok\<close> includes that the fill of the memory
  manager's bitmap, eight times as long as the bitmap, stays in conventional memory.\<close>

theorem machine_boots_to_user_program:
  assumes "boot_crate_ok x y" "uefi_progress (allocate_pages fw) room" "uefi_alloc_ok (allocate_pages fw) allocated"
    and fw: "firmware_ready fw room u kd (headers_page_count 0 (load_headers kelf)) dl"
    and "elf_file_new kd = Some kelf" and kelf: "kernel_elf_ok kd kelf" and "boot_pool_ok x y fw kelf dl P"
    and U: "\<forall>q \<in> U. unat q < 2 ^ 47" "U \<inter> identity_page (rip_now fw) ` {..<512} = {}"
  shows "\<exists>h s u'. boot_main elf_file_new x y fw m u = Inr (h, s, u') \<and>
    (\<forall>pf k elf p m1. platform_ok pf U \<and> kernel_entered pf x kelf h s k \<and> final_map_ok (ho_boot_info h) (allocated u') (vmem (k_vm k)) \<and>
       p_elf_file_new pf (USER_ELF_BYTES pf) = Some elf \<and> elf_ok U elf \<and>
       init_internal (manager (k_vm k)) (memory_map_addr (ho_boot_info h)) (memory_map_len (ho_boot_info h)) (memory_map_desc_size (ho_boot_info h))
         (hhdm_offset (ho_boot_info h)) (max_phys_memory (ho_boot_info h)) (vmem (k_vm k)) = Inr (p, m1) \<and>
       100 + 4 * (elf_page_count elf + length stack_pages) \<le> card (pmm_avail (p, m1)) \<longrightarrow>
       (\<exists>k'. kernel_start pf (ho_boot_info h) k = Inr k' \<and>
          rip (k_cpu k') = load_base elf + entry_point elf \<and> regs (k_cpu k') RSP = initial_sp \<and> cs (k_cpu k') AND 3 = 3 \<and>
          user_image (px pf) (hhdm_offset (ho_boot_info h)) U (k_vm k') = stack_image elf (elf_image elf) \<and>
          (\<forall>q \<in> U. \<forall>f. translate_page (px pf) (tables (k_vm k')) q = Some f \<longrightarrow> (\<forall>a \<in> allocated u'. \<not> in_range f 4096 a)) \<and>
          (\<forall>ph \<in> set (load_headers kelf). \<not> ph_is_write ph \<longrightarrow> (\<forall>i < unat (mem_size ph). \<exists>f.
             translate_page x (tables s) (page_of (virtual_addr ph + of_nat i)) = Some f \<and>
             vmem (k_vm k') (f + of_nat (unat (virtual_addr ph + of_nat i) mod 4096) + hhdm_offset (ho_boot_info h)) =
               (if i < unat (file_size ph) then kd ! (unat (ph_file_offset ph) + i) else 0)))))"
proof -
  from boot_main_effect [OF assms(1-4), of elf_file_new P m] assms(5-7)
  obtain h s u' where h: "boot_main elf_file_new x y fw m u = Inr (h, s, u')" "ho_rsp h = STACK_TOP" "booted x y fw kelf dl s"
    "hhdm_offset (ho_boot_info h) = BOOT_HHDM_OFFSET" "unat (ho_cr3 h) < 2 ^ 47"
    "holds_image x s (allocated u') (fold (kernel_segment_image kd) (load_headers kelf) Map.empty)"
    by (auto simp: boot_info_of_def)
  note run = user_program_after_boot [OF h(3) kelf fw h(6) h(5,2,4) U]
  show ?thesis using h(1) run by blast
qed

theorem machine_boots_to_user_program_witness:
  "\<exists>h s u' k k'. boot_main (\<lambda>_. Some ex_kernel) ex_boot_x86 ex_boot ex_firmware ex_phys_mem 0 = Inr (h, s, u') \<and>
     kernel_start (ex_platform\<lparr>p_cr3 := ho_cr3 h, p_offset_page_table := \<lambda>_ _. fst (tables s)\<rparr>) (ho_boot_info h) k = Inr k' \<and>
     rip (k_cpu k') = 0x401000 \<and> regs (k_cpu k') RSP = 0x7FFFFFFEFF00 \<and>
     (\<exists>f. translate_page (ex_boot_x86 :: (_, BumpAllocator) x86_64) (tables s) 0xFFFFFFFF80000000 = Some f \<and> vmem (k_vm k') (f + 1 + ex_hhdm) = 2)"
proof -
  obtain h s u' where h: "boot_main (\<lambda>_. Some ex_kernel) ex_boot_x86 ex_boot ex_firmware ex_phys_mem 0 = Inr (h, s, u')"
    and b: "memory_map_addr (ho_boot_info h) = 0x8000" "memory_map_len (ho_boot_info h) = 1" "memory_map_desc_size (ho_boot_info h) = 48"
      "hhdm_offset (ho_boot_info h) = ex_hhdm" "max_phys_memory (ho_boot_info h) = 0x2000000" and map: "ex_map_at (\<lambda>v. vmem s (v - ex_hhdm))"
    by (rule ex_boot_run)
  let ?pf = "ex_platform\<lparr>p_cr3 := ho_cr3 h, p_offset_page_table := \<lambda>_ _. fst (tables s)\<rparr>"
  define k where "k = ex_kernel_state\<lparr>k_cpu := ex_user\<lparr>regs := (\<lambda>_. ho_rsp h)\<rparr>,
      k_vm := \<lparr>tables = Map.empty, manager = PMM, vmem = (\<lambda>v. vmem s (v - ex_hhdm))\<rparr>\<rparr>"
  obtain p m1 where p: "init_internal PMM 0x8000 1 48 ex_hhdm 0x2000000 (\<lambda>v. vmem s (v - ex_hhdm)) = Inr (p, m1)" "5999 \<le> card (pmm_avail (p, m1))"
    by (rule ex_boot_init [OF map])
  have "final_map_ok (ho_boot_info h) (ex_allocated u') (vmem (k_vm k))" using ex_final_map [OF map b] by (simp add: k_def)
  moreover have "platform_ok ?pf ex_user_pages"
    by (simp add: platform_ok_def ex_platform_def KERNEL_BASE_def ex_x86_ok ex_progress) (simp add: ex_x86_def)
  moreover have "kernel_entered ?pf ex_boot_x86 ex_kernel h s k"
    unfolding kernel_entered_def Let_def b
    by (simp add: k_def ex_kernel_state_def ex_platform_def) (simp add: ex_x86_def ex_boot_x86_def)
  moreover have "p_elf_file_new ?pf (USER_ELF_BYTES ?pf) = Some ex_elf" using ex_parse by (simp add: ex_platform_def)
  moreover have "init_internal (manager (k_vm k)) (memory_map_addr (ho_boot_info h)) (memory_map_len (ho_boot_info h))
      (memory_map_desc_size (ho_boot_info h)) (hhdm_offset (ho_boot_info h)) (max_phys_memory (ho_boot_info h)) (vmem (k_vm k)) = Inr (p, m1)"
    unfolding b using p(1) by (simp add: k_def)
  moreover have "100 + 4 * (elf_page_count ex_elf + length stack_pages) \<le> card (pmm_avail (p, m1))" using p(2) ex_page_count by simp
  ultimately have "\<exists>k'. kernel_start ?pf (ho_boot_info h) k = Inr k' \<and> rip (k_cpu k') = load_base ex_elf + entry_point ex_elf \<and>
      regs (k_cpu k') RSP = initial_sp \<and>
      (\<forall>ph \<in> set (load_headers ex_kernel). \<not> ph_is_write ph \<longrightarrow> (\<forall>i < unat (mem_size ph). \<exists>f.
         translate_page (ex_boot_x86 :: (_, BumpAllocator) x86_64) (tables s) (page_of (virtual_addr ph + of_nat i)) = Some f \<and>
         vmem (k_vm k') (f + of_nat (unat (virtual_addr ph + of_nat i) mod 4096) + hhdm_offset (ho_boot_info h)) =
           (if i < unat (file_size ph) then [0, 1, 2, 3] ! (unat (ph_file_offset ph) + i) else 0)))"
    using machine_boots_to_user_program [where elf_file_new = "\<lambda>_. Some ex_kernel" and m = ex_phys_mem, OF ex_boot_crate_ok ex_uefi_progress
        ex_uefi ex_firmware_ready refl ex_kernel_elf_ok ex_boot_pool_ok ex_user_pages_low ex_user_pages_identity] h ex_elf_ok by fastforce
  moreover have ro: "\<not> ph_is_write ex_kernel_segment" by (simp add: ex_kernel_segment_def)
  ultimately obtain k' where k': "kernel_start ?pf (ho_boot_info h) k = Inr k'" "rip (k_cpu k') = 0x401000" "regs (k_cpu k') RSP = 0x7FFFFFFEFF00"
    and code: "\<forall>i < unat (mem_size ex_kernel_segment). \<exists>f. translate_page (ex_boot_x86 :: (_, BumpAllocator) x86_64) (tables s)
        (page_of (virtual_addr ex_kernel_segment + of_nat i)) = Some f \<and>
      vmem (k_vm k') (f + of_nat (unat (virtual_addr ex_kernel_segment + of_nat i) mod 4096) + ex_hhdm) =
        (if i < unat (file_size ex_kernel_segment) then [0, 1, 2, 3] ! (unat (ph_file_offset ex_kernel_segment) + i) else 0)"
    unfolding ex_entry b(4) ex_headers using ro by auto
  have "page_of 0xFFFFFFFF80000001 = 0xFFFFFFFF80000000" by (simp add: page_of_def)
  then have "\<exists>f. translate_page (ex_boot_x86 :: (_, BumpAllocator) x86_64) (tables s) 0xFFFFFFFF80000000 = Some f \<and> vmem (k_vm k') (f + 1 + ex_hhdm) = 2"
    using code [rule_format, of 1] by (simp add: ex_kernel_segment_def)
  then show ?thesis using h k' by blast
qed

text \<open>C2. The kernel starts its user program: from the state the bootloader leaves, with enough conventional memory for the
  heap and the program, \<open>_start\<close> runs through every initialisation without a panic and ends in ring 3 at the relocated
  entry point, on the initial stack and with interrupts on, with the descriptor table loaded and system calls
  entering at \<open>syscall_entry\<close>. User space then is the specified image of the executable and its stack. Every frame behind a
  page of user space was free after the start of the memory manager, is free no more and is behind no page of the kernel heap.
  The hypothesis \<open>kernel_ready\<close> includes that the fill of the memory manager's bitmap stays in conventional memory.\<close>

theorem kernel_starts_user_program:
  assumes "x86_64_ok (px pf)" "map_to_progress (px pf) allocate_frame pmm_avail (U \<union> set kernel_heap_pages)"
    and "kernel_ready pf b U k" "p_elf_file_new pf (USER_ELF_BYTES pf) = Some elf" "elf_ok U elf"
    and "init_internal (manager (k_vm k)) (memory_map_addr b) (memory_map_len b) (memory_map_desc_size b) (hhdm_offset b)
      (max_phys_memory b) (vmem (k_vm k)) = Inr (p, m)"
    and "100 + 4 * (elf_page_count elf + length stack_pages) \<le> card (pmm_avail (p, m))"
  shows "\<exists>k'. kernel_start pf b k = Inr k' \<and>
    rip (k_cpu k') = load_base elf + entry_point elf \<and> regs (k_cpu k') RSP = initial_sp \<and> cs (k_cpu k') AND 3 = 3 \<and>
    bit (rflags (k_cpu k')) 9 \<and> k_idt k' = Some IDT \<and> lstar (env_msrs (k_env k')) = p_syscall_entry pf \<and>
    user_image (px pf) (hhdm_offset b) U (k_vm k') = stack_image elf (elf_image elf) \<and>
    (\<forall>q \<in> U. \<forall>f. translate_page (px pf) (tables (k_vm k')) q = Some f \<longrightarrow>
       f \<in> pmm_avail (p, m) \<and> f \<notin> pmm_avail (manager (k_vm k'), vmem (k_vm k')) \<and>
       (\<forall>r \<in> set kernel_heap_pages. translate_page (px pf) (tables (k_vm k')) r \<noteq> Some f))"
  using kernel_start_outcome [OF assms] by blast

theorem kernel_starts_user_program_witness:
  "\<exists>k'. kernel_start ex_platform ex_boot_info ex_kernel_state = Inr k' \<and> rip (k_cpu k') = 0x401000 \<and>
     regs (k_cpu k') RSP = 0x7FFFFFFEFF00"
proof -
  obtain p m where p: "init_internal PMM 0x8000 1 48 ex_hhdm 0x2000000 ex_boot_mem = Inr (p, m)" "5999 \<le> card (pmm_avail (p, m))"
    by (rule ex_boot_init [of ex_boot_mem]) (simp add: ex_map_at_def)
  have "init_internal (manager (k_vm ex_kernel_state)) (memory_map_addr ex_boot_info) (memory_map_len ex_boot_info)
      (memory_map_desc_size ex_boot_info) (hhdm_offset ex_boot_info) (max_phys_memory ex_boot_info) (vmem (k_vm ex_kernel_state)) = Inr (p, m)"
    using p(1) by (simp add: ex_boot_info_def ex_kernel_state_def)
  moreover have "x86_64_ok (px ex_platform)" "map_to_progress (px ex_platform) allocate_frame pmm_avail (ex_user_pages \<union> set kernel_heap_pages)"
    "p_elf_file_new ex_platform (USER_ELF_BYTES ex_platform) = Some ex_elf"
    using ex_x86_ok ex_progress ex_parse by (simp_all add: ex_platform_def)
  moreover have "100 + 4 * (elf_page_count ex_elf + length stack_pages) \<le> card (pmm_avail (p, m))" using p(2) ex_page_count by simp
  ultimately show ?thesis
    using kernel_starts_user_program [OF _ _ ex_kernel_ready _ ex_elf_ok] unfolding ex_entry by blast
qed

section \<open>Memory that system calls hand out\<close>



end
